(* ===== verification/Airtizen_Prelude.thy ===== *)
theory Airtizen_Prelude
  imports Complex_Main "HOL-Library.Word" "HOL-Library.Monad_Syntax"
begin

unbundle bit_operations_syntax

text \<open>
  Shared material of the development: the C values the receiver works on and the generic
  facts about them.

  \<^item> A C \<open>uint8_t\<close> or \<open>char\<close> is a \<open>byte\<close> (an 8-bit word), a buffer or a C string is a list
    of bytes, a null pointer is \<open>None\<close>; string literals are written \<open>str ''text''\<close>.
    A C string is the list of the bytes before its terminating NUL.
  \<^item> \<open>unsigned\<close>, \<open>uint32_t\<close> and \<open>uint64_t\<close> are words of their width, so that their
    arithmetic wraps; \<open>size_t\<close> is \<open>nat\<close>: every size of the receiver is bounded by a check
    far below the width of the type.
  \<^item> A computation that may touch memory out of bounds, or that may not return, has an
    \<open>option\<close> type: \<open>None\<close> is undefined behaviour or divergence, \<open>Some r\<close> is a regular
    return. \<open>rd\<close> and \<open>rdn\<close> are checked reads, \<open>put\<close> is a checked sequential write and
    \<open>blit\<close> a checked \<open>memcpy\<close> into a buffer. Memory safety of a function is the
    statement that it is never \<open>None\<close>.
\<close>

section \<open>Types\<close>

type_synonym byte = "8 word"
type_synonym cstring = "byte list"
type_synonym u16 = "16 word"
type_synonym u32 = "32 word"
type_synonym u64 = "64 word"

named_theorems mem_simps \<open>unfolding of the checked memory accesses\<close>
named_theorems byte_simps \<open>decoding and encoding of big-endian integers\<close>

definition str :: "string \<Rightarrow> cstring" where
  "str s = map of_char s"

section \<open>Bytes and big-endian integers\<close>

lemma unat_byte_lt [simp]: "unat (x::byte) < 256"
  using unsigned_less [of x] by simp

lemma unat_byte_le [simp]: "unat (x::byte) \<le> 255"
  using unat_byte_lt [of x] by linarith

lemma unat_u32_lt [simp]: "unat (x::u32) < 4294967296"
  using unsigned_less [of x] by simp

lemma unat_u64_lt [simp]: "unat (x::u64) < 18446744073709551616"
  using unsigned_less [of x] by simp

lemma unat_ucast_u32 [simp]: "unat (ucast (a::byte) :: u32) = unat a"
proof -
  have "unat a < 4294967296" using unat_byte_lt [of a] by linarith
  then show ?thesis by (simp add: unsigned_ucast_eq take_bit_nat_eq_self)
qed

lemma unat_ucast_u32_u64 [simp]: "unat (ucast (a::u32) :: u64) = unat a"
proof -
  have "unat a < 18446744073709551616" using unat_u32_lt [of a] by linarith
  then show ?thesis by (simp add: unsigned_ucast_eq take_bit_nat_eq_self)
qed

lemma unat_of_nat_byte: "n < 256 \<Longrightarrow> unat (of_nat n :: byte) = n"
  by (simp add: unat_of_nat take_bit_nat_eq_self)

lemma unat_of_nat_u32: "n < 4294967296 \<Longrightarrow> unat (of_nat n :: u32) = n"
  by (simp add: unat_of_nat take_bit_nat_eq_self)

lemma unat_of_char [simp]: "unat (of_char c :: byte) = of_char c"
proof -
  have "(of_char c :: byte) = of_nat (of_char c)" by (simp only: of_nat_of_char)
  moreover have "of_char c < (256::nat)" by (rule nat_of_char_less_256)
  ultimately show ?thesis using unat_of_nat_byte by metis
qed

lemma of_char_byte_eq [simp]: "(of_char c :: byte) = of_char d \<longleftrightarrow> c = d"
proof
  assume "(of_char c :: byte) = of_char d"
  then have "unat (of_char c :: byte) = unat (of_char d :: byte)" by simp
  then show "c = d" by simp
qed simp

lemma str_eq [simp]: "str s = str t \<longleftrightarrow> s = t"
  unfolding str_def by (rule inj_map_eq_map) (auto intro: injI)

lemma length_str [simp]: "length (str s) = length s"
  by (simp add: str_def)

lemma str_Nil [simp]: "str [] = []"
  by (simp add: str_def)

lemma str_Nil_iff [simp]: "str s = [] \<longleftrightarrow> s = []" "[] = str s \<longleftrightarrow> s = []"
  by (simp_all add: str_def)

definition be16 :: "byte \<Rightarrow> byte \<Rightarrow> nat" where
  "be16 a b = (push_bit 8 (unat a) OR unat b)"

definition be32 :: "byte \<Rightarrow> byte \<Rightarrow> byte \<Rightarrow> byte \<Rightarrow> u32" where
  "be32 a b c d = push_bit 24 (ucast a) OR push_bit 16 (ucast b) OR push_bit 8 (ucast c) OR ucast d"

lemma or_low_bits:
  assumes "x < 2 ^ k"
  shows "push_bit k m OR x = m * 2 ^ k + (x::nat)"
proof -
  have "\<not> bit (push_bit k m) n \<or> \<not> bit x n" for n
  proof (cases "n < k")
    case True then show ?thesis by (simp add: bit_push_bit_iff)
  next
    case False
    then have "x < 2 ^ n" using less_le_trans [OF assms] power_increasing [of k n "2::nat"] by simp
    then show ?thesis by (simp add: bit_iff_odd)
  qed
  then have "push_bit k m + x = push_bit k m OR x" by (rule disjunctive_add)
  then show ?thesis by (simp add: push_bit_eq_mult)
qed

lemma be16_eq [byte_simps]: "be16 a b = unat a * 256 + unat b"
  using or_low_bits [of "unat b" 8 "unat a"] by (simp add: be16_def)

lemma be32_plus:
  "be32 a b c d = push_bit 24 (ucast a) + (push_bit 16 (ucast b) + (push_bit 8 (ucast c) + ucast d))"
  unfolding be32_def
  by (subst disjunctive_add, force simp: bit_simps dest: bit_imp_le_length)+ simp

lemma unat_be32 [byte_simps]:
  "unat (be32 a b c d) = unat a * 16777216 + unat b * 65536 + unat c * 256 + unat d"
proof -
  have "unat a < 256" "unat b < 256" "unat c < 256" "unat d < 256" by simp_all
  then show ?thesis unfolding be32_plus push_bit_eq_mult
    by (simp add: unat_word_ariths del: unat_byte_lt unat_byte_le)
qed

text \<open>The encoders: what the network side writes and the receiver's own serialisers produce.\<close>

definition enc16 :: "nat \<Rightarrow> byte list" where
  "enc16 n = [of_nat (n div 256), of_nat (n mod 256)]"

definition enc32 :: "nat \<Rightarrow> byte list" where
  "enc32 n = [of_nat (n div 16777216), of_nat (n div 65536 mod 256), of_nat (n div 256 mod 256),
              of_nat (n mod 256)]"

lemma length_enc16 [simp]: "length (enc16 n) = 2" and length_enc32 [simp]: "length (enc32 n) = 4"
  by (simp_all add: enc16_def enc32_def)

lemma be16_enc16:
  "n < 65536 \<Longrightarrow> be16 (of_nat (n div 256)) (of_nat (n mod 256)) = n"
  by (simp add: be16_eq unat_of_nat_byte less_mult_imp_div_less)

lemma be32_enc32:
  assumes "n < 4294967296"
  shows "unat (be32 (of_nat (n div 16777216)) (of_nat (n div 65536 mod 256)) (of_nat (n div 256 mod 256))
     (of_nat (n mod 256))) = n"
proof -
  have "n div 16777216 < 256" using assms by (simp add: less_mult_imp_div_less)
  then have "unat (be32 (of_nat (n div 16777216)) (of_nat (n div 65536 mod 256)) (of_nat (n div 256 mod 256))
     (of_nat (n mod 256))) = (n div 16777216) * 16777216 + (n div 65536 mod 256) * 65536
       + (n div 256 mod 256) * 256 + n mod 256"
    by (simp add: unat_be32 unat_of_nat_byte)
  also have "\<dots> = n"
  proof -
    have d: "n div 65536 = n div 256 div 256" "n div 16777216 = n div 256 div 256 div 256"
      by (simp_all add: div_mult2_eq [symmetric])
    show ?thesis unfolding d
      using div_mult_mod_eq [of n 256] div_mult_mod_eq [of "n div 256" 256]
        div_mult_mod_eq [of "n div 256 div 256" 256] by linarith
  qed
  finally show ?thesis .
qed

lemma div_mult_add: "r < k \<Longrightarrow> (q * k + r) div k = (q::nat)"
  by simp

lemma enc32_be32: "enc32 (unat (be32 a b c d)) = [a, b, c, d]"
proof -
  let ?x = "unat a * 16777216 + unat b * 65536 + unat c * 256 + unat d"
  have b: "unat a < 256" "unat b < 256" "unat c < 256" "unat d < 256" by simp_all
  have "?x div 16777216 = unat a" "?x div 65536 = unat a * 256 + unat b"
    "?x div 256 = unat a * 65536 + unat b * 256 + unat c"
    using div_mult_add [of "unat b * 65536 + unat c * 256 + unat d" 16777216 "unat a"]
      div_mult_add [of "unat c * 256 + unat d" 65536 "unat a * 256 + unat b"]
      div_mult_add [of "unat d" 256 "unat a * 65536 + unat b * 256 + unat c"] b
    by (simp_all add: algebra_simps del: unat_byte_lt unat_byte_le)
  moreover have "(unat a * 256 + unat b) mod 256 = unat b"
    "(unat a * 65536 + unat b * 256 + unat c) mod 256 = unat c" "?x mod 256 = unat d"
    using b by (simp_all add: mod_add_eq [symmetric] mod_mult_right_eq [symmetric] del: unat_byte_lt)
  ultimately show ?thesis by (simp add: enc32_def unat_be32)
qed

section \<open>Checked memory\<close>

text \<open>\<open>p[i]\<close> on a buffer of \<open>length p\<close> bytes.\<close>

definition rd :: "'a list \<Rightarrow> nat \<Rightarrow> 'a option" where
  "rd p i = (if i < length p then Some (p ! i) else None)"

text \<open>\<open>memcpy(_, p + i, n)\<close>, seen from its source.\<close>

definition rdn :: "'a list \<Rightarrow> nat \<Rightarrow> nat \<Rightarrow> 'a list option" where
  "rdn p i n = (if i + n \<le> length p then Some (take n (drop i p)) else None)"

text \<open>\<open>p[i]\<close> on a C string, whose terminator may be read but nothing after it.\<close>

definition rdz :: "cstring \<Rightarrow> nat \<Rightarrow> byte option" where
  "rdz p i = (if i < length p then Some (p ! i) else if i = length p then Some 0 else None)"

text \<open>A write at the end of what is already written to a buffer of \<open>cap\<close> bytes.\<close>

definition put :: "nat \<Rightarrow> 'a list \<Rightarrow> 'a list \<Rightarrow> 'a list option" where
  "put cap out xs = (if length out + length xs \<le> cap then Some (out @ xs) else None)"

text \<open>\<open>memcpy(p + i, xs, n)\<close>, seen from its destination.\<close>

definition blit :: "'a list \<Rightarrow> nat \<Rightarrow> 'a list \<Rightarrow> 'a list option" where
  "blit p i xs = (if i + length xs \<le> length p then Some (take i p @ xs @ drop (i + length xs) p) else None)"

lemma rd_Some [mem_simps]: "i < length p \<Longrightarrow> rd p i = Some (p ! i)"
  by (simp add: rd_def)

lemma rdn_Some [mem_simps]: "i + n \<le> length p \<Longrightarrow> rdn p i n = Some (take n (drop i p))"
  by (simp add: rdn_def)

lemma rdz_less [mem_simps]: "i < length p \<Longrightarrow> rdz p i = Some (p ! i)"
  by (simp add: rdz_def)

lemma rdz_end [mem_simps]: "rdz p (length p) = Some 0"
  by (simp add: rdz_def)

lemma put_Some [mem_simps]: "length out + length xs \<le> cap \<Longrightarrow> put cap out xs = Some (out @ xs)"
  by (simp add: put_def)

lemma blit_Some [mem_simps]:
  "i + length xs \<le> length p \<Longrightarrow> blit p i xs = Some (take i p @ xs @ drop (i + length xs) p)"
  by (simp add: blit_def)

lemma length_blit: "blit p i xs = Some q \<Longrightarrow> length q = length p"
  by (auto simp: blit_def split: if_splits)

section \<open>Pieces of the C library\<close>

text \<open>\<open>snprintf(buf, n, "%s", s)\<close> with \<open>char buf[n]\<close>: what the buffer holds afterwards.\<close>

definition fit :: "nat \<Rightarrow> cstring \<Rightarrow> cstring" where
  "fit n s = take (n - 1) s"

lemma length_fit: "0 < n \<Longrightarrow> length (fit n s) < n"
  by (simp add: fit_def)

lemma fit_id: "length s < n \<Longrightarrow> fit n s = s"
  by (simp add: fit_def)

text \<open>The C string a buffer holds: its bytes before the first NUL.\<close>

definition cstr :: "byte list \<Rightarrow> cstring" where
  "cstr p = takeWhile (\<lambda>b. b \<noteq> 0) p"

definition no_nul :: "byte list \<Rightarrow> bool" where
  "no_nul p = list_all (\<lambda>b. b \<noteq> 0) p"

lemma no_nul_simps [simp]:
  "no_nul []" "no_nul (x # p) \<longleftrightarrow> x \<noteq> 0 \<and> no_nul p" "no_nul (p @ q) \<longleftrightarrow> no_nul p \<and> no_nul q"
  by (simp_all add: no_nul_def)

lemma no_nul_cstr [simp]: "no_nul (cstr p)"
  by (auto simp: no_nul_def cstr_def list_all_iff dest: set_takeWhileD)

lemma length_cstr: "length (cstr p) \<le> length p"
  by (simp add: cstr_def length_takeWhile_le)

lemma no_nul_take: "no_nul p \<Longrightarrow> no_nul (take n p)"
  by (auto simp: no_nul_def list_all_iff dest: in_set_takeD)

text \<open>\<open>tolower\<close> in the C locale, as \<open>strcasecmp\<close> and \<open>strncasecmp\<close> use it.\<close>

definition lower :: "byte \<Rightarrow> byte" where
  "lower b = (if 65 \<le> b \<and> b \<le> 90 then b + 32 else b)"

definition strcaseeq :: "cstring \<Rightarrow> cstring \<Rightarrow> bool" where
  "strcaseeq s t = (map lower s = map lower t)"

definition strprefix :: "cstring \<Rightarrow> cstring \<Rightarrow> bool" where
  "strprefix p s = (take (length p) s = p)"

text \<open>\<open>%u\<close> and \<open>%02x\<close>.\<close>

fun dec_nat :: "nat \<Rightarrow> cstring" where
  "dec_nat n = (if n < 10 then [of_nat (48 + n)] else dec_nat (n div 10) @ [of_nat (48 + n mod 10)])"

declare dec_nat.simps [simp del]

definition hexdigit :: "nat \<Rightarrow> byte" where
  "hexdigit n = of_nat (if n < 10 then 48 + n else 87 + n)"

definition hex2 :: "byte \<Rightarrow> cstring" where
  "hex2 b = [hexdigit (unat b div 16), hexdigit (unat b mod 16)]"

lemma length_hex2 [simp]: "length (hex2 b) = 2"
  by (simp add: hex2_def)

lemma dec_nat_nonempty: "dec_nat n \<noteq> []"
  by (subst dec_nat.simps) simp

lemma length_dec_nat: "n < 10 ^ Suc k \<Longrightarrow> length (dec_nat n) \<le> Suc k"
proof (induction k arbitrary: n)
  case 0
  then show ?case by (subst dec_nat.simps) simp
next
  case (Suc k)
  show ?case
  proof (cases "n < 10")
    case True then show ?thesis by (subst dec_nat.simps) simp
  next
    case False
    have "n div 10 < 10 ^ Suc k" using Suc.prems by (simp add: less_mult_imp_div_less)
    then have "length (dec_nat (n div 10)) \<le> Suc k" by (rule Suc.IH)
    with False show ?thesis by (subst dec_nat.simps) simp
  qed
qed

section \<open>Loops that search an array\<close>

text \<open>The loop that keeps the index with the least value among those that satisfy a condition.\<close>

lemma fold_least:
  fixes f :: "nat \<Rightarrow> 'a::linorder"
  shows "case fold (\<lambda>i r. if P i \<and> (case r of None \<Rightarrow> True | Some j \<Rightarrow> f i < f j) then Some i else r) [0..<n] None of
     None \<Rightarrow> \<forall>i<n. \<not> P i | Some v \<Rightarrow> v < n \<and> P v \<and> (\<forall>i<n. P i \<longrightarrow> f v \<le> f i)"
proof (induction n)
  case (Suc n)
  let ?r = "fold (\<lambda>i r. if P i \<and> (case r of None \<Rightarrow> True | Some j \<Rightarrow> f i < f j) then Some i else r) [0..<n] None"
  from Suc.IH show ?case by (cases ?r) (auto simp: less_Suc_eq intro: order_trans less_imp_le)
qed simp

section \<open>Components as invariant-preserving transition systems\<close>

text \<open>
  Every component of the receiver that keeps static state behind a mutex is a set of
  operations on that state; the mutex makes each operation atomic, so a history of the
  component is a sequence of operations. The contract of such a component is an invariant
  of the initial state that every operation preserves; then every history ends in a state
  that satisfies it.
\<close>

locale guarded_component =
  fixes init :: 's
    and step :: "'op \<Rightarrow> 's \<Rightarrow> 's"
    and inv :: "'s \<Rightarrow> bool"
  assumes init_inv: "inv init"
    and step_inv: "inv s \<Longrightarrow> inv (step op s)"
begin

lemma run_from: "inv s \<Longrightarrow> inv (fold step ops s)"
  by (induction ops arbitrary: s) (simp_all add: step_inv)

lemma run_inv: "inv (fold step ops init)"
  by (rule run_from [OF init_inv])

end

text \<open>
  Several components publish a \<^emph>\<open>generation\<close>: an unsigned counter that identifies the item
  on screen, so that a late report or a late read for an item that has been replaced is
  told apart from one for the current item. The contract: an operation keeps the
  generation or steps it to the next one, retiring the item steps it, and a request that
  names another generation is refused.
\<close>

locale generation_guard =
  fixes gen :: "'s \<Rightarrow> u32"
    and retire :: "'s \<Rightarrow> 's"
    and accepts :: "'s \<Rightarrow> u32 \<Rightarrow> bool"
  assumes retire_gen: "gen (retire s) = gen s + 1"
    and accepts_gen: "accepts s g \<Longrightarrow> g = gen s"
begin

lemma stale_refused: "\<not> accepts (retire s) (gen s)"
  using accepts_gen [of "retire s" "gen s"] by (auto simp: retire_gen)

lemma retire_many: "gen ((retire ^^ n) s) = gen s + of_nat n"
  by (induction n) (simp_all add: retire_gen)

lemma stale_refused_many:
  assumes "0 < n" "n < 2 ^ 32"
  shows "\<not> accepts ((retire ^^ n) s) (gen s)"
proof
  assume "accepts ((retire ^^ n) s) (gen s)"
  then have "gen s = gen s + of_nat n" using accepts_gen retire_many by metis
  then have "unat (of_nat n :: u32) = 0" by simp
  moreover have "unat (of_nat n :: u32) = n" using assms by (simp add: unat_of_nat_u32)
  ultimately show False using assms by simp
qed

end

end
