(* ===== verification/Audio_Queue.thy ===== *)
theory Audio_Queue
  imports Airtizen_Prelude
begin

text \<open>
  The bounded PCM queue between the receiver's audio thread and the PPAPI output callback
  (\<open>native/nacl/audio_queue.c\<close>, \<open>audio_queue.h\<close>). The ring \<open>samples\<close> is kept as the bytes
  of its 16-bit samples, which is what the \<open>memcpy\<close> calls of the source move; a stereo frame is
  four bytes. The queue mutex makes each operation atomic. The theory shows that no access
  leaves the ring or the caller's buffers, and that the ring refines a bounded first-in
  first-out queue of stereo frames.
\<close>

section \<open>State and operations\<close>

definition AIRTIZEN_AUDIO_FRAMES :: nat where
  "AIRTIZEN_AUDIO_FRAMES = 16384"

record airtizen_audio_queue =
  samples :: "byte list"
  read_frame :: nat
  count :: nat
  channels :: u32
  open_q :: bool
  rendered_frames :: u64
  underruns :: u64

definition airtizen_audio_queue_init :: airtizen_audio_queue where
  "airtizen_audio_queue_init =
     \<lparr>samples = replicate (4 * AIRTIZEN_AUDIO_FRAMES) 0, read_frame = 0, count = 0, channels = 0,
      open_q = False, rendered_frames = 0, underruns = 0\<rparr>"

definition airtizen_audio_queue_open :: "airtizen_audio_queue \<Rightarrow> u32 \<Rightarrow> airtizen_audio_queue" where
  "airtizen_audio_queue_open q ch =
     q\<lparr>read_frame := 0, count := 0, rendered_frames := 0, underruns := 0,
       channels := ch, open_q := (ch = 1 \<or> ch = 2)\<rparr>"

definition airtizen_audio_queue_close :: "airtizen_audio_queue \<Rightarrow> airtizen_audio_queue" where
  "airtizen_audio_queue_close q = q\<lparr>open_q := False, count := 0, read_frame := 0\<rparr>"

text \<open>The copy loop of \<open>airtizen_audio_queue_write\<close>: frame \<open>i\<close> of the input goes to slot
  \<open>(start + i) % AIRTIZEN_AUDIO_FRAMES\<close>, a mono sample to both channels.\<close>

fun write_frames :: "byte list \<Rightarrow> byte list \<Rightarrow> nat \<Rightarrow> nat \<Rightarrow> nat \<Rightarrow> nat \<Rightarrow> byte list option" where
  "write_frames smp inp start ch i 0 = Some smp"
| "write_frames smp inp start ch i (Suc n) =
     (let index = (start + i) mod AIRTIZEN_AUDIO_FRAMES in
      do {
        l \<leftarrow> rdn inp (i * ch * 2) 2;
        smp1 \<leftarrow> blit smp (index * 4) l;
        r \<leftarrow> rdn inp ((i * ch + (if ch = 2 then 1 else 0)) * 2) 2;
        smp2 \<leftarrow> blit smp1 (index * 4 + 2) r;
        write_frames smp2 inp start ch (Suc i) n
      })"

definition airtizen_audio_queue_write ::
  "airtizen_audio_queue \<Rightarrow> byte list option \<Rightarrow> (int \<times> airtizen_audio_queue) option" where
  "airtizen_audio_queue_write q pcm =
     (case pcm of None \<Rightarrow> Some (-1, q)
      | Some inp \<Rightarrow>
          if \<not> open_q q \<or> length inp mod unat (channels q * 2) \<noteq> 0 then Some (-1, q)
          else
            let frames0 = length inp div unat (channels q * 2);
                frames = (if frames0 > AIRTIZEN_AUDIO_FRAMES - count q
                          then AIRTIZEN_AUDIO_FRAMES - count q else frames0)
            in do {
              smp \<leftarrow> write_frames (samples q) inp (read_frame q + count q) (unat (channels q)) 0 frames;
              Some (int (frames * unat (channels q) * 2), q\<lparr>samples := smp, count := count q + frames\<rparr>)
            })"

text \<open>The copy loop of \<open>airtizen_audio_queue_render\<close> into the zeroed output.\<close>

fun render_frames :: "byte list \<Rightarrow> byte list \<Rightarrow> nat \<Rightarrow> nat \<Rightarrow> nat \<Rightarrow> byte list option" where
  "render_frames out smp start i 0 = Some out"
| "render_frames out smp start i (Suc n) =
     (let index = (start + i) mod AIRTIZEN_AUDIO_FRAMES in
      do {
        f \<leftarrow> rdn smp (index * 4) 4;
        out1 \<leftarrow> blit out (i * 4) f;
        render_frames out1 smp start (Suc i) n
      })"

definition airtizen_audio_queue_render ::
  "airtizen_audio_queue \<Rightarrow> nat \<Rightarrow> (byte list \<times> airtizen_audio_queue) option" where
  "airtizen_audio_queue_render q bytes =
     (let out = replicate bytes 0; frames0 = bytes div 4 in
      if \<not> open_q q then Some (out, q)
      else
        let q1 = (if frames0 > count q then q\<lparr>underruns := underruns q + 1\<rparr> else q);
            frames = (if frames0 > count q then count q else frames0)
        in do {
          out1 \<leftarrow> render_frames out (samples q) (read_frame q) 0 frames;
          Some (out1, q1\<lparr>read_frame := (read_frame q + frames) mod AIRTIZEN_AUDIO_FRAMES,
                         count := count q - frames,
                         rendered_frames := rendered_frames q + of_nat frames\<rparr>)
        })"

section \<open>The invariant and the abstraction\<close>

definition queue_inv :: "airtizen_audio_queue \<Rightarrow> bool" where
  "queue_inv q \<longleftrightarrow> length (samples q) = 4 * AIRTIZEN_AUDIO_FRAMES \<and>
     read_frame q < AIRTIZEN_AUDIO_FRAMES \<and> count q \<le> AIRTIZEN_AUDIO_FRAMES \<and>
     (open_q q \<longrightarrow> channels q = 1 \<or> channels q = 2)"

definition frame_at :: "byte list \<Rightarrow> nat \<Rightarrow> byte list" where
  "frame_at smp k = take 4 (drop (4 * k) smp)"

text \<open>The frames waiting in the queue, oldest first.\<close>

definition content :: "airtizen_audio_queue \<Rightarrow> byte list list" where
  "content q = map (\<lambda>i. frame_at (samples q) ((read_frame q + i) mod AIRTIZEN_AUDIO_FRAMES)) [0..<count q]"

text \<open>Frame \<open>i\<close> of an input with \<open>ch\<close> channels, expanded to stereo.\<close>

definition stereo :: "byte list \<Rightarrow> nat \<Rightarrow> nat \<Rightarrow> byte list" where
  "stereo inp ch i =
     (let l = take 2 (drop (i * ch * 2) inp) in
      if ch = 2 then l @ take 2 (drop (i * ch * 2 + 2) inp) else l @ l)"

definition stereo_frames :: "byte list \<Rightarrow> nat \<Rightarrow> byte list list" where
  "stereo_frames inp ch = map (stereo inp ch) [0..<length inp div (ch * 2)]"

lemma length_content [simp]: "length (content q) = count q"
  by (simp add: content_def)

lemma frames_pos [simp]: "0 < AIRTIZEN_AUDIO_FRAMES"
  by (simp add: AIRTIZEN_AUDIO_FRAMES_def)

lemma mod_frames_less [simp]: "k mod AIRTIZEN_AUDIO_FRAMES < AIRTIZEN_AUDIO_FRAMES"
  by simp

lemma mod_ring_inj:
  "(s + i) mod n = (s + j) mod n \<Longrightarrow> i < j + n \<Longrightarrow> j < i + n \<Longrightarrow> i = (j::nat)"
proof (induction i j rule: linorder_wlog)
  case (le i j)
  then have "n dvd (s + j) - (s + i)" by (metis add_le_mono mod_eq_dvd_iff_nat order_refl)
  then have "n dvd j - i" by simp
  with le show ?case by (auto dest: dvd_imp_le)
next
  case (sym i j)
  then show ?case by metis
qed

text \<open>Two 2-byte writes at a slot replace exactly that frame.\<close>

lemma blit_frame:
  assumes "length smp = 4 * n" "k < n" "length l = 2" "length r = 2"
  shows "blit smp (k * 4) l = Some (take (4 * k) smp @ l @ drop (4 * k + 2) smp)"
    and "blit (take (4 * k) smp @ l @ drop (4 * k + 2) smp) (k * 4 + 2) r
       = Some (take (4 * k) smp @ (l @ r) @ drop (4 * k + 4) smp)"
proof -
  have k: "k * 4 + 4 \<le> length smp" using assms by simp
  then show "blit smp (k * 4) l = Some (take (4 * k) smp @ l @ drop (4 * k + 2) smp)"
    using assms by (simp add: blit_def mult.commute)
  have "drop (Suc (Suc (Suc (Suc (k * 4))))) smp = drop (k * 4 + 4) smp"
    by (simp add: eval_nat_numeral)
  with k show "blit (take (4 * k) smp @ l @ drop (4 * k + 2) smp) (k * 4 + 2) r
       = Some (take (4 * k) smp @ (l @ r) @ drop (4 * k + 4) smp)"
    using assms by (simp add: blit_def mult.commute)
qed

lemma frame_at_replace:
  assumes "length smp = 4 * n" "k < n" "length f = 4" "j < n"
  shows "frame_at (take (4 * k) smp @ f @ drop (4 * k + 4) smp) j = (if j = k then f else frame_at smp j)"
proof -
  consider "j < k" | "j = k" | "k < j" by linarith
  then show ?thesis
  proof cases
    case 1
    then have "4 * j + 4 \<le> 4 * k" by simp
    with 1 assms show ?thesis by (simp add: frame_at_def take_drop min_def)
  next
    case 2
    with assms show ?thesis by (simp add: frame_at_def)
  next
    case 3
    then have "4 * k + 4 \<le> 4 * j" by simp
    with 3 assms show ?thesis by (simp add: frame_at_def)
  qed
qed

lemma length_stereo:
  assumes "ch = 1 \<or> ch = 2" "Suc i * ch * 2 \<le> length inp"
  shows "length (stereo inp ch i) = 4"
  using assms by (auto simp: stereo_def Let_def)

lemma write_frames_step:
  assumes "length smp = 4 * AIRTIZEN_AUDIO_FRAMES" "ch = 1 \<or> ch = 2" "Suc i * ch * 2 \<le> length inp"
  shows "write_frames smp inp start ch i (Suc n) =
    write_frames (let k = (start + i) mod AIRTIZEN_AUDIO_FRAMES in
        take (4 * k) smp @ stereo inp ch i @ drop (4 * k + 4) smp) inp start ch (Suc i) n"
proof -
  let ?k = "(start + i) mod AIRTIZEN_AUDIO_FRAMES"
  let ?r = "take 2 (drop ((i * ch + (if ch = 2 then 1 else 0)) * 2) inp)"
  have l: "rdn inp (i * ch * 2) 2 = Some (take 2 (drop (i * ch * 2) inp))"
    using assms by (auto simp: rdn_def)
  have r: "rdn inp ((i * ch + (if ch = 2 then 1 else 0)) * 2) 2 = Some ?r"
    using assms by (auto simp: rdn_def)
  have len: "length (take 2 (drop (i * ch * 2) inp)) = 2" "length ?r = 2"
    using assms by auto
  have st: "take 2 (drop (i * ch * 2) inp) @ ?r = stereo inp ch i"
    using assms by (auto simp: stereo_def Let_def)
  note b = blit_frame [OF assms(1) mod_frames_less [of "start + i"] len]
  show ?thesis
    unfolding write_frames.simps Let_def l r Option.bind.bind_lunit b st ..
qed

lemma write_frames_spec:
  assumes "length smp = 4 * AIRTIZEN_AUDIO_FRAMES" "ch = 1 \<or> ch = 2" "(i + n) * ch * 2 \<le> length inp"
    "n \<le> AIRTIZEN_AUDIO_FRAMES"
  shows "\<exists>smp'. write_frames smp inp start ch i n = Some smp' \<and>
     length smp' = 4 * AIRTIZEN_AUDIO_FRAMES \<and>
     (\<forall>j. i \<le> j \<and> j < i + n \<longrightarrow> frame_at smp' ((start + j) mod AIRTIZEN_AUDIO_FRAMES) = stereo inp ch j) \<and>
     (\<forall>k < AIRTIZEN_AUDIO_FRAMES. (\<forall>j. i \<le> j \<and> j < i + n \<longrightarrow> (start + j) mod AIRTIZEN_AUDIO_FRAMES \<noteq> k)
        \<longrightarrow> frame_at smp' k = frame_at smp k)"
  using assms
proof (induction n arbitrary: smp i)
  case 0
  then show ?case by auto
next
  case (Suc n)
  let ?N = AIRTIZEN_AUDIO_FRAMES
  let ?k = "(start + i) mod ?N"
  let ?smp = "take (4 * ?k) smp @ stereo inp ch i @ drop (4 * ?k + 4) smp"
  have i: "Suc i * ch * 2 \<le> length inp"
  proof -
    have "Suc i * ch * 2 \<le> (i + Suc n) * ch * 2" by (intro mult_le_mono) simp_all
    with Suc.prems(3) show ?thesis by linarith
  qed
  note f4 = length_stereo [OF Suc.prems(2) i]
  have k: "4 * ?k + 4 \<le> length smp"
    using mod_frames_less [of "start + i"] Suc.prems(1) by linarith
  then have len: "length ?smp = 4 * ?N" using f4 Suc.prems(1) by simp
  have rep: "frame_at ?smp j = (if j = ?k then stereo inp ch i else frame_at smp j)" if "j < ?N" for j
    using frame_at_replace [OF Suc.prems(1) mod_frames_less f4 that] by simp
  have b: "(Suc i + n) * ch * 2 \<le> length inp" using Suc.prems(3) by simp
  obtain smp' where run: "write_frames ?smp inp start ch (Suc i) n = Some smp'"
    and len': "length smp' = 4 * ?N"
    and new: "\<And>j. Suc i \<le> j \<Longrightarrow> j < Suc i + n \<Longrightarrow> frame_at smp' ((start + j) mod ?N) = stereo inp ch j"
    and old: "\<And>k. k < ?N \<Longrightarrow> (\<forall>j. Suc i \<le> j \<and> j < Suc i + n \<longrightarrow> (start + j) mod ?N \<noteq> k)
       \<Longrightarrow> frame_at smp' k = frame_at ?smp k"
    using Suc.IH [OF len Suc.prems(2) b Suc_leD [OF Suc.prems(4)]] by blast
  have "write_frames smp inp start ch i (Suc n) = Some smp'"
    unfolding write_frames_step [OF Suc.prems(1,2) i] Let_def by (rule run)
  moreover have "frame_at smp' ((start + j) mod ?N) = stereo inp ch j" if "i \<le> j" "j < i + Suc n" for j
  proof (cases "j = i")
    case True
    have "(start + j') mod ?N \<noteq> ?k" if "Suc i \<le> j'" "j' < Suc i + n" for j'
      using mod_ring_inj [of start j' ?N i] that Suc.prems(4) by fastforce
    with True show ?thesis using old [of ?k] rep [of ?k] by simp
  next
    case False
    with that show ?thesis by (intro new) simp_all
  qed
  moreover have "frame_at smp' k = frame_at smp k"
    if "k < ?N" "\<forall>j. i \<le> j \<and> j < i + Suc n \<longrightarrow> (start + j) mod ?N \<noteq> k" for k
  proof -
    have "?k \<noteq> k" using that(2) by auto
    moreover have "\<forall>j. Suc i \<le> j \<and> j < Suc i + n \<longrightarrow> (start + j) mod ?N \<noteq> k" using that(2) by auto
    ultimately show ?thesis using old [OF that(1)] rep [OF that(1)] by auto
  qed
  ultimately show ?case using len' by blast
qed

lemma render_frames_spec:
  assumes "length smp = 4 * AIRTIZEN_AUDIO_FRAMES" "length out = bytes" "i * 4 + n * 4 \<le> bytes"
  shows "render_frames out smp start i n =
    Some (take (i * 4) out
      @ concat (map (\<lambda>j. frame_at smp ((start + j) mod AIRTIZEN_AUDIO_FRAMES)) [i..<i + n])
      @ drop (i * 4 + n * 4) out)"
  using assms
proof (induction n arbitrary: out i)
  case 0
  then show ?case by simp
next
  case (Suc n)
  let ?k = "(start + i) mod AIRTIZEN_AUDIO_FRAMES"
  have k: "?k * 4 + 4 \<le> length smp" using mod_frames_less [of "start + i"] Suc.prems(1) by linarith
  have fr: "rdn smp (?k * 4) 4 = Some (frame_at smp ?k)"
    using k by (simp add: rdn_def frame_at_def mult.commute)
  have lf: "length (frame_at smp ?k) = 4" using k by (simp add: frame_at_def)
  let ?out = "take (i * 4) out @ frame_at smp ?k @ drop (i * 4 + 4) out"
  have b: "blit out (i * 4) (frame_at smp ?k) = Some ?out"
    using Suc.prems lf by (simp add: blit_def)
  have "length ?out = bytes" using Suc.prems lf by simp
  then have "render_frames ?out smp start (Suc i) n =
    Some (take (Suc i * 4) ?out
      @ concat (map (\<lambda>j. frame_at smp ((start + j) mod AIRTIZEN_AUDIO_FRAMES)) [Suc i..<Suc i + n])
      @ drop (Suc i * 4 + n * 4) ?out)"
    using Suc.prems by (intro Suc.IH) simp_all
  moreover have "take (Suc i * 4) ?out = take (i * 4) out @ frame_at smp ?k"
    using Suc.prems lf by simp
  moreover have "drop (Suc i * 4 + n * 4) ?out = drop (i * 4 + Suc n * 4) out"
    using Suc.prems lf by (simp add: add_ac)
  moreover have "[i..<i + Suc n] = i # [Suc i..<Suc i + n]" by (simp add: upt_conv_Cons)
  ultimately show ?case by (simp add: fr b)
qed

lemma unat_channels: "(c::u32) = 1 \<or> c = 2 \<Longrightarrow> unat c = 1 \<or> unat c = 2"
  and unat_channels2: "(c::u32) = 1 \<or> c = 2 \<Longrightarrow> unat (c * 2) = unat c * 2"
  by auto

text \<open>What an accepted write does, on every path.\<close>

lemma write_open:
  assumes inv: "queue_inv q" and op: "open_q q"
    and len: "length inp mod (unat (channels q) * 2) = 0"
  defines "k \<equiv> min (length inp div (unat (channels q) * 2)) (AIRTIZEN_AUDIO_FRAMES - count q)"
  shows "\<exists>q'. airtizen_audio_queue_write q (Some inp) = Some (int (k * unat (channels q) * 2), q') \<and>
    queue_inv q' \<and> open_q q' \<and> channels q' = channels q \<and> rendered_frames q' = rendered_frames q \<and>
    content q' = content q @ take k (stereo_frames inp (unat (channels q)))"
proof -
  let ?N = AIRTIZEN_AUDIO_FRAMES
  let ?ch = "unat (channels q)"
  have ch: "channels q = 1 \<or> channels q = 2" using inv op by (simp add: queue_inv_def)
  note c2 = unat_channels2 [OF ch]
  have fr: "(if length inp div (?ch * 2) > ?N - count q then ?N - count q
      else length inp div (?ch * 2)) = k"
    by (simp add: k_def min_def)
  have kN: "k \<le> ?N" "count q + k \<le> ?N" using inv by (auto simp: k_def queue_inv_def)
  have "k * (?ch * 2) \<le> length inp"
    by (rule order_trans [OF mult_le_mono1 [of k "length inp div (?ch * 2)"]])
       (simp_all add: k_def div_times_less_eq_dividend)
  then have kb: "(0 + k) * ?ch * 2 \<le> length inp" by (simp add: mult.assoc)
  obtain smp where run: "write_frames (samples q) inp (read_frame q + count q) ?ch 0 k = Some smp"
    and sl: "length smp = 4 * ?N"
    and new: "\<And>j. j < k \<Longrightarrow> frame_at smp ((read_frame q + count q + j) mod ?N) = stereo inp ?ch j"
    and old: "\<And>m. m < ?N \<Longrightarrow> (\<forall>j. j < k \<longrightarrow> (read_frame q + count q + j) mod ?N \<noteq> m)
       \<Longrightarrow> frame_at smp m = frame_at (samples q) m"
    using write_frames_spec [OF _ unat_channels [OF ch] kb kN(1), of "samples q" "read_frame q + count q"] inv
    unfolding queue_inv_def by fastforce
  let ?q = "q\<lparr>samples := smp, count := count q + k\<rparr>"
  have w: "airtizen_audio_queue_write q (Some inp) = Some (int (k * ?ch * 2), ?q)"
    using op len by (simp add: airtizen_audio_queue_write_def c2 Let_def fr run)
  have iq: "queue_inv ?q" using inv sl kN by (simp add: queue_inv_def)
  have keep: "frame_at smp ((read_frame q + i) mod ?N) = frame_at (samples q) ((read_frame q + i) mod ?N)"
    if "i < count q" for i
  proof (rule old)
    have "(read_frame q + (count q + j)) mod ?N \<noteq> (read_frame q + i) mod ?N" if "j < k" for j
      using mod_ring_inj [of "read_frame q" "count q + j" ?N i] \<open>i < count q\<close> that kN(2) by fastforce
    then show "\<forall>j. j < k \<longrightarrow> (read_frame q + count q + j) mod ?N \<noteq> (read_frame q + i) mod ?N"
      by (simp add: add.assoc)
  qed simp
  have "content ?q = content q @ take k (stereo_frames inp ?ch)"
  proof (rule nth_equalityI)
    show "length (content ?q) = length (content q @ take k (stereo_frames inp ?ch))"
      by (simp add: stereo_frames_def k_def)
  next
    fix i assume "i < length (content ?q)"
    then have i: "i < count q + k" by simp
    show "content ?q ! i = (content q @ take k (stereo_frames inp ?ch)) ! i"
    proof (cases "i < count q")
      case True then show ?thesis using keep [OF True] by (simp add: content_def nth_append)
    next
      case False
      then have "content ?q ! i = stereo inp ?ch (i - count q)"
        using new [of "i - count q"] i by (simp add: content_def)
      moreover have "i - count q < length inp div (?ch * 2)" using False i by (simp add: k_def)
      ultimately show ?thesis using False i by (simp add: nth_append stereo_frames_def)
    qed
  qed
  with w iq op show ?thesis by auto
qed

lemma render_open:
  fixes bytes :: nat
  assumes inv: "queue_inv q" and op: "open_q q"
  defines "k \<equiv> min (bytes div 4) (count q)"
  shows "\<exists>q'. airtizen_audio_queue_render q bytes =
      Some (concat (take k (content q)) @ replicate (bytes - 4 * k) 0, q') \<and>
    queue_inv q' \<and> open_q q' \<and> channels q' = channels q \<and> content q' = drop k (content q) \<and>
    rendered_frames q' = rendered_frames q + of_nat k \<and>
    underruns q' = underruns q + of_bool (count q < bytes div 4)"
proof -
  let ?N = AIRTIZEN_AUDIO_FRAMES
  have fr: "(if bytes div 4 > count q then count q else bytes div 4) = k"
    by (simp add: k_def min_def)
  have kb: "0 * 4 + k * 4 \<le> bytes" using div_times_less_eq_dividend [of bytes 4] by (simp add: k_def)
  have sl: "length (samples q) = 4 * ?N" using inv by (simp add: queue_inv_def)
  have "take k (content q) = map (\<lambda>j. frame_at (samples q) ((read_frame q + j) mod ?N)) [0..<0 + k]"
    by (simp add: content_def take_map k_def)
  then have run: "render_frames (replicate bytes 0) (samples q) (read_frame q) 0 k =
      Some (concat (take k (content q)) @ replicate (bytes - 4 * k) 0)"
    using render_frames_spec [OF sl _ kb, of "replicate bytes 0" "read_frame q"]
    by (simp add: mult.commute)
  let ?q1 = "if bytes div 4 > count q then q\<lparr>underruns := underruns q + 1\<rparr> else q"
  let ?q = "?q1\<lparr>read_frame := (read_frame q + k) mod ?N, count := count q - k,
     rendered_frames := rendered_frames q + of_nat k\<rparr>"
  have r: "airtizen_audio_queue_render q bytes =
      Some (concat (take k (content q)) @ replicate (bytes - 4 * k) 0, ?q)"
    using op by (simp add: airtizen_audio_queue_render_def Let_def fr run)
  have "content ?q = drop k (content q)"
    by (rule nth_equalityI) (auto simp: content_def mod_add_left_eq add.assoc k_def)
  moreover have "queue_inv ?q" using inv by (auto simp: queue_inv_def)
  ultimately show ?thesis using r op by auto
qed

section \<open>The queue as a bounded first-in first-out queue\<close>

text \<open>
  The contract the producer and the output callback rely on: a bounded queue of frames, of
  which a producer may offer any number (the queue takes what fits, in order) and from which
  the callback draws. The history theorem holds of every such queue.
\<close>

datatype 'f fifo_op = Offer "'f list" | Draw nat

locale bounded_fifo =
  fixes inv :: "'q \<Rightarrow> bool"
    and wf :: "'f \<Rightarrow> bool"
    and items :: "'q \<Rightarrow> 'f list"
    and capacity :: nat
    and offer :: "'q \<Rightarrow> 'f list \<Rightarrow> nat \<times> 'q"
    and draw :: "'q \<Rightarrow> nat \<Rightarrow> 'f list \<times> 'q"
  assumes bounded: "inv q \<Longrightarrow> length (items q) \<le> capacity"
    and offer_items: "inv q \<Longrightarrow> list_all wf fs \<Longrightarrow>
      items (snd (offer q fs)) = items q @ take (capacity - length (items q)) fs"
    and offer_count: "inv q \<Longrightarrow> list_all wf fs \<Longrightarrow>
      fst (offer q fs) = min (length fs) (capacity - length (items q))"
    and offer_inv: "inv q \<Longrightarrow> list_all wf fs \<Longrightarrow> inv (snd (offer q fs))"
    and draw_items: "inv q \<Longrightarrow> items (snd (draw q n)) = drop n (items q)"
    and draw_result: "inv q \<Longrightarrow> fst (draw q n) = take n (items q)"
    and draw_inv: "inv q \<Longrightarrow> inv (snd (draw q n))"
begin

text \<open>The frames accepted and the frames drawn along a history.\<close>

fun history :: "'q \<Rightarrow> 'f fifo_op list \<Rightarrow> 'f list \<times> 'f list \<times> 'q" where
  "history q [] = ([], [], q)"
| "history q (Offer fs # ops) =
     (let (n, q1) = offer q fs; (acc, drawn, q2) = history q1 ops in (take n fs @ acc, drawn, q2))"
| "history q (Draw n # ops) =
     (let (fs, q1) = draw q n; (acc, drawn, q2) = history q1 ops in (acc, fs @ drawn, q2))"

definition wf_ops :: "'f fifo_op list \<Rightarrow> bool" where
  "wf_ops ops = list_all (\<lambda>op. case op of Offer fs \<Rightarrow> list_all wf fs | Draw n \<Rightarrow> True) ops"

lemma offer_take: "inv q \<Longrightarrow> list_all wf fs \<Longrightarrow> items (snd (offer q fs)) = items q @ take (fst (offer q fs)) fs"
  by (simp add: offer_items offer_count min_def)

lemma draw_split: "inv q \<Longrightarrow> items q = fst (draw q n) @ items (snd (draw q n))"
  by (simp add: draw_items draw_result)

text \<open>Nothing is lost, duplicated or reordered between what was accepted and what is drawn.\<close>

theorem history_fifo:
  "inv q \<Longrightarrow> wf_ops ops \<Longrightarrow> history q ops = (acc, drawn, q') \<Longrightarrow>
     items q @ acc = drawn @ items q' \<and> inv q' \<and> length (items q') \<le> capacity"
proof (induction q ops arbitrary: acc drawn q' rule: history.induct)
  case (1 q)
  then show ?case by (auto simp: bounded)
next
  case (2 q fs ops)
  obtain n q1 where o: "offer q fs = (n, q1)" by (cases "offer q fs")
  obtain a d q2 where h: "history q1 ops = (a, d, q2)" by (cases "history q1 ops") auto
  have w: "list_all wf fs" "wf_ops ops" using "2.prems"(2) by (auto simp: wf_ops_def)
  have i: "inv q1" using offer_inv [OF "2.prems"(1) w(1)] o by simp
  have "items q1 @ a = d @ items q2 \<and> inv q2 \<and> length (items q2) \<le> capacity"
    using "2.IH" [OF o [symmetric] refl i w(2) h] .
  moreover have "items q1 = items q @ take n fs" using offer_take [OF "2.prems"(1) w(1)] o by simp
  moreover have "acc = take n fs @ a" "drawn = d" "q' = q2" using "2.prems"(3) o h by auto
  ultimately show ?case by simp
next
  case (3 q n ops)
  obtain fs q1 where d: "draw q n = (fs, q1)" by (cases "draw q n")
  obtain a dr q2 where h: "history q1 ops = (a, dr, q2)" by (cases "history q1 ops") auto
  have w: "wf_ops ops" using "3.prems"(2) by (auto simp: wf_ops_def)
  have i: "inv q1" using draw_inv [OF "3.prems"(1), of n] d by simp
  have "items q1 @ a = dr @ items q2 \<and> inv q2 \<and> length (items q2) \<le> capacity"
    using "3.IH" [OF d [symmetric] refl i w h] .
  moreover have "items q = fs @ items q1" using draw_split [OF "3.prems"(1), of n] d by simp
  moreover have "acc = a" "drawn = fs @ dr" "q' = q2" using "3.prems"(3) d h by auto
  ultimately show ?case by simp
qed

end

text \<open>The stereo queue as the producer and the callback use it: \<open>write\<close> takes interleaved PCM
  and reports the bytes it accepted, \<open>render\<close> fills an output of whole frames and counts what it rendered.\<close>

definition stereo_inv :: "airtizen_audio_queue \<Rightarrow> bool" where
  "stereo_inv q \<longleftrightarrow> queue_inv q \<and> open_q q \<and> channels q = 2"

definition is_frame :: "byte list \<Rightarrow> bool" where
  "is_frame f \<longleftrightarrow> length f = 4"

definition queue_offer :: "airtizen_audio_queue \<Rightarrow> byte list list \<Rightarrow> nat \<times> airtizen_audio_queue" where
  "queue_offer q fs =
     (case airtizen_audio_queue_write q (Some (concat fs)) of
        Some (r, q') \<Rightarrow> (nat r div 4, q') | None \<Rightarrow> (0, q))"

definition queue_draw :: "airtizen_audio_queue \<Rightarrow> nat \<Rightarrow> byte list list \<times> airtizen_audio_queue" where
  "queue_draw q n =
     (case airtizen_audio_queue_render q (4 * n) of
        Some (out, q') \<Rightarrow>
          (map (frame_at out) [0..<unat (rendered_frames q' - rendered_frames q)], q')
      | None \<Rightarrow> ([], q))"

lemma length_concat_frames: "list_all is_frame fs \<Longrightarrow> length (concat fs) = 4 * length fs"
  by (induction fs) (auto simp: is_frame_def)

lemma frame_at_concat:
  "list_all is_frame fs \<Longrightarrow> i < length fs \<Longrightarrow> frame_at (concat fs @ rest) i = fs ! i"
proof (induction fs arbitrary: i)
  case (Cons f fs)
  then show ?case
    by (cases i) (auto simp: frame_at_def is_frame_def)
qed simp

lemma stereo_concat:
  "list_all is_frame fs \<Longrightarrow> i < length fs \<Longrightarrow> stereo (concat fs) 2 i = fs ! i"
proof -
  assume a: "list_all is_frame fs" "i < length fs"
  have "stereo (concat fs) 2 i = frame_at (concat fs @ []) i"
    using take_add [of 2 2 "drop (4 * i) (concat fs)"]
    by (simp add: stereo_def frame_at_def Let_def mult.commute add.commute)
  with a show ?thesis using frame_at_concat by metis
qed

lemma stereo_frames_concat: "list_all is_frame fs \<Longrightarrow> stereo_frames (concat fs) 2 = fs"
  by (rule nth_equalityI) (auto simp: stereo_frames_def length_concat_frames stereo_concat)

lemma content_frames: "queue_inv q \<Longrightarrow> list_all is_frame (content q)"
proof -
  assume q: "queue_inv q"
  have "length (frame_at (samples q) (k mod AIRTIZEN_AUDIO_FRAMES)) = 4" for k
    using q mod_frames_less [of k] unfolding frame_at_def queue_inv_def length_take length_drop by linarith
  then show ?thesis by (auto simp: content_def list_all_iff is_frame_def)
qed

lemma queue_offer_spec:
  assumes "stereo_inv q" "list_all is_frame fs"
  shows "stereo_inv (snd (queue_offer q fs))"
    and "content (snd (queue_offer q fs)) = content q @ take (AIRTIZEN_AUDIO_FRAMES - length (content q)) fs"
    and "fst (queue_offer q fs) = min (length fs) (AIRTIZEN_AUDIO_FRAMES - length (content q))"
proof -
  have q: "queue_inv q" "open_q q" "channels q = 2" using assms(1) by (auto simp: stereo_inv_def)
  have u: "unat (channels q) = 2" using q(3) by simp
  have l: "length (concat fs) = 4 * length fs" using assms(2) by (rule length_concat_frames)
  obtain q' where w: "airtizen_audio_queue_write q (Some (concat fs)) =
      Some (int (min (length fs) (AIRTIZEN_AUDIO_FRAMES - count q) * 2 * 2), q')"
    and i: "queue_inv q'" "open_q q'" "channels q' = channels q"
    and c: "content q' = content q @ take (min (length fs) (AIRTIZEN_AUDIO_FRAMES - count q)) fs"
    using write_open [OF q(1,2), of "concat fs"] u l stereo_frames_concat [OF assms(2)] by auto
  show "stereo_inv (snd (queue_offer q fs))" using w i q(3) by (simp add: queue_offer_def stereo_inv_def)
  show "content (snd (queue_offer q fs)) = content q @ take (AIRTIZEN_AUDIO_FRAMES - length (content q)) fs"
    using w c by (simp add: queue_offer_def min_def)
  show "fst (queue_offer q fs) = min (length fs) (AIRTIZEN_AUDIO_FRAMES - length (content q))"
    using w by (simp add: queue_offer_def)
qed

lemma queue_draw_spec:
  assumes "stereo_inv q"
  shows "stereo_inv (snd (queue_draw q n))"
    and "content (snd (queue_draw q n)) = drop n (content q)"
    and "fst (queue_draw q n) = take n (content q)"
proof -
  have q: "queue_inv q" "open_q q" "channels q = 2" using assms(1) by (auto simp: stereo_inv_def)
  let ?k = "min n (count q)"
  obtain q' where r: "airtizen_audio_queue_render q (4 * n) =
      Some (concat (take ?k (content q)) @ replicate (4 * n - 4 * ?k) 0, q')"
    and i: "queue_inv q'" "open_q q'" "channels q' = channels q"
    and c: "content q' = drop ?k (content q)"
    and rf: "rendered_frames q' = rendered_frames q + of_nat ?k"
    using render_open [OF q(1,2), of "4 * n"] by auto
  have "?k \<le> 16384" using q(1) by (auto simp: queue_inv_def AIRTIZEN_AUDIO_FRAMES_def)
  then have "?k < 2 ^ LENGTH(64)" by (rule le_less_trans) simp
  then have u: "unat (rendered_frames q' - rendered_frames q) = ?k"
    using rf by (simp add: unat_of_nat take_bit_nat_eq_self)
  have fr: "list_all is_frame (take ?k (content q))"
    using content_frames [OF q(1)] by (auto simp: list_all_iff dest: in_set_takeD)
  show "stereo_inv (snd (queue_draw q n))" using r i q(3) by (simp add: queue_draw_def stereo_inv_def)
  show "content (snd (queue_draw q n)) = drop n (content q)"
    using r c by (simp add: queue_draw_def min_def)
  have "fst (queue_draw q n) =
      map (frame_at (concat (take ?k (content q)) @ replicate (4 * n - 4 * ?k) 0)) [0..<?k]"
    using r u by (simp add: queue_draw_def)
  also have "\<dots> = take ?k (content q)"
    by (rule nth_equalityI) (auto simp: frame_at_concat [OF fr])
  finally show "fst (queue_draw q n) = take n (content q)" by (simp add: min_def)
qed

interpretation pcm: bounded_fifo stereo_inv is_frame content AIRTIZEN_AUDIO_FRAMES queue_offer queue_draw
proof
  show "length (content q) \<le> AIRTIZEN_AUDIO_FRAMES" if "stereo_inv q" for q
    using that by (simp add: stereo_inv_def queue_inv_def)
qed (simp_all add: queue_offer_spec queue_draw_spec)

section \<open>Memory safety and the invariant of every operation\<close>

lemma write_total:
  assumes "queue_inv q"
  shows "\<exists>r q'. airtizen_audio_queue_write q pcm = Some (r, q') \<and> queue_inv q'"
proof (cases pcm)
  case None then show ?thesis using assms by (simp add: airtizen_audio_queue_write_def)
next
  case (Some inp)
  show ?thesis
  proof (cases "open_q q \<and> length inp mod unat (channels q * 2) = 0")
    case True
    then have "length inp mod (unat (channels q) * 2) = 0"
      using assms unat_channels2 by (auto simp: queue_inv_def)
    then show ?thesis using write_open [OF assms, of inp] True Some by auto
  next
    case False
    then show ?thesis using assms Some by (auto simp: airtizen_audio_queue_write_def)
  qed
qed

lemma render_total:
  assumes "queue_inv q"
  shows "\<exists>out q'. airtizen_audio_queue_render q bytes = Some (out, q') \<and> queue_inv q' \<and> length out = bytes"
proof (cases "open_q q")
  case True
  let ?k = "min (bytes div 4) (count q)"
  have "list_all is_frame (take ?k (content q))"
    using content_frames [OF assms] by (auto simp: list_all_iff dest: in_set_takeD)
  then have "length (concat (take ?k (content q))) = 4 * ?k"
    by (simp add: length_concat_frames)
  moreover have "4 * ?k \<le> bytes" by auto
  ultimately show ?thesis using render_open [OF assms True, of bytes] by auto
next
  case False
  then show ?thesis using assms by (simp add: airtizen_audio_queue_render_def)
qed

datatype queue_op = QOpen u32 | QClose | QWrite "byte list option" | QRender nat

fun queue_step :: "queue_op \<Rightarrow> airtizen_audio_queue \<Rightarrow> airtizen_audio_queue" where
  "queue_step (QOpen ch) q = airtizen_audio_queue_open q ch"
| "queue_step QClose q = airtizen_audio_queue_close q"
| "queue_step (QWrite pcm) q = snd (the (airtizen_audio_queue_write q pcm))"
| "queue_step (QRender bytes) q = snd (the (airtizen_audio_queue_render q bytes))"

interpretation queue: guarded_component airtizen_audio_queue_init queue_step queue_inv
proof
  show "queue_inv airtizen_audio_queue_init"
    by (simp add: queue_inv_def airtizen_audio_queue_init_def)
  show "queue_inv (queue_step op q)" if "queue_inv q" for op q
  proof (cases op)
    case (QWrite pcm) then show ?thesis using write_total [OF that, of pcm] by auto
  next
    case (QRender bytes) then show ?thesis using render_total [OF that, of bytes] by auto
  qed (use that in \<open>auto simp: queue_inv_def airtizen_audio_queue_open_def airtizen_audio_queue_close_def\<close>)
qed

section \<open>Properties\<close>

text \<open>
  After any history of opens, closes, writes and renders on the audio queue, every further
  write and every further render is memory safe (no access outside the ring or the caller's
  buffers), the invariant holds again, and a render fills exactly the requested bytes.
\<close>

theorem audio_queue_memory_safe:
  "(\<exists>r q'. airtizen_audio_queue_write (fold queue_step ops airtizen_audio_queue_init) pcm = Some (r, q')
      \<and> queue_inv q') \<and>
   (\<exists>out q'. airtizen_audio_queue_render (fold queue_step ops airtizen_audio_queue_init) bytes = Some (out, q')
      \<and> queue_inv q' \<and> length out = bytes)"
  using write_total [OF queue.run_inv] render_total [OF queue.run_inv] by blast


lemma stereo_inv_open: "stereo_inv (airtizen_audio_queue_open airtizen_audio_queue_init 2)"
  by (simp add: stereo_inv_def queue_inv_def airtizen_audio_queue_open_def airtizen_audio_queue_init_def)


end
