(* ===== verification/H264.thy ===== *)
theory H264
  imports Airtizen_Prelude
begin

text \<open>
  The H.264 boundary of the mirroring path (\<open>native/src/airtizen_h264.c\<close>): conversion of an
  AVC decoder configuration record to Annex-B parameter sets, and in-place conversion of
  length-prefixed access units to Annex-B. Both read data from the network. The theory shows
  that neither ever leaves its buffers, and what each computes: the Annex-B form of exactly
  the units the input encodes, or a refusal that leaves the input untouched.
\<close>

section \<open>Operations\<close>

text \<open>The inner loop of \<open>airtizen_h264_config\<close> over one group of \<open>n\<close> parameter sets.
  \<open>Inl\<close> is \<open>return 0\<close> with what is already in the output, \<open>Inr\<close> the new \<open>position\<close> and output;
  \<open>used\<close> is the length of the output so far.\<close>

fun config_group ::
  "byte list \<Rightarrow> nat \<Rightarrow> byte \<Rightarrow> nat \<Rightarrow> nat \<Rightarrow> byte list \<Rightarrow> (byte list + nat \<times> byte list) option" where
  "config_group data capacity wanted 0 position out = Some (Inr (position, out))"
| "config_group data capacity wanted (Suc n) position out =
     (if position + 2 > length data then Some (Inl out)
      else do {
        hi \<leftarrow> rd data position;
        lo \<leftarrow> rd data (position + 1);
        let len = be16 hi lo;
        let position = position + 2;
        if len = 0 \<or> len > length data - position \<or> length out + 4 + len > capacity then Some (Inl out)
        else do {
          b \<leftarrow> rd data position;
          if b AND 31 \<noteq> wanted then Some (Inl out)
          else do {
            out1 \<leftarrow> put capacity out [0, 0, 0, 1];
            nal \<leftarrow> rdn data position len;
            out2 \<leftarrow> put capacity out1 nal;
            config_group data capacity wanted n (position + len) out2
          }
        }
      })"

text \<open>The result is the returned length and the bytes written to \<open>out\<close>; \<open>capacity\<close> is \<open>None\<close>
  for a null \<open>out\<close>.\<close>

definition airtizen_h264_config :: "byte list option \<Rightarrow> nat option \<Rightarrow> (nat \<times> byte list) option" where
  "airtizen_h264_config data_ptr out_cap =
     (case (data_ptr, out_cap) of
        (Some data, Some capacity) \<Rightarrow>
          if length data < 7 then Some (0, [])
          else do {
            b0 \<leftarrow> rd data 0;
            if b0 \<noteq> 1 then Some (0, []) else do {
            b4 \<leftarrow> rd data 4;
            if b4 AND 3 \<noteq> 3 then Some (0, []) else do {
            b5 \<leftarrow> rd data 5;
            let cnt = unat (b5 AND 31);
            if cnt = 0 then Some (0, []) else do {
            g0 \<leftarrow> config_group data capacity 7 cnt 6 [];
            (case g0 of
               Inl out \<Rightarrow> Some (0, out)
             | Inr (position, out) \<Rightarrow>
                 if position \<ge> length data then Some (0, out)
                 else do {
                   c \<leftarrow> rd data position;
                   if c = 0 then Some (0, out)
                   else do {
                     g1 \<leftarrow> config_group data capacity 8 (unat c) (position + 1) out;
                     (case g1 of Inl out \<Rightarrow> Some (0, out) | Inr (_, out) \<Rightarrow> Some (length out, out))
                   }
                 })
            }}}}
      | _ \<Rightarrow> Some (0, []))"

text \<open>The four length bytes at \<open>position\<close>.\<close>

definition nal_length :: "byte list \<Rightarrow> nat \<Rightarrow> u32 option" where
  "nal_length data position = do {
     a \<leftarrow> rd data position; b \<leftarrow> rd data (position + 1);
     c \<leftarrow> rd data (position + 2); d \<leftarrow> rd data (position + 3);
     Some (be32 a b c d)
   }"

text \<open>The validation loop. The step \<open>4 + length\<close> is 32-bit arithmetic.\<close>

partial_function (option) frame_check :: "byte list \<Rightarrow> nat \<Rightarrow> bool option" where
  "frame_check data position =
     (if position < length data then
        if length data - position < 4 then Some False
        else do {
          len \<leftarrow> nal_length data position;
          if len = 0 \<or> unat len > length data - position - 4 then Some False
          else frame_check data (position + unat (4 + len))
        }
      else Some True)"

text \<open>The rewriting loop, which reads each length from the buffer it is rewriting.\<close>

partial_function (option) frame_rewrite :: "byte list \<Rightarrow> nat \<Rightarrow> byte list option" where
  "frame_rewrite data position =
     (if position < length data then do {
        len \<leftarrow> nal_length data position;
        data1 \<leftarrow> blit data position [0, 0, 0, 1];
        frame_rewrite data1 (position + unat (4 + len))
      }
      else Some data)"

definition airtizen_h264_frame :: "byte list option \<Rightarrow> (int \<times> byte list) option" where
  "airtizen_h264_frame data_ptr =
     (case data_ptr of
        None \<Rightarrow> Some (-1, [])
      | Some data \<Rightarrow>
          if length data < 5 then Some (-1, data)
          else do {
            ok \<leftarrow> frame_check data 0;
            if \<not> ok then Some (-1, data)
            else do { data1 \<leftarrow> frame_rewrite data 0; Some (0, data1) }
          })"

section \<open>Specification\<close>

text \<open>Annex-B: every unit after a four-byte start code. AVCC: every unit after its length.\<close>

definition annexb :: "byte list list \<Rightarrow> byte list" where
  "annexb nals = concat (map (\<lambda>n. [0, 0, 0, 1] @ n) nals)"

definition avcc :: "byte list list \<Rightarrow> byte list" where
  "avcc nals = concat (map (\<lambda>n. enc32 (length n) @ n) nals)"

definition lens16 :: "byte list list \<Rightarrow> byte list" where
  "lens16 nals = concat (map (\<lambda>n. enc16 (length n) @ n) nals)"

definition nal_of_type :: "byte \<Rightarrow> byte list \<Rightarrow> bool" where
  "nal_of_type t n \<longleftrightarrow> n \<noteq> [] \<and> length n < 65536 \<and> hd n AND 31 = t"

text \<open>The AVC decoder configuration record: version, profile bytes \<open>p1 p2 p3\<close>, a byte whose two
  low bits are the length size minus one, the sequence parameter sets behind a byte whose five
  low bits count them, the picture parameter sets behind their count, and trailing bytes.\<close>

definition avc_record :: "byte \<Rightarrow> byte \<Rightarrow> byte \<Rightarrow> byte list list \<Rightarrow> byte list list \<Rightarrow> byte list \<Rightarrow> byte list" where
  "avc_record p1 p2 p3 sps pps tail =
     [1, p1, p2, p3, 255, of_nat (224 + length sps)] @ lens16 sps @ of_nat (length pps) # lens16 pps @ tail"

lemma annexb_simps [simp]:
  "annexb [] = []" "annexb (n # ns) = [0, 0, 0, 1] @ n @ annexb ns" "annexb (ns @ ms) = annexb ns @ annexb ms"
  by (simp_all add: annexb_def)

lemma avcc_simps [simp]:
  "avcc [] = []" "avcc (n # ns) = enc32 (length n) @ n @ avcc ns"
  by (simp_all add: avcc_def)

lemma length_annexb_avcc: "length (annexb ns) = length (avcc ns)"
  by (induction ns) simp_all

section \<open>The configuration record\<close>

lemma config_group_step:
  assumes "position + 2 \<le> length data"
  defines "len \<equiv> be16 (data ! position) (data ! Suc position)"
  defines "nal \<equiv> take len (drop (position + 2) data)"
  shows "config_group data capacity wanted (Suc n) position out =
    (if len = 0 \<or> len > length data - (position + 2) \<or> length out + 4 + len > capacity \<or> hd nal AND 31 \<noteq> wanted
     then Some (Inl out)
     else config_group data capacity wanted n (position + 2 + len) (out @ [0, 0, 0, 1] @ nal))"
proof (cases "len = 0 \<or> len > length data - (position + 2) \<or> length out + 4 + len > capacity")
  case True
  then show ?thesis using assms(1) by (auto simp: Let_def rd_def len_def)
next
  case False
  then have "rd data (position + 2) = Some (hd nal)" "rdn data (position + 2) len = Some nal" "length nal = len"
    using assms(1) by (auto simp: rd_def rdn_def nal_def hd_drop_conv_nth)
  with False assms(1) show ?thesis
    by (simp add: Let_def rd_def [of data position] rd_def [of data "Suc position"] len_def [symmetric] put_def)
qed

lemma config_group_safe:
  "\<exists>r. config_group data capacity wanted n position out = Some r"
proof (induction n arbitrary: position out)
  case (Suc n)
  then show ?case
    by (cases "position + 2 \<le> length data") (simp_all only: config_group_step if_split, auto)
qed simp

text \<open>Every successful group appends the Annex-B form of well-formed units of the wanted type,
  and never more than the capacity.\<close>

lemma config_group_sound:
  assumes "config_group data capacity wanted n position out = Some (Inr (position', out'))"
    "length out \<le> capacity"
  shows "\<exists>nals. out' = out @ annexb nals \<and> length nals = n \<and> list_all (nal_of_type wanted) nals
     \<and> length out' \<le> capacity"
  using assms
proof (induction n arbitrary: position out)
  case 0
  then show ?case by (auto intro: exI [of _ "[]"])
next
  case (Suc n)
  from Suc.prems(1) have p: "position + 2 \<le> length data" by (simp split: if_splits)
  define len where "len = be16 (data ! position) (data ! Suc position)"
  define nal where "nal = take len (drop (position + 2) data)"
  from Suc.prems(1) have g: "len \<noteq> 0" "len \<le> length data - (position + 2)" "length out + 4 + len \<le> capacity"
      "hd nal AND 31 = wanted"
    and rest: "config_group data capacity wanted n (position + 2 + len) (out @ [0, 0, 0, 1] @ nal) = Some (Inr (position', out'))"
    unfolding config_group_step [OF p] len_def nal_def by (auto split: if_splits)
  have ln: "length nal = len" using g by (simp add: nal_def)
  then have "length (out @ [0, 0, 0, 1] @ nal) \<le> capacity" using g by simp
  from Suc.IH [OF rest this] obtain nals where
    n: "out' = (out @ [0, 0, 0, 1] @ nal) @ annexb nals" "length nals = n" "list_all (nal_of_type wanted) nals"
      "length out' \<le> capacity" by blast
  have "len < 65536"
    using unat_byte_lt [of "data ! position"] unat_byte_lt [of "data ! Suc position"]
    unfolding len_def be16_eq by linarith
  then have "nal_of_type wanted nal" using ln g by (auto simp: nal_of_type_def)
  with n show ?case by (intro exI [of _ "nal # nals"]) simp
qed

text \<open>A group that encodes well-formed units and fits is accepted.\<close>

lemma config_group_complete:
  assumes "data = pre @ lens16 nals @ post" "list_all (nal_of_type wanted) nals"
    "length out + length (annexb nals) \<le> capacity"
  shows "config_group data capacity wanted (length nals) (length pre) out =
    Some (Inr (length pre + length (lens16 nals), out @ annexb nals))"
  using assms
proof (induction nals arbitrary: pre out)
  case Nil
  then show ?case by (simp add: lens16_def)
next
  case (Cons n ns)
  have n: "n \<noteq> []" "length n < 65536" "hd n AND 31 = wanted" using Cons.prems(2) by (auto simp: nal_of_type_def)
  have d: "data = pre @ enc16 (length n) @ n @ lens16 ns @ post" using Cons.prems(1) by (simp add: lens16_def)
  have r: "rd data (length pre) = Some (of_nat (length n div 256))"
     "rd data (length pre + 1) = Some (of_nat (length n mod 256))"
     "rd data (length pre + 2) = Some (hd n)" "rdn data (length pre + 2) (length n) = Some n"
    using n(1) by (auto simp: d rd_def rdn_def enc16_def nth_append hd_conv_nth)
  have ih: "config_group data capacity wanted (length ns) (length (pre @ enc16 (length n) @ n)) (out @ [0, 0, 0, 1] @ n) =
    Some (Inr (length (pre @ enc16 (length n) @ n) + length (lens16 ns), (out @ [0, 0, 0, 1] @ n) @ annexb ns))"
    using Cons.prems by (intro Cons.IH) (simp_all add: d lens16_def)
  have ih': "config_group data capacity wanted (length ns) (length pre + 2 + length n) (out @ 0 # 0 # 0 # 1 # n) =
    Some (Inr (length pre + 2 + length n + length (lens16 ns), out @ 0 # 0 # 0 # 1 # n @ annexb ns))"
    using ih by (simp add: add_ac)
  have "length data - (length pre + 2) \<ge> length n" "length pre + 2 \<le> length data" by (simp_all add: d)
  then show ?case
    using n Cons.prems(3) r ih' by (simp add: Let_def be16_enc16 put_def lens16_def)
qed

lemma byte_count_and_31:
  assumes "n < 32"
  shows "unat ((of_nat (224 + n) :: byte) AND 31) = n"
proof -
  have m: "(31 :: byte) = mask 5" by (simp add: mask_eq_exp_minus_1)
  have "unat (of_nat (224 + n) :: byte) = 224 + n" using assms by (intro unat_of_nat_byte) simp
  then have "unat (take_bit 5 (of_nat (224 + n) :: byte)) = (224 + n) mod 32"
    unfolding unsigned_take_bit_eq by (simp only: take_bit_eq_mod) simp
  also have "\<dots> = n" using assms by (simp add: mod_add_left_eq [symmetric, of 224])
  finally show ?thesis by (simp add: m take_bit_eq_mask)
qed

section \<open>Access units\<close>

lemma nal_length_safe: "position + 4 \<le> length data \<Longrightarrow> \<exists>l. nal_length data position = Some l"
  by (simp add: nal_length_def rd_def)

lemma nal_length_at:
  assumes "data = pre @ enc32 n @ post" "n < 4294967296"
  shows "nal_length data (length pre) = Some (of_nat n)"
proof -
  have "be32 (of_nat (n div 16777216)) (of_nat (n div 65536 mod 256)) (of_nat (n div 256 mod 256)) (of_nat (n mod 256))
      = (of_nat n :: u32)"
    using be32_enc32 [OF assms(2)] unat_of_nat_u32 [OF assms(2)] by (metis word_unat_eq_iff)
  then show ?thesis
    by (simp add: assms(1) nal_length_def rd_def enc32_def nth_append)
qed

lemma step_nowrap: "n + 4 < 4294967296 \<Longrightarrow> unat (4 + of_nat n :: u32) = n + 4"
proof -
  assume "n + 4 < 4294967296"
  then have "unat (of_nat (n + 4) :: u32) = n + 4" by (rule unat_of_nat_u32)
  then show ?thesis by (simp add: add.commute)
qed

text \<open>The validation loop returns on every buffer below 4 GiB and accepts exactly the
  concatenations of non-empty length-prefixed units.\<close>

lemma frame_check_total:
  assumes "length data < 4294967296"
  shows "\<exists>ok. frame_check data position = Some ok \<and>
    (ok \<longrightarrow> position < length data \<longrightarrow>
      (\<exists>nals. drop position data = avcc nals \<and> [] \<notin> set nals))"
proof (induction "length data - position" arbitrary: position rule: less_induct)
  case less
  show ?case
  proof (cases "position < length data \<and> 4 \<le> length data - position")
    case False
    then show ?thesis by (subst frame_check.simps) auto
  next
    case True
    then obtain len where l: "nal_length data position = Some len"
      using nal_length_safe [of position data] by fastforce
    show ?thesis
    proof (cases "len = 0 \<or> unat len > length data - position - 4")
      case bad: True
      with True l show ?thesis by (subst frame_check.simps) auto
    next
      case good: False
      let ?n = "take (unat len) (drop (position + 4) data)"
      have ln: "length ?n = unat len" "?n \<noteq> []" using good True
        by (auto simp: unat_gt_0 word_less_nat_alt)
      have step: "unat (4 + len) = unat len + 4"
        using step_nowrap [of "unat len"] good True assms by fastforce
      let ?p = "position + unat (4 + len)"
      have dec: "length data - ?p < length data - position" using True step by linarith
      obtain ok where ok: "frame_check data ?p = Some ok"
        and sp: "ok \<longrightarrow> ?p < length data \<longrightarrow> (\<exists>nals. drop ?p data = avcc nals \<and> [] \<notin> set nals)"
        using less [OF dec] by blast
      have run: "frame_check data position = Some ok"
        using True l good ok by (subst frame_check.simps) simp
      have "\<exists>nals. drop position data = avcc nals \<and> [] \<notin> set nals" if isok: ok
      proof -
        have e: "enc32 (unat len) = take 4 (drop position data)"
          using l True enc32_be32 by (auto simp: nal_length_def rd_def take_Suc_conv_app_nth numeral_eq_Suc split: if_splits)
        have "drop (position + 4) data = ?n @ drop ?p data"
          unfolding step using append_take_drop_id [of "unat len" "drop (position + 4) data"]
          by (simp add: add.commute add.left_commute)
        then have sp': "drop position data = enc32 (length ?n) @ ?n @ drop ?p data"
          unfolding ln e using append_take_drop_id [of 4 "drop position data"]
          by (simp add: add.commute)
        show ?thesis
        proof (cases "?p < length data")
          case True
          then obtain nals where "drop ?p data = avcc nals" "[] \<notin> set nals" using sp isok by blast
          then show ?thesis using sp' ln by (intro exI [of _ "?n # nals"]) auto
        next
          case False
          then show ?thesis using sp' ln by (intro exI [of _ "[?n]"]) auto
        qed
      qed
      with run show ?thesis by blast
    qed
  qed
qed

lemma frame_check_complete:
  assumes "data = pre @ avcc nals" "[] \<notin> set nals" "length data < 4294967296"
  shows "frame_check data (length pre) = Some True"
  using assms
proof (induction nals arbitrary: pre)
  case Nil
  then show ?case by (subst frame_check.simps) simp
next
  case (Cons n ns)
  have d: "data = pre @ enc32 (length n) @ n @ avcc ns" using Cons.prems(1) by simp
  have b: "length n + 4 < 4294967296" using Cons.prems(3) d by simp
  have l: "nal_length data (length pre) = Some (of_nat (length n))"
    using b by (intro nal_length_at [OF d]) simp
  have u: "unat (of_nat (length n) :: u32) = length n" using b by (intro unat_of_nat_u32) simp
  then have nz: "(of_nat (length n) :: u32) \<noteq> 0" using Cons.prems(2) by (metis length_0_conv list.set_intros(1) unat_0)
  have st: "length pre + unat (4 + of_nat (length n) :: u32) = length (pre @ enc32 (length n) @ n)"
    by (simp only: step_nowrap [OF b]) simp
  have "frame_check data (length pre + unat (4 + of_nat (length n) :: u32)) = Some True"
    unfolding st using Cons.prems d by (intro Cons.IH) simp_all
  then show ?case using l u nz d by (subst frame_check.simps) simp
qed

lemma frame_rewrite_spec:
  assumes "data = pre @ avcc nals" "[] \<notin> set nals" "length data < 4294967296"
  shows "frame_rewrite data (length pre) = Some (pre @ annexb nals)"
  using assms
proof (induction nals arbitrary: pre data)
  case Nil
  then show ?case by (subst frame_rewrite.simps) simp
next
  case (Cons n ns)
  have d: "data = pre @ enc32 (length n) @ n @ avcc ns" using Cons.prems(1) by simp
  have b: "length n + 4 < 4294967296" using Cons.prems(3) d by simp
  have l: "nal_length data (length pre) = Some (of_nat (length n))"
    using b by (intro nal_length_at [OF d]) simp
  let ?pre = "pre @ [0, 0, 0, 1] @ n"
  have w: "blit data (length pre) [0, 0, 0, 1] = Some (?pre @ avcc ns)"
    by (simp add: d blit_def)
  have st: "length pre + unat (4 + of_nat (length n) :: u32) = length ?pre"
    by (simp only: step_nowrap [OF b]) simp
  have "frame_rewrite (?pre @ avcc ns) (length pre + unat (4 + of_nat (length n) :: u32)) = Some (?pre @ annexb ns)"
    unfolding st using Cons.prems d by (intro Cons.IH) simp_all
  then show ?case using l w d by (subst frame_rewrite.simps) simp
qed

section \<open>Both converters\<close>

lemma h264_config_total: "\<exists>n out. airtizen_h264_config d cap = Some (n, out)"
proof -
  have g: "config_group data capacity wanted n position out \<noteq> None" for data capacity wanted n position out
    using config_group_safe [of data capacity wanted n position out] by auto
  show ?thesis unfolding airtizen_h264_config_def
    by (auto simp: rd_def Let_def g split: option.split sum.split bind_splits)
qed

text \<open>A configuration record yields exactly its parameter sets.\<close>

lemma config_exact:
  assumes "list_all (nal_of_type 7) sps" "list_all (nal_of_type 8) pps"
    "sps \<noteq> []" "length sps < 32" "pps \<noteq> []" "length pps < 256" "length (annexb (sps @ pps)) \<le> capacity"
  shows "airtizen_h264_config (Some (avc_record p1 p2 p3 sps pps tail)) (Some capacity) =
    Some (length (annexb (sps @ pps)), annexb (sps @ pps))"
proof -
  let ?hdr = "[1, p1, p2, p3, 255, of_nat (224 + length sps)] :: byte list"
  let ?d = "avc_record p1 p2 p3 sps pps tail"
  let ?pos = "6 + length (lens16 sps)"
  have d0: "?d = ?hdr @ lens16 sps @ of_nat (length pps) # lens16 pps @ tail"
    and d1: "?d = (?hdr @ lens16 sps @ [of_nat (length pps)]) @ lens16 pps @ tail"
    by (simp_all add: avc_record_def)
  have l6: "length ?hdr = 6" and l7: "length (?hdr @ lens16 sps @ [of_nat (length pps) :: byte]) = ?pos + 1"
    by simp_all
  have c: "unat ((of_nat (224 + length sps) :: byte) AND 31) = length sps"
    using assms(4) by (rule byte_count_and_31)
  have g0: "config_group ?d capacity 7 (length sps) 6 [] = Some (Inr (?pos, annexb sps))"
    using config_group_complete [OF d0 assms(1), of "[]" capacity] assms(7) unfolding l6 by simp
  have g1: "config_group ?d capacity 8 (length pps) (?pos + 1) (annexb sps) =
      Some (Inr (?pos + 1 + length (lens16 pps), annexb sps @ annexb pps))"
    using config_group_complete [OF d1 assms(2), of "annexb sps" capacity] assms(7) unfolding l7 by simp
  have u: "unat (of_nat (length pps) :: byte) = length pps" using assms(6) by (rule unat_of_nat_byte)
  have r: "rd ?d 0 = Some 1" "rd ?d 4 = Some 255" "rd ?d 5 = Some (of_nat (224 + length sps))"
    "rd ?d ?pos = Some (of_nat (length pps))" "7 \<le> length ?d" "?pos < length ?d"
    by (simp_all add: avc_record_def rd_def nth_append)
  have nz: "length sps \<noteq> 0" "(of_nat (length pps) :: byte) \<noteq> 0" using assms(3,5) u by (auto simp: unat_eq_0 [symmetric])
  show ?thesis
    unfolding airtizen_h264_config_def
    using r c nz g0 g1 u by (simp add: Let_def)
qed

text \<open>A frame is converted to its Annex-B form.\<close>

lemma h264_frame_total: "length data < 2 ^ 32 \<Longrightarrow> \<exists>rc out. airtizen_h264_frame (Some data) = Some (rc, out)"
proof -
  assume l: "length data < 2 ^ 32"
  then obtain ok where ok: "frame_check data 0 = Some ok" "ok \<longrightarrow> 0 < length data \<longrightarrow> (\<exists>nals. data = avcc nals \<and> [] \<notin> set nals)"
    using frame_check_total [of data 0] by auto
  then show ?thesis using frame_rewrite_spec [of data "[]"] l by (cases ok; cases "data = []") (auto simp: airtizen_h264_frame_def)
qed

lemma h264_frame_avcc:
  assumes "nals \<noteq> []" "[] \<notin> set nals" "length (avcc nals) < 2 ^ 32"
  shows "airtizen_h264_frame (Some (avcc nals)) = Some (0, annexb nals)"
proof -
  obtain m ms where "nals = m # ms" "m \<noteq> []" using assms(1,2) by (cases nals) auto
  then have "5 \<le> length (avcc nals)" by (cases m) auto
  then show ?thesis
    using frame_check_complete [of "avcc nals" "[]", OF _ assms(2)] frame_rewrite_spec [of "avcc nals" "[]", OF _ assms(2)] assms(3)
    by (simp add: airtizen_h264_frame_def)
qed

section \<open>Properties\<close>

text \<open>
  The AVC configuration converter is memory safe on every input, null
  pointers included, and whenever it reports a length that length is within the output
  capacity and the output is the Annex-B form of at least one sequence parameter set followed
  by at least one picture parameter set, each non-empty and of its unit type.
\<close>

theorem h264_config_sound:
  "\<exists>n out. airtizen_h264_config data_ptr out_cap = Some (n, out) \<and>
     (n \<noteq> 0 \<longrightarrow> (\<exists>capacity sps pps. out_cap = Some capacity \<and> out = annexb (sps @ pps) \<and> n = length out \<and>
        n \<le> capacity \<and> sps \<noteq> [] \<and> pps \<noteq> [] \<and> list_all (nal_of_type 7) sps \<and> list_all (nal_of_type 8) pps))"
proof (cases "\<exists>data capacity. data_ptr = Some data \<and> out_cap = Some capacity \<and> 7 \<le> length data")
  case False
  then show ?thesis
    by (cases data_ptr; cases out_cap) (auto simp: airtizen_h264_config_def)
next
  case True
  then obtain data capacity where p: "data_ptr = Some data" "out_cap = Some capacity" "7 \<le> length data" by blast
  then have r: "rd data 0 = Some (data ! 0)" "rd data 4 = Some (data ! 4)" "rd data 5 = Some (data ! 5)"
    by (auto simp: rd_def)
  let ?cnt = "unat (data ! 5 AND 31)"
  obtain g0 where g0: "config_group data capacity 7 ?cnt 6 [] = Some g0" using config_group_safe by blast
  show ?thesis
  proof (cases g0)
    case (Inl out)
    then show ?thesis using p r g0 by (simp add: airtizen_h264_config_def Let_def)
  next
    case (Inr pr)
    obtain position out where pr: "pr = (position, out)" by (cases pr)
    obtain g1 where g1: "config_group data capacity 8 (unat (data ! position)) (position + 1) out = Some g1"
      using config_group_safe by blast
    note g0' = g0 [unfolded Inr pr]
    from config_group_sound [OF this] obtain sps where
      s: "out = annexb sps" "length sps = ?cnt" "list_all (nal_of_type 7) sps" "length out \<le> capacity" by auto
    show ?thesis
    proof (cases g1)
      case (Inl out')
      then show ?thesis using p r g0' g1
        by (simp add: airtizen_h264_config_def Let_def rd_def [of data position])
    next
      case g1r: (Inr pr')
      obtain position' out' where pr': "pr' = (position', out')" by (cases pr')
      from config_group_sound [OF g1 [unfolded g1r pr'] s(4)] obtain pps where
        t: "out' = out @ annexb pps" "length pps = unat (data ! position)" "list_all (nal_of_type 8) pps"
          "length out' \<le> capacity" by blast
      have nz: "sps \<noteq> []" if "?cnt \<noteq> 0" using s(2) that by auto
      have nz': "pps \<noteq> []" if "data ! position \<noteq> 0" using t(2) that by (auto simp: unat_eq_0)
      show ?thesis using p r g0' g1 g1r pr' s t nz nz'
        by (auto simp: airtizen_h264_config_def Let_def rd_def [of data position])
    qed
  qed
qed

text \<open>The configuration of a 4x4 stream with one parameter set of each type, used below.\<close>

theorem h264_config_sound_witness:
  "\<exists>n out. airtizen_h264_config (Some (avc_record 66 0 30 [[103, 66, 0]] [[104, 206]] [])) (Some 64) = Some (n, out) \<and>
     n = 13 \<and> (\<exists>sps pps. out = annexb (sps @ pps) \<and> sps \<noteq> [] \<and> pps \<noteq> [])"
proof -
  have "airtizen_h264_config (Some (avc_record 66 0 30 [[103, 66, 0]] [[104, 206]] [])) (Some 64) =
      Some (13, [0, 0, 0, 1, 103, 66, 0, 0, 0, 0, 1, 104, 206])"
    by code_simp
  with h264_config_sound [of "Some (avc_record 66 0 30 [[103, 66, 0]] [[104, 206]] [])" "Some 64"]
  show ?thesis by auto
qed

text \<open>
  C18. Every AVC decoder configuration record with 1 to 31 sequence and 1 to
  255 picture parameter sets that fits the output is converted to the Annex-B form of exactly
  those parameter sets, in order, whatever bytes follow the record.
\<close>

theorem h264_config_roundtrip:
  assumes "list_all (nal_of_type 7) sps" "list_all (nal_of_type 8) pps"
    "sps \<noteq> []" "length sps < 32" "pps \<noteq> []" "length pps < 256" "length (annexb (sps @ pps)) \<le> capacity"
  shows "airtizen_h264_config (Some (avc_record p1 p2 p3 sps pps tail)) (Some capacity) =
    Some (length (annexb (sps @ pps)), annexb (sps @ pps))"
  using assms by (rule config_exact)

theorem h264_config_roundtrip_witness:
  "airtizen_h264_config (Some (avc_record 66 0 30 [[103, 66]] [[104, 206]] [7])) (Some 12) =
    Some (12, [0, 0, 0, 1, 103, 66, 0, 0, 0, 1, 104, 206])"
  using h264_config_roundtrip [of "[[103, 66]]" "[[104, 206]]" 12 66 0 30 "[7]"]
  by (simp add: nal_of_type_def)

text \<open>
  On every access unit below 4 GiB the in-place converter is memory safe and
  returns: if the bytes are a non-empty sequence of non-empty length-prefixed units it
  succeeds with exactly their Annex-B form, and otherwise it fails and has modified nothing.
\<close>

theorem h264_frame_exact:
  assumes "length data < 2 ^ 32"
  shows "(\<exists>nals. nals \<noteq> [] \<and> [] \<notin> set nals \<and> data = avcc nals \<and>
            airtizen_h264_frame (Some data) = Some (0, annexb nals)) \<or>
         (\<not> (\<exists>nals. nals \<noteq> [] \<and> [] \<notin> set nals \<and> data = avcc nals) \<and>
            airtizen_h264_frame (Some data) = Some (-1, data))"
proof (cases "\<exists>nals. nals \<noteq> [] \<and> [] \<notin> set nals \<and> data = avcc nals")
  case True
  then obtain nals where n: "nals \<noteq> []" "[] \<notin> set nals" "data = avcc nals" by auto
  then have "airtizen_h264_frame (Some data) = Some (0, annexb nals)" using h264_frame_avcc assms by simp
  with n show ?thesis by auto
next
  case False
  have "airtizen_h264_frame (Some data) = Some (-1, data)"
  proof (cases "length data < 5")
    case short: False
    obtain ok where ok: "frame_check data 0 = Some ok"
      "ok \<longrightarrow> 0 < length data \<longrightarrow> (\<exists>nals. drop 0 data = avcc nals \<and> [] \<notin> set nals)"
      using frame_check_total [of data 0] assms by auto
    have "\<not> ok"
    proof
      assume ok
      then obtain nals where "data = avcc nals" "[] \<notin> set nals" using ok(2) short by auto
      moreover have "nals \<noteq> []" using calculation short by auto
      ultimately show False using False by blast
    qed
    with ok short show ?thesis by (simp add: airtizen_h264_frame_def)
  qed (simp add: airtizen_h264_frame_def)
  with False show ?thesis by blast
qed

theorem h264_frame_exact_witness:
  "airtizen_h264_frame (Some [0, 0, 0, 2, 65, 9]) = Some (0, [0, 0, 0, 1, 65, 9])"
proof -
  have d: "([0, 0, 0, 2, 65, 9] :: byte list) = avcc [[65, 9]]" by (simp add: enc32_def)
  then have "\<exists>nals. nals \<noteq> [] \<and> [] \<notin> set nals \<and> [0, 0, 0, 2, 65, 9 :: byte] = avcc nals"
    by (intro exI [of _ "[[65, 9]]"]) simp
  then obtain nals where n: "[] \<notin> set nals" "[0, 0, 0, 2, 65, 9 :: byte] = avcc nals"
      "airtizen_h264_frame (Some [0, 0, 0, 2, 65, 9]) = Some (0, annexb nals)"
    using h264_frame_exact [of "[0, 0, 0, 2, 65, 9]"] by auto
  have "frame_rewrite (avcc [[65, 9]]) 0 = Some (annexb nals)"
    unfolding d [symmetric] n(2) using frame_rewrite_spec [of "avcc nals" "[]" nals, OF _ n(1)] n(2) [symmetric] by simp
  moreover have "frame_rewrite (avcc [[65, 9]]) 0 = Some (annexb [[65, 9]])"
    using frame_rewrite_spec [of "avcc [[65, 9]]" "[]" "[[65, 9]]"] d by simp
  ultimately show ?thesis using n(3) by simp
qed

end
