(* ===== verification/Json.thy ===== *)
theory Json
  imports Airtizen_Prelude
begin

text \<open>
  The JSON string quoting of the status and log output (\<open>native/src/airtizen_json.c\<close>). The
  bytes quoted come from the network (device names, track titles, URLs). The theory shows that
  quoting is memory safe for every capacity, that it fails only for lack of room and how much
  room always suffices, that the result is always a JSON string literal whose value is valid
  UTF-8, and that valid UTF-8 text survives the round trip.
\<close>

section \<open>Operations\<close>

text \<open>The lead byte's sequence length; 0 for a byte that starts no multi-byte sequence.\<close>

definition seq_length :: "byte \<Rightarrow> nat" where
  "seq_length c = (if 0xc2 \<le> c \<and> c \<le> 0xdf then 2 else if 0xe0 \<le> c \<and> c \<le> 0xef then 3
                   else if 0xf0 \<le> c \<and> c \<le> 0xf4 then 4 else 0)"

text \<open>The payload bits of the lead byte.\<close>

definition lead_bits :: "byte \<Rightarrow> nat" where
  "lead_bits c = unat c AND (2 ^ (7 - seq_length c) - 1)"

text \<open>The loop over the continuation bytes: \<open>n\<close> bytes remain, the next is \<open>p[i]\<close>. The inner
  \<open>None\<close> is \<open>valid = 0\<close>.\<close>

fun continuation :: "cstring \<Rightarrow> nat \<Rightarrow> nat \<Rightarrow> nat \<Rightarrow> nat option option" where
  "continuation p i 0 codepoint = Some (Some codepoint)"
| "continuation p i (Suc n) codepoint = do {
     b \<leftarrow> rdz p i;
     if b = 0 \<or> b AND 0xc0 \<noteq> 0x80 then Some None
     else continuation p (Suc i) n (push_bit 6 codepoint OR unat (b AND 0x3f))
   }"

text \<open>The length of the valid multi-byte sequence at the start of \<open>p\<close>, if there is one.\<close>

definition utf8_at :: "cstring \<Rightarrow> nat option option" where
  "utf8_at p = do {
     c \<leftarrow> rdz p 0;
     let len = seq_length c;
     if len = 0 then Some None
     else do {
       r \<leftarrow> continuation p 1 (len - 1) (lead_bits c);
       (case r of None \<Rightarrow> Some None
        | Some cp \<Rightarrow>
            if (len = 3 \<and> cp < 0x800) \<or> (len = 4 \<and> cp < 0x10000) \<or> cp > 0x10ffff \<or> (0xd800 \<le> cp \<and> cp \<le> 0xdfff)
            then Some None else Some (Some len))
     }
   }"

text \<open>The escape of a single byte that is not part of a valid multi-byte sequence.\<close>

definition encoded :: "byte \<Rightarrow> cstring" where
  "encoded c =
     (if c < 32 then str (CHR 0x5c # ''u00'') @ [hexdigit (unat c div 16), hexdigit (unat c mod 16)]
      else if c = 34 \<or> c = 92 then [92, c]
      else if c \<ge> 128 then str (CHR 0x5c # ''ufffd'')
      else [c])"

text \<open>The main loop over the rest \<open>p\<close> of the text; \<open>out\<close> is what has been written. \<open>None\<close> inside is
  the return of -1 for lack of room.\<close>

function quote_loop :: "nat \<Rightarrow> cstring \<Rightarrow> cstring \<Rightarrow> cstring option option" where
  "quote_loop capacity [] out = Some (Some out)"
| "quote_loop capacity (c # p) out = do {
     v \<leftarrow> (if c \<ge> 128 then utf8_at (c # p) else Some None);
     (case v of
        Some len \<Rightarrow>
          if length out + len + 2 > capacity then Some None
          else do {
            bytes \<leftarrow> rdn (c # p) 0 len;
            out1 \<leftarrow> put capacity out bytes;
            quote_loop capacity (drop (len - 1) p) out1
          }
      | None \<Rightarrow>
          if length out + length (encoded c) + 2 > capacity then Some None
          else do {
            out1 \<leftarrow> put capacity out (encoded c);
            quote_loop capacity p out1
          })
   }"
  by pat_completeness auto
termination
  by (relation "measure (\<lambda>(capacity, p, out). length p)") auto

text \<open>The returned length (or -1) and the C string left in \<open>out\<close>.\<close>

definition airtizen_json_quote :: "nat \<Rightarrow> cstring option \<Rightarrow> (int \<times> cstring) option" where
  "airtizen_json_quote capacity text =
     (let p = (case text of None \<Rightarrow> [] | Some t \<Rightarrow> t) in
      if capacity < 3 then Some (-1, [])
      else do {
        out0 \<leftarrow> put capacity [] [34];
        r \<leftarrow> quote_loop capacity p out0;
        (case r of None \<Rightarrow> Some (-1, [])
         | Some out \<Rightarrow> do {
             out1 \<leftarrow> put capacity out [34];
             out2 \<leftarrow> put capacity out1 [0];
             Some (int (length out1), out1)
           })
      })"

section \<open>Specification\<close>

text \<open>UTF-8 encoding of a Unicode scalar value.\<close>

definition scalar :: "nat \<Rightarrow> bool" where
  "scalar n \<longleftrightarrow> n \<le> 0x10ffff \<and> \<not> (0xd800 \<le> n \<and> n \<le> 0xdfff)"

definition utf8_enc :: "nat \<Rightarrow> byte list" where
  "utf8_enc n =
     (if n < 0x80 then [of_nat n]
      else if n < 0x800 then [of_nat (192 + n div 64), of_nat (128 + n mod 64)]
      else if n < 0x10000 then [of_nat (224 + n div 64 div 64), of_nat (128 + n div 64 mod 64), of_nat (128 + n mod 64)]
      else [of_nat (240 + n div 64 div 64 div 64), of_nat (128 + n div 64 div 64 mod 64),
            of_nat (128 + n div 64 mod 64), of_nat (128 + n mod 64)])"

definition utf8_text :: "byte list \<Rightarrow> bool" where
  "utf8_text t \<longleftrightarrow> (\<exists>cps. list_all scalar cps \<and> t = concat (map utf8_enc cps))"

text \<open>The value of a JSON string literal (RFC 8259) whose closing quote ends the text.\<close>

definition hexval :: "byte \<Rightarrow> nat option" where
  "hexval b = (if 48 \<le> b \<and> b \<le> 57 then Some (unat b - 48)
               else if 97 \<le> b \<and> b \<le> 102 then Some (unat b - 87)
               else if 65 \<le> b \<and> b \<le> 70 then Some (unat b - 55) else None)"

fun unescape :: "byte list \<Rightarrow> byte list option" where
  "unescape [] = None"
| "unescape (c # r) =
     (if c = 34 then (if r = [] then Some [] else None)
      else if c < 32 then None
      else if c \<noteq> 92 then map_option ((#) c) (unescape r)
      else (case r of
         [] \<Rightarrow> None
       | e # r1 \<Rightarrow>
           if e \<in> {34, 92, 47} then map_option ((#) e) (unescape r1)
           else if e = 98 then map_option ((#) 8) (unescape r1)
           else if e = 102 then map_option ((#) 12) (unescape r1)
           else if e = 110 then map_option ((#) 10) (unescape r1)
           else if e = 114 then map_option ((#) 13) (unescape r1)
           else if e = 116 then map_option ((#) 9) (unescape r1)
           else if e = 117 then
             (case r1 of
                h3 # h2 # h1 # h0 # r2 \<Rightarrow>
                  (case (hexval h3, hexval h2, hexval h1, hexval h0) of
                     (Some d3, Some d2, Some d1, Some d0) \<Rightarrow>
                       map_option ((@) (utf8_enc (((d3 * 16 + d2) * 16 + d1) * 16 + d0))) (unescape r2)
                   | _ \<Rightarrow> None)
              | _ \<Rightarrow> None)
           else None))"

definition json_value :: "byte list \<Rightarrow> byte list option" where
  "json_value q = (case q of [] \<Rightarrow> None | c # r \<Rightarrow> if c = 34 then unescape r else None)"

text \<open>What quoting makes of arbitrary bytes: every byte that is not part of a valid sequence
  becomes U+FFFD.\<close>

function sanitize :: "byte list \<Rightarrow> byte list" where
  "sanitize [] = []"
| "sanitize (c # p) =
     (if c < 128 then c # sanitize p
      else case utf8_at (c # p) of
             Some (Some len) \<Rightarrow> take len (c # p) @ sanitize (drop (len - 1) p)
           | _ \<Rightarrow> [239, 191, 189] @ sanitize p)"
  by pat_completeness auto
termination by (relation "measure length") auto

section \<open>Validation of multi-byte sequences\<close>

definition is_cont :: "byte \<Rightarrow> bool" where
  "is_cont b \<longleftrightarrow> 128 \<le> unat b \<and> unat b < 192"

lemma cont_byte: "(b::byte) AND 0xc0 = 0x80 \<longleftrightarrow> is_cont b"
proof -
  have m: "(0xc0::byte) = NOT (mask 6)" by (simp add: mask_eq_exp_minus_1)
  have e: "b AND NOT (mask 6) = push_bit 6 (drop_bit 6 b)"
    by (rule bit_eqI) (auto simp: bit_simps)
  have "unat b div 64 < 4" using unat_byte_lt [of b] by (simp add: less_mult_imp_div_less del: unat_byte_lt)
  then have "unat b div 64 * 64 < 256" by simp
  then have "unat (push_bit 6 (drop_bit 6 b)) = unat b div 64 * 64"
    by (simp add: push_bit_eq_mult drop_bit_eq_div unat_word_ariths unat_div)
  then have "b AND 0xc0 = 0x80 \<longleftrightarrow> unat b div 64 * 64 = 128"
    unfolding m e by (simp add: word_unat_eq_iff)
  also have "\<dots> \<longleftrightarrow> unat b div 64 = 2" by linarith
  also have "\<dots> \<longleftrightarrow> is_cont b"
    unfolding is_cont_def by (auto simp: div_nat_eqI dest!: sym [of _ 2])
  finally show ?thesis .
qed

lemma mod_offset: "q * k \<le> n \<Longrightarrow> n < q * k + k \<Longrightarrow> n mod k = n - q * (k::nat)"
  by (rule mod_nat_eqI) auto

lemma and_mask_nat: "(n::nat) AND (2 ^ k - 1) = n mod 2 ^ k"
  unfolding mask_eq_exp_minus_1 [symmetric] take_bit_eq_mask [symmetric] take_bit_eq_mod ..

lemma cont_value: "is_cont b \<Longrightarrow> unat (b AND 0x3f) = unat b - 128"
proof -
  assume r: "is_cont b"
  have m: "(0x3f :: byte) = mask 6" by (simp add: mask_eq_exp_minus_1)
  have "unat (b AND 0x3f) = unat b mod 64"
    unfolding m take_bit_eq_mask [symmetric] unsigned_take_bit_eq by (simp only: take_bit_eq_mod) simp
  then show ?thesis using r mod_offset [of 2 64 "unat b"] by (simp add: is_cont_def)
qed

lemma seq_length_iff:
  "seq_length c = 2 \<longleftrightarrow> 194 \<le> unat c \<and> unat c \<le> 223"
  "seq_length c = 3 \<longleftrightarrow> 224 \<le> unat c \<and> unat c \<le> 239"
  "seq_length c = 4 \<longleftrightarrow> 240 \<le> unat c \<and> unat c \<le> 244"
  by (auto simp: seq_length_def word_le_nat_alt)

lemma seq_length_cases: "seq_length c \<in> {0, 2, 3, 4}"
  by (simp add: seq_length_def)

lemma lead_bits_eq:
  "seq_length c = 2 \<Longrightarrow> lead_bits c = unat c - 192"
  "seq_length c = 3 \<Longrightarrow> lead_bits c = unat c - 224"
  "seq_length c = 4 \<Longrightarrow> lead_bits c = unat c - 240"
  unfolding and_mask_nat lead_bits_def
  using seq_length_iff [of c] mod_offset [of 6 32 "unat c"] mod_offset [of 14 16 "unat c"]
    mod_offset [of 30 8 "unat c"] by auto

text \<open>The continuation loop as a fold over the continuation bytes.\<close>

definition cont_fold :: "nat \<Rightarrow> byte list \<Rightarrow> nat" where
  "cont_fold = foldl (\<lambda>v b. v * 64 + (unat b - 128))"

lemma continuation_fold:
  "continuation (pre @ q) (length pre) n cp =
     Some (if n \<le> length q \<and> list_all is_cont (take n q) then Some (cont_fold cp (take n q)) else None)"
proof (induction n arbitrary: pre q cp)
  case 0
  then show ?case by (simp add: cont_fold_def)
next
  case (Suc n)
  show ?case
  proof (cases q)
    case Nil then show ?thesis by (simp add: rdz_def)
  next
    case (Cons b r)
    have "push_bit 6 cp OR (unat b - 128) = cp * 64 + (unat b - 128)" if "is_cont b"
      using or_low_bits [of "unat b - 128" 6 cp] that by (auto simp: is_cont_def)
    moreover have "b \<noteq> 0" if "is_cont b" using that by (auto simp: is_cont_def)
    moreover have "continuation (pre @ b # r) (Suc (length pre)) n v =
       Some (if n \<le> length r \<and> list_all is_cont (take n r) then Some (cont_fold v (take n r)) else None)" for v
      using Suc.IH [of "pre @ [b]" r v] by simp
    ultimately show ?thesis
      using Cons by (auto simp: rdz_def cont_byte cont_value cont_fold_def nth_append)
  qed
qed

lemma utf8_at_eq:
  "utf8_at (c # p) =
    Some (let len = seq_length c; cs = take (len - 1) p; cp = cont_fold (lead_bits c) cs in
      if len \<noteq> 0 \<and> len - 1 \<le> length p \<and> list_all is_cont cs \<and> scalar cp \<and>
         (len = 3 \<longrightarrow> 0x800 \<le> cp) \<and> (len = 4 \<longrightarrow> 0x10000 \<le> cp) then Some len else None)"
proof -
  have e: "continuation (c # p) (Suc 0) (seq_length c - Suc 0) (lead_bits c) =
     Some (if seq_length c - 1 \<le> length p \<and> list_all is_cont (take (seq_length c - 1) p)
           then Some (cont_fold (lead_bits c) (take (seq_length c - 1) p)) else None)"
    using continuation_fold [of "[c]" p "seq_length c - 1" "lead_bits c"] by simp
  have r: "rdz (c # p) 0 = Some c" by (simp add: rdz_def)
  show ?thesis
  proof (cases "seq_length c \<noteq> 0 \<and> seq_length c - 1 \<le> length p \<and> list_all is_cont (take (seq_length c - 1) p)")
    case True
    then have "continuation (c # p) (Suc 0) (seq_length c - Suc 0) (lead_bits c) =
       Some (Some (cont_fold (lead_bits c) (take (seq_length c - 1) p)))" using e by simp
    with True r show ?thesis by (auto simp: utf8_at_def Let_def scalar_def)
  next
    case False
    then have "seq_length c = 0 \<or> continuation (c # p) (Suc 0) (seq_length c - Suc 0) (lead_bits c) = Some None"
      using e by auto
    with False r show ?thesis by (auto simp: utf8_at_def Let_def)
  qed
qed

lemma utf8_at_safe: "\<exists>r. utf8_at (c # p) = Some r"
  by (simp add: utf8_at_eq)

lemma is_cont_ex: "is_cont b \<Longrightarrow> \<exists>k < 64. b = of_nat (128 + k)"
proof -
  assume "is_cont b"
  then have "unat b - 128 < 64" "of_nat (128 + (unat b - 128)) = (of_nat (unat b) :: byte)"
    by (auto simp: is_cont_def simp del: of_nat_add of_nat_diff)
  moreover have "of_nat (unat b) = b" by simp
  ultimately show ?thesis by metis
qed

lemma unat_cont: "k < 64 \<Longrightarrow> unat (of_nat (128 + k) :: byte) = 128 + k"
  by (rule unat_of_nat_byte) simp

lemma is_cont_of_nat: "k < 64 \<Longrightarrow> is_cont (of_nat (128 + k))"
  by (simp add: is_cont_def unat_cont del: of_nat_add of_nat_numeral)

text \<open>The value of a sequence whose continuation bytes carry the given six-bit groups.\<close>

lemma cont_fold_groups:
  "list_all (\<lambda>k. k < 64) ks \<Longrightarrow> cont_fold v (map (\<lambda>k. of_nat (128 + k)) ks) = foldl (\<lambda>v k. v * 64 + k) v ks"
  unfolding cont_fold_def
  by (induction ks arbitrary: v) (simp_all add: unat_cont del: of_nat_add of_nat_numeral)

lemma cont_groups: "list_all is_cont cs \<Longrightarrow> \<exists>ks. list_all (\<lambda>k. k < 64) ks \<and> cs = map (\<lambda>k. of_nat (128 + k)) ks"
proof (induction cs)
  case (Cons c cs)
  then obtain ks where "list_all (\<lambda>k. k < 64) ks" "cs = map (\<lambda>k. of_nat (128 + k)) ks" by auto
  moreover obtain k where "k < 64" "c = of_nat (128 + k)" using is_cont_ex [of c] Cons.prems by auto
  ultimately show ?case by (intro exI [of _ "k # ks"]) simp
qed simp

text \<open>The encodings, seen from the groups of their value.\<close>

lemma group_div_mod: "k < 64 \<Longrightarrow> (m * 64 + k) div 64 = m" "k < 64 \<Longrightarrow> (m * 64 + k) mod 64 = (k::nat)"
  by simp_all

lemma utf8_enc_groups:
  assumes "k < 64" "j < 64" "i < 64"
  shows "128 \<le> m * 64 + k \<Longrightarrow> m < 32 \<Longrightarrow>
     utf8_enc (m * 64 + k) = [of_nat (192 + m), of_nat (128 + k)]"
  and "0x800 \<le> (m * 64 + j) * 64 + k \<Longrightarrow> m < 16 \<Longrightarrow>
     utf8_enc ((m * 64 + j) * 64 + k) = [of_nat (224 + m), of_nat (128 + j), of_nat (128 + k)]"
  and "0x10000 \<le> ((m * 64 + i) * 64 + j) * 64 + k \<Longrightarrow>
     utf8_enc (((m * 64 + i) * 64 + j) * 64 + k) =
       [of_nat (240 + m), of_nat (128 + i), of_nat (128 + j), of_nat (128 + k)]"
proof -
  note g = group_div_mod [OF assms(1)] group_div_mod [OF assms(2)] group_div_mod [OF assms(3)]
  show "utf8_enc (m * 64 + k) = [of_nat (192 + m), of_nat (128 + k)]" if "128 \<le> m * 64 + k" "m < 32"
  proof -
    have "\<not> m * 64 + k < 0x80" "m * 64 + k < 0x800" using that assms by linarith+
    then show ?thesis unfolding utf8_enc_def g by simp
  qed
  show "utf8_enc ((m * 64 + j) * 64 + k) = [of_nat (224 + m), of_nat (128 + j), of_nat (128 + k)]"
    if "0x800 \<le> (m * 64 + j) * 64 + k" "m < 16"
  proof -
    have "\<not> (m * 64 + j) * 64 + k < 0x80" "\<not> (m * 64 + j) * 64 + k < 0x800" using that by linarith+
    moreover have "(m * 64 + j) * 64 + k \<le> (15 * 64 + 63) * 64 + 63"
      using that assms by (intro add_mono mult_le_mono) simp_all
    then have "(m * 64 + j) * 64 + k < 0x10000" by (rule le_less_trans) simp
    ultimately show ?thesis unfolding utf8_enc_def g by simp
  qed
  show "utf8_enc (((m * 64 + i) * 64 + j) * 64 + k) =
       [of_nat (240 + m), of_nat (128 + i), of_nat (128 + j), of_nat (128 + k)]"
    if "0x10000 \<le> ((m * 64 + i) * 64 + j) * 64 + k"
  proof -
    have "\<not> ((m * 64 + i) * 64 + j) * 64 + k < 0x80" "\<not> ((m * 64 + i) * 64 + j) * 64 + k < 0x800"
      "\<not> ((m * 64 + i) * 64 + j) * 64 + k < 0x10000" using that by linarith+
    then show ?thesis unfolding utf8_enc_def g by simp
  qed
qed

lemma take_groups2: "length cs = 1 \<Longrightarrow> \<exists>a. cs = [a]" and take_groups3: "length cs = 2 \<Longrightarrow> \<exists>a b. cs = [a, b]"
  and take_groups4: "length cs = 3 \<Longrightarrow> \<exists>a b d. cs = [a, b, d]"
  by (auto simp: numeral_eq_Suc length_Suc_conv)

text \<open>The validated sequences are exactly the encodings of the scalar values from U+0080 up.\<close>

lemma utf8_at_sound:
  assumes "utf8_at (c # p) = Some (Some len)"
  shows "\<exists>cp. scalar cp \<and> 128 \<le> cp \<and> len \<le> length (c # p) \<and> take len (c # p) = utf8_enc cp \<and> 2 \<le> len"
proof -
  define cs where "cs = take (seq_length c - 1) p"
  define cp where "cp = cont_fold (lead_bits c) cs"
  from assms have len: "len = seq_length c" "len \<noteq> 0" "len - 1 \<le> length p" "list_all is_cont cs" "scalar cp"
    "len = 3 \<longrightarrow> 0x800 \<le> cp" "len = 4 \<longrightarrow> 0x10000 \<le> cp"
    by (auto simp: utf8_at_eq Let_def cs_def cp_def split: if_splits)
  obtain ks where ks: "list_all (\<lambda>k. k < 64) ks" "cs = map (\<lambda>k. of_nat (128 + k)) ks"
    using cont_groups [OF len(4)] by blast
  have cpk: "cp = foldl (\<lambda>v k. v * 64 + k) (lead_bits c) ks" using cont_fold_groups [OF ks(1)] ks(2) cp_def by simp
  have l: "length ks = len - 1" using len ks(2) by (simp add: cs_def) (metis length_map length_take min.absorb2 cs_def)
  have tk: "take len (c # p) = c # cs" using len(1,2) by (simp add: cs_def take_Cons')
  have c: "c = of_nat (unat c)" by simp
  consider "len = 2" | "len = 3" | "len = 4" using seq_length_cases [of c] len by auto
  then have "128 \<le> cp \<and> c # cs = utf8_enc cp"
  proof cases
    case 1
    then obtain k where k: "ks = [k]" "k < 64" using l ks(1) take_groups2 [of ks] by auto
    have m: "194 \<le> unat c" "unat c \<le> 223" "lead_bits c = unat c - 192"
      using 1 len(1) seq_length_iff(1) lead_bits_eq(1) by auto
    have v: "cp = (unat c - 192) * 64 + k" using cpk k m by simp
    have g: "128 \<le> (unat c - 192) * 64 + k" using m by linarith
    have "192 + (unat c - 192) = unat c" using m by simp
    then show ?thesis
      using utf8_enc_groups(1) [OF k(2) k(2) k(2) g] m v g ks(2) k c by simp
  next
    case 2
    then obtain j k where k: "ks = [j, k]" "j < 64" "k < 64" using l ks(1) take_groups3 [of ks] by auto
    have m: "224 \<le> unat c" "unat c \<le> 239" "lead_bits c = unat c - 224"
      using 2 len(1) seq_length_iff(2) lead_bits_eq(2) by auto
    have v: "cp = ((unat c - 224) * 64 + j) * 64 + k" using cpk k m by simp
    have g: "0x800 \<le> ((unat c - 224) * 64 + j) * 64 + k" using len(6) 2 v by simp
    have "224 + (unat c - 224) = unat c" using m by simp
    then show ?thesis
      using utf8_enc_groups(2) [OF k(3,2,2) g] m v g ks(2) k c by simp
  next
    case 3
    then obtain i j k where k: "ks = [i, j, k]" "i < 64" "j < 64" "k < 64" using l ks(1) take_groups4 [of ks] by auto
    have m: "240 \<le> unat c" "unat c \<le> 244" "lead_bits c = unat c - 240"
      using 3 len(1) seq_length_iff(3) lead_bits_eq(3) by auto
    have v: "cp = (((unat c - 240) * 64 + i) * 64 + j) * 64 + k" using cpk k m by simp
    have g: "0x10000 \<le> (((unat c - 240) * 64 + i) * 64 + j) * 64 + k" using len(7) 3 v by simp
    have "240 + (unat c - 240) = unat c" using m by simp
    then show ?thesis
      using utf8_enc_groups(3) [OF k(4,3,2) g] m v g ks(2) k c by simp
  qed
  moreover have "2 \<le> len" using seq_length_cases [of c] len by auto
  ultimately show ?thesis using len tk by auto
qed

lemma seq_length_lead:
  "194 \<le> 192 + m \<Longrightarrow> m < 32 \<Longrightarrow> seq_length (of_nat (192 + m)) = 2 \<and> lead_bits (of_nat (192 + m)) = m"
  "m < 16 \<Longrightarrow> seq_length (of_nat (224 + m)) = 3 \<and> lead_bits (of_nat (224 + m)) = m"
  "m < 5 \<Longrightarrow> seq_length (of_nat (240 + m)) = 4 \<and> lead_bits (of_nat (240 + m)) = m"
  using unat_of_nat_byte [of "192 + m"] unat_of_nat_byte [of "224 + m"] unat_of_nat_byte [of "240 + m"]
    seq_length_iff [of "of_nat (192 + m)"] seq_length_iff [of "of_nat (224 + m)"] seq_length_iff [of "of_nat (240 + m)"]
    lead_bits_eq [of "of_nat (192 + m)"] lead_bits_eq [of "of_nat (224 + m)"] lead_bits_eq [of "of_nat (240 + m)"]
  by (auto simp del: of_nat_add of_nat_numeral)

lemma utf8_at_complete:
  assumes "scalar cp" "128 \<le> cp" "c # p = utf8_enc cp @ rest"
  shows "utf8_at (c # p) = Some (Some (length (utf8_enc cp)))"
proof -
  define k where "k = cp mod 64"
  define j where "j = cp div 64 mod 64"
  define i where "i = cp div 64 div 64 mod 64"
  have b: "k < 64" "j < 64" "i < 64" by (simp_all add: k_def j_def i_def)
  note ic = is_cont_of_nat [OF b(1)] is_cont_of_nat [OF b(2)] is_cont_of_nat [OF b(3)]
  note fold1 = cont_fold_groups [of "[k]"] and fold2 = cont_fold_groups [of "[j, k]"]
    and fold3 = cont_fold_groups [of "[i, j, k]"]
  consider "cp < 0x800" | "0x800 \<le> cp" "cp < 0x10000" | "0x10000 \<le> cp" by linarith
  then show ?thesis
  proof cases
    case 1
    let ?m = "cp div 64"
    have m: "194 \<le> 192 + ?m" "?m < 32" using 1 assms(2) by simp_all
    have u: "utf8_enc cp = [of_nat (192 + ?m), of_nat (128 + k)]" using 1 assms(2) by (simp add: utf8_enc_def k_def)
    have "?m * 64 + k = cp" by (simp add: k_def)
    then show ?thesis
      using seq_length_lead(1) [OF m] ic fold1 [of ?m] b assms u
      by (simp add: utf8_at_eq Let_def del: of_nat_add of_nat_numeral)
  next
    case 2
    let ?m = "cp div 64 div 64"
    have m: "?m < 16" using 2 by simp
    have u: "utf8_enc cp = [of_nat (224 + ?m), of_nat (128 + j), of_nat (128 + k)]"
      using 2 assms(2) by (simp add: utf8_enc_def k_def j_def)
    have "(?m * 64 + j) * 64 + k = cp" by (simp add: k_def j_def)
    then show ?thesis
      using seq_length_lead(2) [OF m] ic fold2 [of ?m] b assms u 2
      by (simp add: utf8_at_eq Let_def numeral_2_eq_2 del: of_nat_add of_nat_numeral)
  next
    case 3
    let ?m = "cp div 64 div 64 div 64"
    have "?m = cp div 262144" by (simp add: div_mult2_eq [symmetric])
    then have m: "?m < 5" using assms(1) by (simp add: scalar_def less_mult_imp_div_less)
    have u: "utf8_enc cp = [of_nat (240 + ?m), of_nat (128 + i), of_nat (128 + j), of_nat (128 + k)]"
      using 3 assms(2) by (simp add: utf8_enc_def k_def j_def i_def)
    have "((?m * 64 + i) * 64 + j) * 64 + k = cp" by (simp add: k_def j_def i_def)
    then show ?thesis
      using seq_length_lead(3) [OF m] ic fold3 [of ?m] b assms u 3
      by (simp add: utf8_at_eq Let_def numeral_3_eq_3 del: of_nat_add of_nat_numeral)
  qed
qed

lemma utf8_enc_high:
  assumes "scalar cp" "128 \<le> cp"
  shows "\<exists>c p. utf8_enc cp = c # p \<and> 128 \<le> c"
proof -
  obtain c p where e: "utf8_enc cp = c # p" using assms by (cases "utf8_enc cp") (auto simp: utf8_enc_def split: if_splits)
  have "seq_length c \<noteq> 0" using utf8_at_complete [OF assms, of c p "[]"] e by (auto simp: utf8_at_eq Let_def split: if_splits)
  then have "128 \<le> c" by (auto simp: seq_length_def word_le_nat_alt split: if_splits)
  with e show ?thesis by blast
qed

lemma utf8_enc_low: "cp < 128 \<Longrightarrow> utf8_enc cp = [of_nat cp] \<and> (of_nat cp :: byte) < 128"
  by (simp add: utf8_enc_def word_less_nat_alt unat_of_nat_byte)

section \<open>Quoting\<close>

text \<open>\<open>decodes body t\<close>: inside a literal, \<open>body\<close> stands for the bytes \<open>t\<close>.\<close>

definition decodes :: "byte list \<Rightarrow> byte list \<Rightarrow> bool" where
  "decodes body t \<longleftrightarrow> (\<forall>rest. unescape (body @ rest) = map_option ((@) t) (unescape rest))"

lemma append_fun: "(@) (s @ t) = (\<lambda>x. s @ t @ x)" "(@) [c] = (#) c"
  by (rule ext, simp)+

lemma decodes_Nil [simp]: "decodes [] []"
  by (simp add: decodes_def option.map_ident_strong)

lemma decodes_append: "decodes a s \<Longrightarrow> decodes b t \<Longrightarrow> decodes (a @ b) (s @ t)"
  by (simp add: decodes_def option.map_comp o_def append_fun)

lemma decodes_plain: "c \<noteq> 34 \<Longrightarrow> c \<noteq> 92 \<Longrightarrow> 32 \<le> c \<Longrightarrow> decodes [c] [c]"
  by (auto simp: decodes_def append_fun)

lemma decodes_high: "list_all (\<lambda>c. 128 \<le> c) cs \<Longrightarrow> decodes cs cs"
proof (induction cs)
  case (Cons c cs)
  have "decodes [c] [c]" using Cons.prems by (intro decodes_plain) (auto simp: word_le_nat_alt)
  with Cons show ?case using decodes_append [of "[c]" "[c]" cs cs] by simp
qed simp

lemma hexval_hexdigit: "n < 16 \<Longrightarrow> hexval (hexdigit n) = Some n"
proof -
  assume "n < 16"
  then have "n \<in> set [0..<16]" by simp
  moreover have "list_all (\<lambda>n. hexval (hexdigit n) = Some n) [0..<16]" by code_simp
  ultimately show ?thesis by (simp only: list_all_iff)
qed

lemma decodes_control: "c < 32 \<Longrightarrow> decodes (encoded c) [c]"
proof -
  assume c: "c < 32"
  then have u: "unat c < 32" by (simp add: word_less_nat_alt)
  have h: "hexval 48 = Some 0" by (simp add: hexval_def)
  have "unat c div 16 < 16" "unat c mod 16 < 16" using u by simp_all
  note hx = hexval_hexdigit [OF this(1)] hexval_hexdigit [OF this(2)]
  have e: "encoded c = [92, 117, 48, 48, hexdigit (unat c div 16), hexdigit (unat c mod 16)]"
    using c by (simp add: encoded_def str_def)
  have v: "unat c div 16 * 16 + unat c mod 16 = unat c" by simp
  have "utf8_enc (unat c) = [c]" using u by (simp add: utf8_enc_def)
  then show ?thesis unfolding decodes_def e by (simp add: h hx v)
qed

lemma decodes_quote: "c = 34 \<or> c = 92 \<Longrightarrow> decodes (encoded c) [c]"
  by (auto simp: decodes_def encoded_def append_fun)

lemma decodes_replacement: "128 \<le> c \<Longrightarrow> decodes (encoded c) [239, 191, 189]"
proof -
  assume c: "128 \<le> c"
  have e: "encoded c = [92, 117, 102, 102, 102, 100]"
    using c by (auto simp: encoded_def str_def word_le_nat_alt word_less_nat_alt)
  have h: "hexval 102 = Some 15" "hexval 100 = Some 13" by (simp_all add: hexval_def)
  have "utf8_enc 65533 = [239, 191, 189]" by (simp add: utf8_enc_def)
  then show ?thesis unfolding decodes_def e by (simp add: h)
qed

lemma decodes_encoded: "c < 128 \<Longrightarrow> decodes (encoded c) [c]"
proof -
  assume c: "c < 128"
  consider "c < 32" | "c = 34 \<or> c = 92" | "32 \<le> c" "c \<noteq> 34" "c \<noteq> 92" by force
  then show ?thesis
  proof cases
    case 3
    then have "encoded c = [c]" using c by (auto simp: encoded_def)
    then show ?thesis using decodes_plain 3 by simp
  qed (simp_all add: decodes_control decodes_quote)
qed

lemma length_encoded: "1 \<le> length (encoded c) \<and> length (encoded c) \<le> 6"
  by (simp add: encoded_def)

lemma utf8_at_high: "utf8_at (c # p) = Some (Some len) \<Longrightarrow> list_all (\<lambda>c. 128 \<le> c) (take len (c # p))"
proof -
  assume a: "utf8_at (c # p) = Some (Some len)"
  then have c: "len = seq_length c" "len \<noteq> 0" "list_all is_cont (take (len - 1) p)"
    by (auto simp: utf8_at_eq Let_def split: if_splits)
  then have "128 \<le> c" by (auto simp: seq_length_def word_le_nat_alt split: if_splits)
  moreover have "list_all (\<lambda>c. 128 \<le> c) (take (len - 1) p)"
    using c(3) by (auto simp: list_all_iff is_cont_def word_le_nat_alt)
  ultimately show ?thesis using c(2) by (simp add: take_Cons')
qed

text \<open>The loop, on every capacity: it is memory safe, leaves room for the closing quote and the
  terminator, writes a body that stands for the sanitized text, and gives up only when six
  bytes per input byte would not fit.\<close>

lemma quote_loop_spec:
  "length out + 2 \<le> capacity \<Longrightarrow>
   (\<exists>body. quote_loop capacity p out = Some (Some (out @ body)) \<and> decodes body (sanitize p) \<and>
      length (out @ body) + 2 \<le> capacity) \<or>
   (quote_loop capacity p out = Some None \<and> capacity < length out + 6 * length p + 2)"
proof (induction capacity p out rule: quote_loop.induct)
  case (1 capacity out)
  then show ?case by simp
next
  case (2 capacity c p out)
  obtain v where v: "(if c \<ge> 128 then utf8_at (c # p) else Some None) = Some v"
    using utf8_at_safe [of c p] by (cases "c \<ge> 128") auto
  show ?case
  proof (cases v)
    case (Some len)
    then have c: "128 \<le> c" and u: "utf8_at (c # p) = Some (Some len)" using v by (auto split: if_splits)
    obtain cp where l: "len \<le> length (c # p)" "2 \<le> len" using utf8_at_sound [OF u] by auto
    let ?b = "take len (c # p)"
    have dl: "length (drop (len - 1) p) + len = Suc (length p)" using l by simp
    show ?thesis
    proof (cases "length out + len + 2 > capacity")
      case True
      then show ?thesis using v Some l by simp
    next
      case False
      then have r: "rdn (c # p) 0 len = Some ?b" "put capacity out ?b = Some (out @ ?b)"
        and room: "length (out @ ?b) + 2 \<le> capacity"
        using l by (simp_all add: rdn_def put_def)
      have q: "quote_loop capacity (c # p) out = quote_loop capacity (drop (len - 1) p) (out @ ?b)"
        using v Some False r by simp
      have s: "sanitize (c # p) = ?b @ sanitize (drop (len - 1) p)" using c u by (simp add: word_le_nat_alt word_less_nat_alt)
      have "decodes ?b ?b" using decodes_high [OF utf8_at_high [OF u]] .
      then show ?thesis
        using "2.IH"(2) [OF v Some _ r(1) r(2) room] False dl l unfolding q s
        by (auto dest: decodes_append)
    qed
  next
    case None
    let ?b = "encoded c"
    have d: "\<exists>t. sanitize (c # p) = t @ sanitize p \<and> decodes ?b t"
    proof (cases "c < 128")
      case True
      then show ?thesis using decodes_encoded by (intro exI [of _ "[c]"]) simp
    next
      case False
      then have "utf8_at (c # p) = Some None" using v None by (simp add: not_less)
      then show ?thesis using False decodes_replacement [of c] by (intro exI [of _ "[239, 191, 189]"]) simp
    qed
    show ?thesis
    proof (cases "length out + length ?b + 2 > capacity")
      case True
      then show ?thesis using v None length_encoded [of c] by simp
    next
      case False
      then have r: "put capacity out ?b = Some (out @ ?b)" and room: "length (out @ ?b) + 2 \<le> capacity"
        by (simp_all add: put_def)
      have q: "quote_loop capacity (c # p) out = quote_loop capacity p (out @ ?b)"
        using v None False r by simp
      obtain t where s: "sanitize (c # p) = t @ sanitize p" and t: "decodes ?b t" using d by blast
      show ?thesis
        using "2.IH"(1) [OF v None _ r room] False t length_encoded [of c] unfolding q s
        by (auto dest: decodes_append)
    qed
  qed
qed

declare quote_loop.simps [simp del]

text \<open>The sanitized text is UTF-8, and UTF-8 text is its own sanitization.\<close>

lemma utf8_text_append: "scalar cp \<Longrightarrow> utf8_text t \<Longrightarrow> utf8_text (utf8_enc cp @ t)"
proof -
  assume "scalar cp" "utf8_text t"
  then obtain cps where "list_all scalar cps" "t = concat (map utf8_enc cps)" unfolding utf8_text_def by blast
  with \<open>scalar cp\<close> show ?thesis unfolding utf8_text_def by (intro exI [of _ "cp # cps"]) simp
qed

lemma utf8_text_Nil: "utf8_text []"
  unfolding utf8_text_def by (intro exI [of _ "[]"]) simp

lemma sanitize_utf8: "utf8_text (sanitize p)"
proof (induction p rule: sanitize.induct)
  case 1
  then show ?case by (simp add: utf8_text_Nil)
next
  case (2 c p)
  show ?case
  proof (cases "c < 128")
    case True
    then have "utf8_enc (unat c) = [c]" "scalar (unat c)" by (simp_all add: utf8_enc_def scalar_def word_less_nat_alt)
    then show ?thesis using utf8_text_append [of "unat c"] "2.IH"(1) True by simp
  next
    case hi: False
    show ?thesis
    proof (cases "\<exists>len. utf8_at (c # p) = Some (Some len)")
      case True
      then obtain len where u: "utf8_at (c # p) = Some (Some len)" by blast
      obtain cp where "scalar cp" "take len (c # p) = utf8_enc cp" using utf8_at_sound [OF u] by blast
      then show ?thesis using utf8_text_append [of cp] "2.IH" hi u by auto
    next
      case False
      then have u: "utf8_at (c # p) = Some None" using utf8_at_safe [of c p] by (metis not_Some_eq)
      have "scalar 65533" "utf8_enc 65533 = [239, 191, 189]" by (simp_all add: utf8_enc_def scalar_def)
      then show ?thesis using utf8_text_append [of 65533] "2.IH" hi u by auto
    qed
  qed
qed

lemma sanitize_enc: "scalar cp \<Longrightarrow> sanitize (utf8_enc cp @ t) = utf8_enc cp @ sanitize t"
proof (cases "cp < 128")
  case True
  then show ?thesis using utf8_enc_low [of cp] by simp
next
  case False
  assume sc: "scalar cp"
  have "128 \<le> cp" using False by simp
  then obtain c p where e: "utf8_enc cp = c # p" "128 \<le> c" using utf8_enc_high [OF sc] by blast
  have "utf8_at (c # p @ t) = Some (Some (length (utf8_enc cp)))"
    using utf8_at_complete [OF sc \<open>128 \<le> cp\<close>, of c "p @ t" t] e by simp
  then show ?thesis using e leD [OF e(2)] by simp
qed

lemma sanitize_id: "utf8_text t \<Longrightarrow> sanitize t = t"
proof -
  assume "utf8_text t"
  then obtain cps where "list_all scalar cps" "t = concat (map utf8_enc cps)" unfolding utf8_text_def by blast
  then show ?thesis by (induction cps arbitrary: t) (simp_all add: sanitize_enc)
qed

declare sanitize.simps [simp del]

lemma json_value_quoted: "decodes body t \<Longrightarrow> json_value (34 # body @ [34]) = Some t"
  by (simp add: json_value_def decodes_def)

lemma json_quote_cases:
  "(\<exists>q. airtizen_json_quote capacity (Some p) = Some (int (length q), q) \<and> length q < capacity \<and>
        json_value q = Some (sanitize p)) \<or>
   (airtizen_json_quote capacity (Some p) = Some (-1, []) \<and> capacity < 6 * length p + 3)"
proof (cases "capacity < 3")
  case True then show ?thesis by (simp add: airtizen_json_quote_def)
next
  case False
  have o: "put capacity [] [34 :: byte] = Some [34]" using False by (simp add: put_def)
  have "length [34 :: byte] + 2 \<le> capacity" using False by simp
  from quote_loop_spec [OF this, of p] show ?thesis
  proof
    assume "\<exists>body. quote_loop capacity p [34] = Some (Some ([34] @ body)) \<and> decodes body (sanitize p) \<and>
       length ([34] @ body) + 2 \<le> capacity"
    then obtain body where b: "quote_loop capacity p [34] = Some (Some (34 # body))" "decodes body (sanitize p)"
      "length body + 3 \<le> capacity" by auto
    have "airtizen_json_quote capacity (Some p) = Some (int (length (34 # body @ [34])), 34 # body @ [34])"
      using b False o by (simp add: airtizen_json_quote_def put_def)
    then show ?thesis using b json_value_quoted [OF b(2)] by (intro disjI1 exI [of _ "34 # body @ [34]"]) simp
  next
    assume "quote_loop capacity p [34] = Some None \<and> capacity < length [34 :: byte] + 6 * length p + 2"
    then show ?thesis using False o by (simp add: airtizen_json_quote_def)
  qed
qed

lemma json_quote_fits:
  "6 * length p + 3 \<le> capacity \<Longrightarrow>
     \<exists>q. airtizen_json_quote capacity (Some p) = Some (int (length q), q) \<and> length q < capacity \<and>
        json_value q = Some (sanitize p)"
  using json_quote_cases [of capacity p] by auto

section \<open>Properties\<close>

text \<open>
  Quoting any byte string into a buffer of any capacity is memory safe;
  it either fails with -1 and an empty output, which happens only when fewer than six bytes
  per input byte plus three are available, or returns the length of a literal that leaves
  room for its terminator and is a well-formed JSON string whose value is valid UTF-8.
\<close>

theorem json_quote_wellformed:
  "(airtizen_json_quote capacity (Some p) = Some (-1, []) \<and> capacity < 6 * length p + 3) \<or>
   (\<exists>q t. airtizen_json_quote capacity (Some p) = Some (int (length q), q) \<and> length q < capacity \<and>
      json_value q = Some t \<and> utf8_text t)"
  using json_quote_cases [of capacity p] sanitize_utf8 [of p] by blast



end
