(* ===== verification/Metadata.thy ===== *)
theory Metadata
  imports Airtizen_Prelude
begin

text \<open>
  Now-playing metadata (\<open>native/src/airtizen_metadata.c\<close>): the recursive parser of DMAP tagged
  data from the sender, the artwork store with its version counter, and the playback progress
  computed from 32-bit RTP timestamps. The theory shows that the parser never reads outside its
  input and always returns, that a rejected input changes nothing, that it inverts the DMAP
  encoding of every document nested at most eight deep, that progress is exact across
  timestamp wrap-around, and that artwork is only ever served for the version it was stored under.
\<close>

section \<open>State\<close>

text \<open>The character arrays hold C strings, so a field is the bytes before the first NUL.\<close>

record airtizen_metadata_state =
  title :: cstring
  artist :: cstring
  album :: cstring
  artwork_version :: u32
  progress :: u32
  total :: u32

text \<open>The static state of the module; \<open>artwork\<close> is \<open>None\<close> for a null pointer.\<close>

record metadata_module =
  md_state :: airtizen_metadata_state
  artwork :: "byte list option"
  artwork_mime :: cstring

definition metadata_zero :: airtizen_metadata_state where
  "metadata_zero = \<lparr>title = [], artist = [], album = [], artwork_version = 0, progress = 0, total = 0\<rparr>"

definition metadata_init :: metadata_module where
  "metadata_init = \<lparr>md_state = metadata_zero, artwork = None, artwork_mime = []\<rparr>"

definition ART_LIMIT :: nat where
  "ART_LIMIT = 512 * 1024"

section \<open>Operations\<close>

text \<open>Storing one item: the three tags that select a field, at most 255 bytes, terminated.\<close>

definition store_item :: "byte list \<Rightarrow> byte list \<Rightarrow> airtizen_metadata_state \<Rightarrow> airtizen_metadata_state" where
  "store_item tag value m =
     (let v = cstr (take 255 value) in
      if tag = str ''minm'' then m\<lparr>title := v\<rparr>
      else if tag = str ''asar'' then m\<lparr>artist := v\<rparr>
      else if tag = str ''asal'' then m\<lparr>album := v\<rparr>
      else m)"

definition is_container :: "byte list \<Rightarrow> bool" where
  "is_container tag \<longleftrightarrow> tag = str ''mlit'' \<or> tag = str ''mdcl''"

text \<open>The loop of \<open>parse\<close> at \<open>position\<close> of the buffer \<open>data\<close>; a nested call gets the sub-buffer of
  its container. The inner \<open>None\<close> is the return of -1.\<close>

function parse_loop ::
  "byte list \<Rightarrow> nat \<Rightarrow> nat \<Rightarrow> airtizen_metadata_state \<Rightarrow> airtizen_metadata_state option option" where
  "parse_loop data position depth m =
     (if position < length data then
        if length data - position < 8 then Some None
        else do {
          tag \<leftarrow> rdn data position 4;
          a \<leftarrow> rd data (position + 4); b \<leftarrow> rd data (position + 5);
          c \<leftarrow> rd data (position + 6); d \<leftarrow> rd data (position + 7);
          let len = unat (be32 a b c d);
          let position' = position + 8;
          if len > length data - position' then Some None
          else do {
            value \<leftarrow> rdn data position' len;
            r \<leftarrow> (if is_container tag
                 then if depth + 1 > 8 then Some None
                      else parse_loop (take len (drop (position + 8) data)) 0 (depth + 1) m
                 else Some (Some (store_item tag value m)));
            (case r of None \<Rightarrow> Some None | Some m' \<Rightarrow> parse_loop data (position + 8 + len) depth m')
          }
        }
      else Some (Some m))"
  by pat_completeness auto
termination
  by (relation "measure (\<lambda>(data, position, depth, m). length data - position)") auto

declare parse_loop.simps [simp del]

definition parse :: "byte list \<Rightarrow> nat \<Rightarrow> airtizen_metadata_state \<Rightarrow> airtizen_metadata_state option option" where
  "parse data depth m = (if depth > 8 then Some None else parse_loop data 0 depth m)"

definition airtizen_metadata_parse ::
  "metadata_module \<Rightarrow> byte list option \<Rightarrow> (int \<times> metadata_module) option" where
  "airtizen_metadata_parse s data_ptr =
     (case data_ptr of
        None \<Rightarrow> Some (-1, s)
      | Some data \<Rightarrow>
          if length data = 0 \<or> length data > 65536 then Some (-1, s)
          else do {
            r \<leftarrow> parse data 0 metadata_zero;
            (case r of
               None \<Rightarrow> Some (-1, s)
             | Some m \<Rightarrow>
                 Some (0, s\<lparr>md_state := (md_state s)\<lparr>title := title m, artist := artist m, album := album m\<rparr>\<rparr>))
          })"

definition png_signature :: "byte list" where
  "png_signature = [0x89, 0x50, 0x4e, 0x47, 0x0d, 0x0a, 0x1a, 0x0a]"

text \<open>\<open>alloc\<close> tells whether \<open>malloc\<close> succeeds.\<close>

definition airtizen_metadata_artwork ::
  "bool \<Rightarrow> metadata_module \<Rightarrow> byte list option \<Rightarrow> int \<times> metadata_module" where
  "airtizen_metadata_artwork alloc s data_ptr =
     (case data_ptr of
        None \<Rightarrow> (-1, s)
      | Some data \<Rightarrow>
          if length data < 8 \<or> length data > ART_LIMIT then (-1, s)
          else
            let mime = (if take 8 data = png_signature then Some (str ''image/png'')
                        else if data ! 0 = 0xff \<and> data ! 1 = 0xd8 \<and> data ! 2 = 0xff then Some (str ''image/jpeg'')
                        else None)
            in (case mime of
                  None \<Rightarrow> (-1, s)
                | Some mi \<Rightarrow>
                    if \<not> alloc then (-1, s)
                    else (0, s\<lparr>artwork := Some data, artwork_mime := mi,
                               md_state := (md_state s)\<lparr>artwork_version := artwork_version (md_state s) + 1\<rparr>\<rparr>)))"

definition airtizen_metadata_progress :: "metadata_module \<Rightarrow> u32 \<Rightarrow> u32 \<Rightarrow> u32 \<Rightarrow> metadata_module" where
  "airtizen_metadata_progress s start current end_ts =
     (let tot = end_ts - start; prog = current - start in
      if tot > 0x7fffffff \<or> prog > tot then s
      else s\<lparr>md_state := (md_state s)\<lparr>progress := prog, total := tot\<rparr>\<rparr>)"

definition airtizen_metadata_reset :: "metadata_module \<Rightarrow> metadata_module" where
  "airtizen_metadata_reset s =
     s\<lparr>md_state := metadata_zero\<lparr>artwork_version := artwork_version (md_state s) + 1\<rparr>, artwork := None\<rparr>"

definition airtizen_metadata_snapshot :: "metadata_module \<Rightarrow> airtizen_metadata_state" where
  "airtizen_metadata_snapshot s =
     (if artwork s = None then (md_state s)\<lparr>artwork_version := 0\<rparr> else md_state s)"

text \<open>The bytes and the type served, \<open>None\<close> for the size 0.\<close>

definition airtizen_metadata_copy_artwork :: "bool \<Rightarrow> metadata_module \<Rightarrow> u32 \<Rightarrow> (byte list \<times> cstring) option" where
  "airtizen_metadata_copy_artwork alloc s version =
     (case artwork s of
        None \<Rightarrow> None
      | Some data \<Rightarrow>
          if version = artwork_version (md_state s) \<and> length data \<noteq> 0 \<and> alloc
          then Some (data, artwork_mime s) else None)"

section \<open>The DMAP document and its encoding\<close>

datatype dmap = Item "byte list" "byte list" | Container bool "dmap list"

definition container_tag :: "bool \<Rightarrow> byte list" where
  "container_tag b = (if b then str ''mlit'' else str ''mdcl'')"

primrec enc_dmap :: "dmap \<Rightarrow> byte list" where
  "enc_dmap (Item tag value) = tag @ enc32 (length value) @ value"
| "enc_dmap (Container b ds) =
     (let body = concat (map enc_dmap ds) in container_tag b @ enc32 (length body) @ body)"

text \<open>Well-formed: four-byte tags, and an item does not carry a container's tag.\<close>

primrec wf_dmap :: "dmap \<Rightarrow> bool" where
  "wf_dmap (Item tag value) \<longleftrightarrow> length tag = 4 \<and> \<not> is_container tag"
| "wf_dmap (Container b ds) \<longleftrightarrow> list_all (\<lambda>x. x) (map wf_dmap ds)"

primrec height :: "dmap \<Rightarrow> nat" where
  "height (Item tag value) = 0"
| "height (Container b ds) = Suc (foldr max (map height ds) 0)"

text \<open>The fields a document leaves behind: a later item overrides an earlier one.\<close>

primrec collect :: "dmap \<Rightarrow> airtizen_metadata_state \<Rightarrow> airtizen_metadata_state" where
  "collect (Item tag value) = store_item tag value"
| "collect (Container b ds) = fold (\<lambda>f m. f m) (map collect ds)"

definition enc_doc :: "dmap list \<Rightarrow> byte list" where
  "enc_doc ds = concat (map enc_dmap ds)"

definition collect_doc :: "dmap list \<Rightarrow> airtizen_metadata_state \<Rightarrow> airtizen_metadata_state" where
  "collect_doc ds = fold collect ds"

lemma enc_doc_simps [simp]: "enc_doc [] = []" "enc_doc (d # ds) = enc_dmap d @ enc_doc ds"
  by (simp_all add: enc_doc_def)

lemma collect_doc_simps [simp]: "collect_doc [] m = m" "collect_doc (d # ds) m = collect_doc ds (collect d m)"
  by (simp_all add: collect_doc_def)

lemma collect_Container [simp]: "collect (Container b ds) = collect_doc ds"
  by (rule ext) (simp add: collect_doc_def fold_map o_def)

lemma enc_Container [simp]: "enc_dmap (Container b ds) = container_tag b @ enc32 (length (enc_doc ds)) @ enc_doc ds"
  by (simp add: enc_doc_def Let_def)

declare collect.simps(2) [simp del] enc_dmap.simps(2) [simp del]

lemma height_Container: "height (Container b ds) \<le> Suc n \<longleftrightarrow> (\<forall>d \<in> set ds. height d \<le> n)"
  by (induction ds) auto

lemma wf_Container: "wf_dmap (Container b ds) \<longleftrightarrow> (\<forall>d \<in> set ds. wf_dmap d)"
  by (simp add: list_all_iff)

declare height.simps(2) [simp del] wf_dmap.simps(2) [simp del]

section \<open>The parser is safe and total\<close>

text \<open>One turn of the loop with its reads resolved: the value length at \<open>position\<close> and the turn itself.\<close>

definition item_length :: "byte list \<Rightarrow> nat \<Rightarrow> nat" where
  "item_length data position = unat (be32 (data ! (position + 4)) (data ! (position + 5))
     (data ! (position + 6)) (data ! (position + 7)))"

lemma parse_loop_step:
  "parse_loop data position depth m =
     (if length data \<le> position then Some (Some m)
      else if length data < position + 8 \<or> length data < position + 8 + item_length data position then Some None
      else let len = item_length data position; tag = take 4 (drop position data);
               value = take len (drop (position + 8) data) in
        (case (if is_container tag then if depth + 1 > 8 then Some None else parse_loop value 0 (depth + 1) m
               else Some (Some (store_item tag value m))) of
           None \<Rightarrow> None
         | Some None \<Rightarrow> Some None
         | Some (Some m') \<Rightarrow> parse_loop data (position + 8 + len) depth m'))"
proof (cases "length data < position + 8 \<or> length data < position + 8 + item_length data position")
  case True
  then show ?thesis
    by (subst parse_loop.simps) (auto simp: Let_def mem_simps item_length_def)
next
  case False
  then have r: "rdn data position 4 = Some (take 4 (drop position data))"
    "rd data (position + 4) = Some (data ! (position + 4))"
    "rd data (position + 5) = Some (data ! (position + 5))" "rd data (position + 6) = Some (data ! (position + 6))"
    "rd data (position + 7) = Some (data ! (position + 7))"
    "rdn data (position + 8) (item_length data position) = Some (take (item_length data position) (drop (position + 8) data))"
    by (auto simp: mem_simps)
  have g: "position < length data" "\<not> length data - position < 8"
    "\<not> item_length data position > length data - (position + 8)" "\<not> length data \<le> position" using False by auto
  show ?thesis
    by (subst parse_loop.simps)
      (simp add: g r False Let_def item_length_def [symmetric] del: One_nat_def
        split: option.split)
qed

lemma parse_loop_safe: "\<exists>r. parse_loop data position depth m = Some r"
proof (induction "length data - position" arbitrary: data position depth m rule: less_induct)
  case less
  show ?case
  proof (cases "length data < position + 8 \<or> length data < position + 8 + item_length data position")
    case True
    then show ?thesis by (subst parse_loop_step) auto
  next
    case False
    let ?len = "item_length data position"
    have "\<exists>r. parse_loop (take ?len (drop (position + 8) data)) 0 (depth + 1) m = Some r"
      by (rule less) (use False in auto)
    moreover have "\<exists>r. parse_loop data (position + 8 + ?len) depth m' = Some r" for m'
      by (rule less) (use False in auto)
    ultimately show ?thesis using False
      by (subst parse_loop_step) (auto simp: Let_def split: option.split)
  qed
qed

text \<open>The fields stay C strings of at most 255 bytes, and the parser touches no other field.\<close>

definition metadata_fields_ok :: "airtizen_metadata_state \<Rightarrow> bool" where
  "metadata_fields_ok m \<longleftrightarrow> (\<forall>f \<in> {title m, artist m, album m}. length f \<le> 255 \<and> no_nul f)"

lemma store_item_ok: "metadata_fields_ok m \<Longrightarrow> metadata_fields_ok (store_item tag value m)"
  using length_cstr [of "take 255 value"]
  by (auto simp: metadata_fields_ok_def store_item_def Let_def)

lemma parse_loop_ok:
  "parse_loop data position depth m = Some (Some m') \<Longrightarrow> metadata_fields_ok m \<Longrightarrow> metadata_fields_ok m'"
proof (induction "length data - position" arbitrary: data position depth m m' rule: less_induct)
  case less
  show ?case
  proof (cases "length data < position + 8 \<or> length data < position + 8 + item_length data position")
    case True
    then show ?thesis using less.prems by (subst (asm) parse_loop_step) (auto split: if_splits)
  next
    case False
    let ?len = "item_length data position"
    let ?v = "take ?len (drop (position + 8) data)"
    have sub: "metadata_fields_ok n" if "parse_loop ?v 0 (depth + 1) m = Some (Some n)" for n
      by (rule less(1) [OF _ that less.prems(2)]) (use False in auto)
    have rest: "metadata_fields_ok m'" if "parse_loop data (position + 8 + ?len) depth n = Some (Some m')"
      "metadata_fields_ok n" for n
      by (rule less(1) [OF _ that]) (use False in auto)
    show ?thesis using less.prems False sub rest store_item_ok
      by (subst (asm) parse_loop_step)
        (auto simp: Let_def split: option.splits if_splits)
  qed
qed

section \<open>The parser inverts the encoding\<close>

lemma parse_loop_item:
  assumes tag: "length tag = 4" and v: "length val < 4294967296"
  shows "parse_loop (pre @ tag @ enc32 (length val) @ val @ post) (length pre) depth m =
    (case (if is_container tag then if depth + 1 > 8 then Some None else parse_loop val 0 (depth + 1) m
           else Some (Some (store_item tag val m))) of
       None \<Rightarrow> None
     | Some None \<Rightarrow> Some None
     | Some (Some m') \<Rightarrow>
         parse_loop ((pre @ tag @ enc32 (length val) @ val) @ post) (length (pre @ tag @ enc32 (length val) @ val))
           depth m')"
proof -
  let ?d = "pre @ tag @ enc32 (length val) @ val @ post"
  obtain t0 t1 t2 t3 where t: "tag = [t0, t1, t2, t3]"
    using tag by (auto simp: length_Suc_conv eval_nat_numeral)
  have "item_length ?d (length pre) = length val"
    unfolding item_length_def t using be32_enc32 [OF v]
    by (simp add: nth_append enc32_def)
  moreover have "take 4 (drop (length pre) ?d) = tag" by (simp add: t)
  moreover have "take (length val) (drop (length pre + 8) ?d) = val" by (simp add: t enc32_def)
  ultimately show ?thesis using tag
    by (subst parse_loop_step) (simp add: Let_def add.assoc split: option.split)
qed

lemma parse_loop_doc:
  assumes "\<forall>d \<in> set ds. wf_dmap d" "\<forall>d \<in> set ds. height d \<le> n" "depth + n \<le> 8" "length (enc_doc ds) < 4294967296"
  shows "parse_loop (pre @ enc_doc ds) (length pre) depth m = Some (Some (collect_doc ds m))"
  using assms
proof (induction "sum_list (map size ds) + length ds" arbitrary: ds n depth pre m rule: less_induct)
  case less
  show ?case
  proof (cases ds)
    case Nil
    then show ?thesis by (subst parse_loop_step) simp
  next
    case (Cons d ds')
    have rest: "parse_loop (pre' @ enc_doc ds') (length pre') depth m' = Some (Some (collect_doc ds' m'))" for pre' m'
      by (rule less(1)) (use less.prems Cons in auto)
    show ?thesis
    proof (cases d)
      case (Item tag val)
      then have "length tag = 4" "\<not> is_container tag" "length val < 4294967296"
        using less.prems Cons by auto
      then show ?thesis
        using rest [of "pre @ tag @ enc32 (length val) @ val"] parse_loop_item [of tag val pre "enc_doc ds'" depth m]
        by (simp add: Cons Item)
    next
      case (Container b es)
      have sz: "length (enc_doc es) < 4294967296" using less.prems(4) by (simp add: Cons Container)
      obtain k where k: "n = Suc k" using less.prems(2) by (cases n) (auto simp: Cons Container height.simps)
      have inner: "parse_loop ([] @ enc_doc es) (length ([] :: byte list)) (depth + 1) m = Some (Some (collect_doc es m))"
      proof (rule less(1) [of _ k])
        show "sum_list (map size es) + length es < sum_list (map size ds) + length ds"
          by (simp add: Cons Container size_list_conv_sum_list)
        show "\<forall>d \<in> set es. wf_dmap d" using less.prems(1) by (simp add: Cons Container wf_Container)
        show "\<forall>d \<in> set es. height d \<le> k" using less.prems(2)
          by (simp add: Cons Container k height_Container)
      qed (use less.prems k sz in auto)
      have "is_container (container_tag b)" "length (container_tag b) = 4"
        by (simp_all add: is_container_def container_tag_def)
      then show ?thesis
        using inner rest [of "pre @ container_tag b @ enc32 (length (enc_doc es)) @ enc_doc es"] less.prems(3) k
          parse_loop_item [of "container_tag b" "enc_doc es" pre "enc_doc ds'" depth m] sz
        by (simp add: Cons Container)
    qed
  qed
qed

section \<open>Histories of the module\<close>

datatype metadata_op =
    Parse "byte list option"
  | Artwork bool "byte list option"
  | Progress u32 u32 u32
  | Reset

definition metadata_step :: "metadata_op \<Rightarrow> metadata_module \<Rightarrow> metadata_module" where
  "metadata_step op s =
     (case op of
        Parse d \<Rightarrow> snd (the (airtizen_metadata_parse s d))
      | Artwork alloc d \<Rightarrow> snd (airtizen_metadata_artwork alloc s d)
      | Progress a b c \<Rightarrow> airtizen_metadata_progress s a b c
      | Reset \<Rightarrow> airtizen_metadata_reset s)"

text \<open>The image format of a payload and its media type.\<close>

definition artwork_ok :: "byte list \<Rightarrow> cstring \<Rightarrow> bool" where
  "artwork_ok data mime \<longleftrightarrow> 8 \<le> length data \<and> length data \<le> ART_LIMIT \<and>
     (if take 8 data = png_signature then mime = str ''image/png''
      else take 3 data = [0xff, 0xd8, 0xff] \<and> mime = str ''image/jpeg'')"

definition metadata_inv :: "metadata_module \<Rightarrow> bool" where
  "metadata_inv s \<longleftrightarrow> metadata_fields_ok (md_state s) \<and> progress (md_state s) \<le> total (md_state s) \<and>
     (case artwork s of None \<Rightarrow> True | Some data \<Rightarrow> artwork_ok data (artwork_mime s))"

lemma metadata_zero_ok [simp]: "metadata_fields_ok metadata_zero"
  by (simp add: metadata_zero_def metadata_fields_ok_def)

lemma metadata_parse_cases:
  "airtizen_metadata_parse s d = Some (-1, s) \<or>
   (\<exists>m. airtizen_metadata_parse s d =
      Some (0, s\<lparr>md_state := (md_state s)\<lparr>title := title m, artist := artist m, album := album m\<rparr>\<rparr>) \<and> metadata_fields_ok m)"
proof (cases d)
  case None then show ?thesis by (simp add: airtizen_metadata_parse_def)
next
  case (Some data)
  obtain r where r: "parse data 0 metadata_zero = Some r"
    using parse_loop_safe [of data 0 0] by (auto simp: parse_def)
  show ?thesis
  proof (cases r)
    case None
    then show ?thesis using r by (simp add: airtizen_metadata_parse_def Some)
  next
    case (Some m)
    then have "metadata_fields_ok m" using r parse_loop_ok by (auto simp: parse_def)
    then show ?thesis using r \<open>d = Some data\<close> Some by (auto simp: airtizen_metadata_parse_def)
  qed
qed

lemma take3: "3 \<le> length xs \<Longrightarrow> take 3 xs = [xs ! 0, xs ! 1, xs ! 2]"
  by (cases xs; cases "tl xs"; cases "tl (tl xs)") (auto simp: numeral_3_eq_3 numeral_2_eq_2)

lemma metadata_artwork_cases:
  "airtizen_metadata_artwork alloc s d = (-1, s) \<or>
   (\<exists>data mime. d = Some data \<and> alloc \<and> artwork_ok data mime \<and> airtizen_metadata_artwork alloc s d =
      (0, s\<lparr>artwork := Some data, artwork_mime := mime,
            md_state := (md_state s)\<lparr>artwork_version := artwork_version (md_state s) + 1\<rparr>\<rparr>))"
  by (cases d) (auto simp: airtizen_metadata_artwork_def artwork_ok_def take3 Let_def)

lemma metadata_step_inv:
  assumes "metadata_inv s"
  shows "metadata_inv (metadata_step op s)"
proof (cases op)
  case (Parse d)
  then show ?thesis using assms metadata_parse_cases [of s d]
    by (auto simp: metadata_step_def metadata_inv_def metadata_fields_ok_def split: option.split)
next
  case (Artwork alloc d)
  then show ?thesis using assms metadata_artwork_cases [of alloc s d]
    by (auto simp: metadata_step_def metadata_inv_def metadata_fields_ok_def split: option.split)
next
  case (Progress a b c)
  then show ?thesis using assms
    by (auto simp: metadata_step_def metadata_inv_def metadata_fields_ok_def airtizen_metadata_progress_def Let_def
      split: option.split)
next
  case Reset
  then show ?thesis
    by (simp add: metadata_step_def metadata_inv_def airtizen_metadata_reset_def metadata_zero_def metadata_fields_ok_def)
qed

interpretation metadata: guarded_component metadata_init metadata_step metadata_inv
proof
  show "metadata_inv metadata_init" by (simp add: metadata_inv_def metadata_init_def metadata_zero_def metadata_fields_ok_def)
qed (rule metadata_step_inv)

interpretation metadata_generation: generation_guard
  "\<lambda>s. artwork_version (md_state s)" airtizen_metadata_reset
  "\<lambda>s v. airtizen_metadata_copy_artwork True s v \<noteq> None"
  by unfold_locales
    (auto simp: airtizen_metadata_reset_def airtizen_metadata_copy_artwork_def split: option.splits if_splits)

section \<open>Properties\<close>

text \<open>Parsing a payload of any bytes never reads outside it and always
  returns. A rejected payload (result -1) leaves the whole module as it was; an accepted one (result
  0) replaces the three text fields by NUL-free strings of at most 255 bytes and nothing else.\<close>

theorem metadata_parse_total:
  "\<exists>r s'. airtizen_metadata_parse s d = Some (r, s') \<and>
     ((r = -1 \<and> s' = s) \<or>
      (r = 0 \<and> metadata_fields_ok (md_state s') \<and> artwork s' = artwork s \<and> artwork_mime s' = artwork_mime s \<and>
       artwork_version (md_state s') = artwork_version (md_state s) \<and>
       progress (md_state s') = progress (md_state s) \<and> total (md_state s') = total (md_state s)))"
  using metadata_parse_cases [of s d] by (auto simp: metadata_fields_ok_def)


definition sample_doc :: "dmap list" where
  "sample_doc = [Container True [Item (str ''minm'') (str ''Song''), Container False [Item (str ''asar'') (str ''Band'')],
     Item (str ''mper'') [1, 2], Item (str ''minm'') (str ''Tune'')]]"


text \<open>Playback progress is exact across the wrap-around of the 32-bit RTP
  clock: for a track of \<open>t\<close> ticks (below 2^31) of which \<open>c\<close> have been played, started at any
  timestamp, the module shows progress \<open>c\<close> of total \<open>t\<close> and changes nothing else.\<close>

theorem metadata_progress_exact:
  assumes "c \<le> t" and "t < 2 ^ 31"
  shows "airtizen_metadata_progress s start (start + of_nat c) (start + of_nat t) =
    s\<lparr>md_state := (md_state s)\<lparr>progress := of_nat c, total := of_nat t\<rparr>\<rparr>"
proof -
  have "unat (of_nat c :: u32) = c" "unat (of_nat t :: u32) = t" using assms by (simp_all add: unat_of_nat_u32)
  then have "\<not> (of_nat t :: u32) > 0x7fffffff" "\<not> (of_nat c :: u32) > of_nat t"
    using assms by (simp_all add: word_less_nat_alt)
  then show ?thesis by (simp add: airtizen_metadata_progress_def Let_def)
qed

theorem metadata_progress_exact_witness:
  "progress (md_state (airtizen_metadata_progress metadata_init 0xfffffff0 4 36)) = 20"
proof -
  have "(0xfffffff0 + of_nat 20 :: u32) = 4" "(0xfffffff0 + of_nat 52 :: u32) = 36" by code_simp+
  then have "airtizen_metadata_progress metadata_init 0xfffffff0 4 36 =
      metadata_init\<lparr>md_state := (md_state metadata_init)\<lparr>progress := of_nat 20, total := of_nat 52\<rparr>\<rparr>"
    using metadata_progress_exact [of 20 52 metadata_init "0xfffffff0"] by (simp only: ) simp
  then show ?thesis by simp
qed

text \<open>Over every history of operations, artwork is served only for the
  current version, it is an image the store accepted (8 bytes to 512 KiB, PNG or JPEG by its magic
  bytes, with the matching media type), and once a reset has retired it the old version is refused.\<close>

theorem metadata_artwork_served:
  assumes "airtizen_metadata_copy_artwork True (fold metadata_step ops metadata_init) v = Some (data, mime)"
  shows "v = artwork_version (md_state (fold metadata_step ops metadata_init)) \<and> artwork_ok data mime \<and>
    airtizen_metadata_copy_artwork True (airtizen_metadata_reset (fold metadata_step ops metadata_init)) v = None"
proof -
  let ?s = "fold metadata_step ops metadata_init"
  have "metadata_inv ?s" by (rule metadata.run_inv)
  then have v: "v = artwork_version (md_state ?s)" and "artwork_ok data mime"
    using assms by (auto simp: airtizen_metadata_copy_artwork_def metadata_inv_def split: option.splits if_splits)
  moreover have "airtizen_metadata_copy_artwork True (airtizen_metadata_reset ?s) v = None"
    using metadata_generation.stale_refused [of ?s] unfolding v by blast
  ultimately show ?thesis by blast
qed

theorem metadata_artwork_served_witness:
  "airtizen_metadata_copy_artwork True (airtizen_metadata_reset
     (fold metadata_step [Artwork True (Some (png_signature @ [7]))] metadata_init)) 1 = None"
proof -
  have "airtizen_metadata_copy_artwork True
     (fold metadata_step [Artwork True (Some (png_signature @ [7]))] metadata_init) 1 =
     Some (png_signature @ [7], str ''image/png'')"
    by (simp add: metadata_step_def metadata_init_def metadata_zero_def airtizen_metadata_artwork_def
      airtizen_metadata_copy_artwork_def ART_LIMIT_def png_signature_def)
  from metadata_artwork_served [OF this] show ?thesis by blast
qed

end
