(* ===== verification/Photo.thy ===== *)
theory Photo
  imports Airtizen_Prelude
begin

text \<open>
  The photo component (\<open>native/src/airtizen_photo.c\<close>): a cache of four images received from the
  sender, the header parser that bounds the decoded size of a JPEG or PNG before the TV browser
  sees it, and the state of the image on screen. The theory shows that the parser is memory safe,
  returns on every input, accepts only bounded images and finds the frame header behind any
  sequence of other segments; that over every history the cache stays within its slots and its
  16 MiB, holds one image per key and session and never evicts the image on screen; that a valid
  image is always accepted and shown byte for byte; and that caching never changes what is shown.
\<close>

section \<open>State\<close>

definition SLOTS :: nat where "SLOTS = 4"
definition CACHE_BYTES :: nat where "CACHE_BYTES = 16 * 1024 * 1024"
definition AIRTIZEN_PHOTO_MAX_BYTES :: nat where "AIRTIZEN_PHOTO_MAX_BYTES = 8 * 1024 * 1024"

record asset =
  as_data :: "byte list option"
  as_size :: nat
  as_width :: u32
  as_height :: u32
  as_age :: u64
  as_key :: cstring
  as_session :: cstring
  as_mime :: cstring

record airtizen_photo_state =
  ps_generation :: u32
  ps_width :: u32
  ps_height :: u32
  ps_session_id :: u32
  ps_active :: bool
  ps_dissolve :: bool
  ps_ready :: bool
  ps_failed :: bool
  ps_session :: cstring

text \<open>The static variables of the module; \<open>displayed = None\<close> is the source's -1.\<close>

record photo_module =
  cache :: "asset list"
  ph_state :: airtizen_photo_state
  displayed :: "nat option"
  age :: u64
  session_counter :: u32

definition empty_asset :: asset where
  "empty_asset = \<lparr>as_data = None, as_size = 0, as_width = 0, as_height = 0, as_age = 0, as_key = [],
     as_session = [], as_mime = []\<rparr>"

definition photo_zero :: airtizen_photo_state where
  "photo_zero = \<lparr>ps_generation = 0, ps_width = 0, ps_height = 0, ps_session_id = 0, ps_active = False,
     ps_dissolve = False, ps_ready = False, ps_failed = False, ps_session = []\<rparr>"

definition photo_init :: photo_module where
  "photo_init = \<lparr>cache = replicate SLOTS empty_asset, ph_state = photo_zero, displayed = None, age = 0,
     session_counter = 0\<rparr>"

section \<open>Operations\<close>

definition photo_identifier :: "cstring \<Rightarrow> nat \<Rightarrow> bool" where
  "photo_identifier s mx \<longleftrightarrow> length s \<le> mx \<and> list_all (\<lambda>c. 33 \<le> c \<and> c \<le> 126) s"

text \<open>The inner loop over fill bytes of the JPEG marker scan.\<close>

function skip_ff :: "byte list \<Rightarrow> nat \<Rightarrow> nat" where
  "skip_ff p pos = (if pos < length p \<and> p ! pos = 255 then skip_ff p (pos + 1) else pos)"
  by pat_completeness auto
termination by (relation "measure (\<lambda>(p, pos). length p - pos)") auto

declare skip_ff.simps [simp del]

lemma skip_ff_ge: "pos \<le> skip_ff p pos"
proof (induction p pos rule: skip_ff.induct)
  case (1 p pos)
  then show ?case by (subst skip_ff.simps) (auto dest: Suc_leD)
qed

text \<open>The marker scan: \<open>Some (Some (width, height))\<close> when a frame header is found, \<open>Some None\<close> for
  the return of -1 (leaving the loop without a frame header included).\<close>

function jpeg_loop :: "byte list \<Rightarrow> nat \<Rightarrow> (u32 \<times> u32) option option" where
  "jpeg_loop p pos =
     (if pos < length p then do {
        b \<leftarrow> rd p pos;
        if b \<noteq> 255 then Some None
        else let pos1 = skip_ff p (pos + 1) in
          if pos1 = length p then Some None
          else do {
            marker \<leftarrow> rd p pos1;
            if marker = 217 \<or> marker = 218 then Some None
            else if marker = 1 \<or> (208 \<le> marker \<and> marker \<le> 215) then jpeg_loop p (pos1 + 1)
            else if pos1 + 1 + 2 > length p then Some None
            else do {
              x \<leftarrow> rd p (pos1 + 1); y \<leftarrow> rd p (pos1 + 2);
              if be16 x y < 2 \<or> be16 x y > length p - (pos1 + 1) then Some None
              else if marker = 192 \<or> marker = 193 \<or> marker = 194 then
                if be16 x y < 8 then Some None
                else do {
                  precision \<leftarrow> rd p (pos1 + 3);
                  if precision \<noteq> 8 then Some None
                  else do {
                    h1 \<leftarrow> rd p (pos1 + 4); h0 \<leftarrow> rd p (pos1 + 5);
                    w1 \<leftarrow> rd p (pos1 + 6); w0 \<leftarrow> rd p (pos1 + 7);
                    Some (Some (of_nat (be16 w1 w0), of_nat (be16 h1 h0)))
                  }
                }
              else jpeg_loop p (pos1 + 1 + be16 x y)
            }
          }
      }
      else Some None)"
  by pat_completeness auto
termination
proof (relation "measure (\<lambda>(p, pos). length p - pos)", goal_cases)
  case (2 p pos x xa xb)
  then show ?case using skip_ff_ge [of "pos + 1" p] by auto
next
  case (3 p pos x xa xb xc xd)
  then show ?case using skip_ff_ge [of "pos + 1" p] by auto
qed auto

declare jpeg_loop.simps [simp del]

definition png_magic :: "byte list" where
  "png_magic = [0x89, 0x50, 0x4e, 0x47, 0x0d, 0x0a, 0x1a, 0x0a]"

definition size_allowed :: "u32 \<Rightarrow> u32 \<Rightarrow> bool" where
  "size_allowed w h \<longleftrightarrow> w \<noteq> 0 \<and> h \<noteq> 0 \<and> w \<le> 8192 \<and> h \<le> 8192 \<and> (ucast w * ucast h :: u64) \<le> 16000000"

text \<open>\<open>Some (Some (width, height, mime))\<close> is the return of 0.\<close>

definition dimensions :: "byte list \<Rightarrow> (u32 \<times> u32 \<times> cstring) option option" where
  "dimensions p =
     (if length p \<ge> 33 \<and> take 8 p = png_magic \<and> be32 (p ! 8) (p ! 9) (p ! 10) (p ! 11) = 13 \<and>
         take 4 (drop 12 p) = str ''IHDR'' then do {
        w3 \<leftarrow> rd p 16; w2 \<leftarrow> rd p 17; w1 \<leftarrow> rd p 18; w0 \<leftarrow> rd p 19;
        h3 \<leftarrow> rd p 20; h2 \<leftarrow> rd p 21; h1 \<leftarrow> rd p 22; h0 \<leftarrow> rd p 23;
        let w = be32 w3 w2 w1 w0; let h = be32 h3 h2 h1 h0;
        Some (if size_allowed w h then Some (w, h, str ''image/png'') else None)
      }
      else if length p \<ge> 4 \<and> p ! 0 = 255 \<and> p ! 1 = 216 then do {
        r \<leftarrow> jpeg_loop p 2;
        Some (case r of None \<Rightarrow> None
              | Some (w, h) \<Rightarrow> if size_allowed w h then Some (w, h, str ''image/jpeg'') else None)
      }
      else Some None)"

definition discard :: "nat \<Rightarrow> photo_module \<Rightarrow> photo_module" where
  "discard slot s = s\<lparr>cache := (cache s)[slot := empty_asset]\<rparr>"

definition occupied :: "photo_module \<Rightarrow> nat \<Rightarrow> bool" where
  "occupied s i \<longleftrightarrow> as_data (cache s ! i) \<noteq> None"

definition oldest :: "photo_module \<Rightarrow> nat option \<Rightarrow> nat option" where
  "oldest s except = fold
     (\<lambda>i result. if Some i \<noteq> except \<and> Some i \<noteq> displayed s \<and> occupied s i \<and>
                   (case result of None \<Rightarrow> True | Some j \<Rightarrow> as_age (cache s ! i) < as_age (cache s ! j))
                 then Some i else result) [0..<SLOTS] None"

definition find_slot :: "photo_module \<Rightarrow> cstring \<Rightarrow> cstring \<Rightarrow> nat option" where
  "find_slot s key session =
     find (\<lambda>i. occupied s i \<and> as_key (cache s ! i) = key \<and> as_session (cache s ! i) = session) [0..<SLOTS]"

definition free_slot :: "photo_module \<Rightarrow> nat option" where
  "free_slot s = find (\<lambda>i. \<not> occupied s i) [0..<SLOTS]"

text \<open>The eviction loop: \<open>False\<close> when no victim is left, which the source answers with 503.\<close>

partial_function (option) evict :: "nat \<Rightarrow> nat \<Rightarrow> photo_module \<Rightarrow> (bool \<times> photo_module) option" where
  "evict slot tot s =
     (if tot > CACHE_BYTES then
        (case oldest s (Some slot) of
           None \<Rightarrow> Some (False, s)
         | Some victim \<Rightarrow> evict slot (tot - as_size (cache s ! victim)) (discard victim s))
      else Some (True, s))"

definition others_size :: "photo_module \<Rightarrow> nat \<Rightarrow> nat" where
  "others_size s slot = sum_list (map (\<lambda>i. if i \<noteq> slot then as_size (cache s ! i) else 0) [0..<SLOTS])"

text \<open>Storing the copy: the choice of a slot, the eviction loop and the new entry.\<close>

definition store_photo ::
  "photo_module \<Rightarrow> nat option \<Rightarrow> byte list \<Rightarrow> u32 \<Rightarrow> u32 \<Rightarrow> cstring \<Rightarrow> cstring \<Rightarrow> cstring \<Rightarrow>
     (nat option \<times> photo_module) option" where
  "store_photo s found copy w h mime key session =
     (let slot1 = (case found of None \<Rightarrow> free_slot s | Some i \<Rightarrow> Some i);
          slot2 = (case slot1 of None \<Rightarrow> oldest s None | Some i \<Rightarrow> Some i)
      in case slot2 of
           None \<Rightarrow> Some (None, s)
         | Some slot \<Rightarrow> do {
             r \<leftarrow> evict slot (length copy + others_size s slot) s;
             (case r of
                (False, s1) \<Rightarrow> Some (None, s1)
              | (True, s1) \<Rightarrow>
                  Some (Some slot, s1\<lparr>cache := (cache s1)[slot :=
                    \<lparr>as_data = Some copy, as_size = length copy, as_width = w, as_height = h, as_age = 0,
                     as_key = key, as_session = session, as_mime = mime\<rparr>]\<rparr>))
           })"

definition touch :: "nat \<Rightarrow> photo_module \<Rightarrow> photo_module" where
  "touch slot s = s\<lparr>age := age s + 1, cache := (cache s)[slot := (cache s ! slot)\<lparr>as_age := age s + 1\<rparr>]\<rparr>"

definition show_photo :: "nat \<Rightarrow> cstring \<Rightarrow> cstring option \<Rightarrow> photo_module \<Rightarrow> photo_module" where
  "show_photo slot session transition s =
     (let st = ph_state s;
          fresh = (\<not> ps_active st \<or> ps_session st \<noteq> session);
          counter = (if fresh then (if session_counter s + 1 = 0 then 1 else session_counter s + 1)
                     else session_counter s)
      in s\<lparr>session_counter := counter, displayed := Some slot,
           ph_state := st\<lparr>ps_session_id := (if fresh then counter else ps_session_id st),
             ps_generation := ps_generation st + 1, ps_active := True, ps_ready := False, ps_failed := False,
             ps_width := as_width (cache s ! slot), ps_height := as_height (cache s ! slot),
             ps_dissolve := (transition = Some (str ''Dissolve'')), ps_session := session\<rparr>\<rparr>)"

text \<open>The arguments that are answered with 400 before the payload is looked at.\<close>

definition put_arguments_ok ::
  "cstring option \<Rightarrow> cstring \<Rightarrow> cstring \<Rightarrow> cstring option \<Rightarrow> bool" where
  "put_arguments_ok action key session transition \<longleftrightarrow>
     photo_identifier key 128 \<and> photo_identifier session 64 \<and>
     (case action of None \<Rightarrow> True
      | Some a \<Rightarrow> a = [] \<or> ((a = str ''cacheOnly'' \<or> a = str ''displayCached'') \<and> key \<noteq> [])) \<and>
     (case transition of None \<Rightarrow> True | Some t \<Rightarrow> t = [] \<or> t = str ''None'' \<or> t = str ''Dissolve'')"

text \<open>\<open>alloc\<close> tells whether \<open>malloc\<close> succeeds; null \<open>key\<close> and \<open>session\<close> are the empty string.\<close>

definition airtizen_photo_put ::
  "bool \<Rightarrow> cstring option \<Rightarrow> cstring option \<Rightarrow> cstring option \<Rightarrow> cstring option \<Rightarrow> byte list option \<Rightarrow> nat \<Rightarrow>
     photo_module \<Rightarrow> (nat \<times> photo_module) option" where
  "airtizen_photo_put alloc action key_ptr session_ptr transition data_ptr sz s =
     (let caching = (action = Some (str ''cacheOnly'')); cached = (action = Some (str ''displayCached''));
          key = (case key_ptr of None \<Rightarrow> [] | Some k \<Rightarrow> k);
          session = (case session_ptr of None \<Rightarrow> [] | Some k \<Rightarrow> k)
      in
      if \<not> put_arguments_ok action key session transition then Some (400, s)
      else if cached then
        if sz \<noteq> 0 then Some (400, s)
        else (case find_slot s key session of
                None \<Rightarrow> Some (412, s)
              | Some slot \<Rightarrow> Some (200, show_photo slot session transition (touch slot s)))
      else if sz > AIRTIZEN_PHOTO_MAX_BYTES then Some (413, s)
      else (case data_ptr of
              None \<Rightarrow> Some (400, s)
            | Some d \<Rightarrow> do {
                data \<leftarrow> rdn d 0 sz;
                dims \<leftarrow> dimensions data;
                (case dims of
                   None \<Rightarrow> Some (400, s)
                 | Some (w, h, mime) \<Rightarrow>
                     if \<not> alloc then Some (503, s)
                     else let found = find_slot s key session in
                       if caching \<and> found \<noteq> None \<and> found = displayed s then Some (200, s)
                       else do {
                         (slot_opt, s1) \<leftarrow> store_photo s found data w h mime key session;
                         (case slot_opt of
                            None \<Rightarrow> Some (503, s1)
                          | Some slot \<Rightarrow>
                              let s2 = touch slot s1 in
                              Some (200, if caching then s2 else show_photo slot session transition s2))
                       })
              }))"

definition airtizen_photo_reset :: "photo_module \<Rightarrow> photo_module" where
  "airtizen_photo_reset s =
     (fold discard [0..<SLOTS] s)\<lparr>displayed := None,
        ph_state := photo_zero\<lparr>ps_generation := ps_generation (ph_state s) + 1\<rparr>\<rparr>"

definition airtizen_photo_snapshot :: "photo_module \<Rightarrow> airtizen_photo_state" where
  "airtizen_photo_snapshot s = ph_state s"

text \<open>The inner \<open>None\<close> is the size 0: nothing is served.\<close>

definition airtizen_photo_copy :: "bool \<Rightarrow> u32 \<Rightarrow> photo_module \<Rightarrow> (byte list \<times> cstring) option option" where
  "airtizen_photo_copy alloc generation s =
     (if ps_active (ph_state s) \<and> ps_generation (ph_state s) = generation then
        (case displayed s of
           None \<Rightarrow> Some None
         | Some d \<Rightarrow>
             if \<not> alloc then Some None
             else do {
               a \<leftarrow> rd (cache s) d;
               buffer \<leftarrow> as_data a;
               bytes \<leftarrow> rdn buffer 0 (as_size a);
               Some (Some (bytes, as_mime a))
             })
      else Some None)"

definition airtizen_photo_report :: "u32 \<Rightarrow> bool \<Rightarrow> photo_module \<Rightarrow> int \<times> photo_module" where
  "airtizen_photo_report generation failed s =
     (if ps_active (ph_state s) \<and> ps_generation (ph_state s) = generation
      then (0, s\<lparr>ph_state := (ph_state s)\<lparr>ps_failed := failed, ps_ready := \<not> failed\<rparr>\<rparr>)
      else (-1, s))"

section \<open>The header parser\<close>

lemma skip_ff_le: "pos \<le> length p \<Longrightarrow> skip_ff p pos \<le> length p"
proof (induction p pos rule: skip_ff.induct)
  case (1 p pos)
  then show ?case by (subst skip_ff.simps) auto
qed

lemma skip_ff_stop: "pos < length p \<Longrightarrow> p ! pos \<noteq> 255 \<Longrightarrow> skip_ff p pos = pos"
  by (subst skip_ff.simps) simp

lemma skip_ff_bound:
  assumes "pos < length p" and "skip_ff p (pos + 1) \<noteq> length p"
  shows "skip_ff p (pos + 1) < length p"
  using assms skip_ff_le [of "pos + 1" p] by simp

definition frame_size :: "byte list \<Rightarrow> nat \<Rightarrow> u32 \<times> u32" where
  "frame_size p q = (of_nat (be16 (p ! (q + 6)) (p ! (q + 7))), of_nat (be16 (p ! (q + 4)) (p ! (q + 5))))"

text \<open>One turn of the marker scan with its reads resolved.\<close>

lemma jpeg_loop_step:
  "jpeg_loop p pos =
     (if length p \<le> pos \<or> p ! pos \<noteq> 255 then Some None
      else let q = skip_ff p (pos + 1); n = be16 (p ! (q + 1)) (p ! (q + 2)) in
        if q = length p \<or> p ! q = 217 \<or> p ! q = 218 then Some None
        else if p ! q = 1 \<or> (208 \<le> p ! q \<and> p ! q \<le> 215) then jpeg_loop p (q + 1)
        else if length p < q + 3 \<or> n < 2 \<or> length p < q + 1 + n then Some None
        else if p ! q = 192 \<or> p ! q = 193 \<or> p ! q = 194
        then if n < 8 \<or> p ! (q + 3) \<noteq> 8 then Some None else Some (Some (frame_size p q))
        else jpeg_loop p (q + 1 + n))"
proof (cases "pos < length p \<and> p ! pos = 255 \<and> skip_ff p (pos + 1) \<noteq> length p")
  case False
  then show ?thesis by (subst jpeg_loop.simps) (auto simp: rd_def Let_def)
next
  case base: True
  then have nl: "\<not> length p \<le> pos" by simp
  define q where "q = skip_ff p (pos + 1)"
  have q: "q < length p" "q \<noteq> length p" using base skip_ff_bound q_def by auto
  have r: "rd p pos = Some 255" "rd p q = Some (p ! q)" using base q by (simp_all add: rd_def)
  show ?thesis
  proof (cases "length p < q + 3")
    case far: True
    then have f: "q + 1 + 2 > length p" by simp
    show ?thesis
      by (subst jpeg_loop.simps) (simp only: Let_def q_def [symmetric] r q f far base nl bind.bind_lunit if_True if_False
        simp_thms not_le)
  next
    case False
    define n where "n = be16 (p ! (q + 1)) (p ! (q + 2))"
    have r1: "rd p (q + 1) = Some (p ! (q + 1))" "rd p (q + 2) = Some (p ! (q + 2))" using False by (simp_all add: rd_def)
    have f: "\<not> q + 1 + 2 > length p" using False by simp
    show ?thesis
    proof (cases "length p < q + 1 + n")
      case big: True
      then have "n > length p - (q + 1)" using q by linarith
      with big show ?thesis
        by (subst jpeg_loop.simps) (simp only: Let_def q_def [symmetric] n_def [symmetric] r r1 q f False base nl
          bind.bind_lunit if_True if_False simp_thms not_le)
    next
      case small: False
      then have g: "\<not> n > length p - (q + 1)" by simp
      have r2: "rd p (q + 3) = Some (p ! (q + 3))" "rd p (q + 4) = Some (p ! (q + 4))" "rd p (q + 5) = Some (p ! (q + 5))"
        "rd p (q + 6) = Some (p ! (q + 6))" "rd p (q + 7) = Some (p ! (q + 7))" if "\<not> n < 8"
        using small that by (simp_all add: rd_def)
      show ?thesis
      proof (cases "n < 8")
        case True
        then show ?thesis 
          by (subst jpeg_loop.simps) (simp only: Let_def q_def [symmetric] n_def [symmetric] r r1 q f g small False base nl
            bind.bind_lunit if_True if_False simp_thms not_le)
      next
        case n8: False
        show ?thesis
          by (subst jpeg_loop.simps) (simp only: Let_def q_def [symmetric] n_def [symmetric] r r1 r2 [OF n8] q f g small False
            base nl n8 bind.bind_lunit if_True if_False simp_thms not_le frame_size_def)
      qed
    qed
  qed
qed

lemma jpeg_loop_safe: "\<exists>r. jpeg_loop p pos = Some r"
proof (induction "length p - pos" arbitrary: pos rule: less_induct)
  case less
  have "\<exists>r. jpeg_loop p (skip_ff p (pos + 1) + 1 + n) = Some r" if "pos < length p" for n
    by (rule less) (use that skip_ff_ge [of "pos + 1" p] in auto)
  from this [of 0] this show ?case
    by (subst jpeg_loop_step) (simp add: Let_def del: One_nat_def)
qed

lemma dimensions_safe: "\<exists>r. dimensions p = Some r"
  using jpeg_loop_safe [of p 2] by (auto simp: dimensions_def rd_def Let_def)

lemma dimensions_bounds:
  "dimensions p = Some (Some (w, h, mime)) \<Longrightarrow>
     size_allowed w h \<and> 4 \<le> length p \<and> (mime = str ''image/png'' \<or> mime = str ''image/jpeg'')"
  by (auto simp: dimensions_def Let_def bind_eq_Some_conv split: if_splits option.splits)

lemma dimensions_jpeg:
  assumes "4 \<le> length p" "p ! 0 = 255" "p ! 1 = 216" "jpeg_loop p 2 = Some (Some (w, h))"
  shows "dimensions p = Some (if size_allowed w h then Some (w, h, str ''image/jpeg'') else None)"
proof -
  have "take 8 p \<noteq> png_magic"
  proof
    assume "take 8 p = png_magic"
    then have "take 8 p ! 0 = 0x89" by (simp add: png_magic_def)
    then show False using assms(1,2) by simp
  qed
  then show ?thesis using assms by (simp add: dimensions_def)
qed

lemma size_allowed_unat:
  "size_allowed w h \<longleftrightarrow> 0 < unat w \<and> 0 < unat h \<and> unat w \<le> 8192 \<and> unat h \<le> 8192 \<and> unat w * unat h \<le> 16000000"
proof -
  have "unat (ucast w * ucast h :: u64) = unat w * unat h"
  proof -
    have "unat w * unat h \<le> 4294967295 * 4294967295"
      using unat_u32_lt [of w] unat_u32_lt [of h] by (intro mult_le_mono) linarith+
    then show ?thesis by (simp add: unat_word_ariths)
  qed
  then show ?thesis
    by (simp add: size_allowed_def word_le_nat_alt unat_gt_0)
qed

text \<open>A JPEG segment other than a frame header, with its payload.\<close>

definition plain_marker :: "byte \<Rightarrow> bool" where
  "plain_marker m \<longleftrightarrow> m \<notin> {1, 192, 193, 194, 217, 218, 255} \<and> \<not> (208 \<le> m \<and> m \<le> 215)"

definition enc_segment :: "byte \<times> byte list \<Rightarrow> byte list" where
  "enc_segment sg = [255, fst sg] @ enc16 (length (snd sg) + 2) @ snd sg"

definition wf_segment :: "byte \<times> byte list \<Rightarrow> bool" where
  "wf_segment sg \<longleftrightarrow> plain_marker (fst sg) \<and> length (snd sg) + 2 < 65536"

definition enc_frame :: "byte \<Rightarrow> nat \<Rightarrow> nat \<Rightarrow> byte list \<Rightarrow> byte list" where
  "enc_frame sof w h tail = [255, sof] @ enc16 (length tail + 7) @ [8] @ enc16 h @ enc16 w @ tail"

lemma jpeg_loop_segment:
  assumes "wf_segment sg"
  shows "jpeg_loop (pre @ enc_segment sg @ post) (length pre) =
    jpeg_loop ((pre @ enc_segment sg) @ post) (length (pre @ enc_segment sg))"
proof -
  define p where "p = pre @ enc_segment sg @ post"
  obtain m v where sg: "sg = (m, v)" by (cases sg)
  have m: "plain_marker m" and v: "length v + 2 < 65536" using assms by (auto simp: wf_segment_def sg)
  have n: "p ! (length pre) = 255" "p ! (length pre + 1) = m" "p ! (length pre + 2) = of_nat ((length v + 2) div 256)"
    "p ! (length pre + 3) = of_nat ((length v + 2) mod 256)"
    by (simp_all add: p_def enc_segment_def sg nth_append enc16_def)
  have len: "length p = length pre + 4 + length v + length post" by (simp add: p_def enc_segment_def sg enc16_def)
  have sk: "skip_ff p (length pre + 1) = length pre + 1"
    by (rule skip_ff_stop) (use m n len in \<open>auto simp: plain_marker_def\<close>)
  have b: "be16 (of_nat ((length v + 2) div 256)) (of_nat ((length v + 2) mod 256)) = length v + 2"
    by (rule be16_enc16 [OF v])
  have e: "length pre + 1 + 1 = length pre + 2" "length pre + 1 + 2 = length pre + 3" by simp_all
  have "jpeg_loop p (length pre) = jpeg_loop p (length pre + 1 + 1 + (length v + 2))"
    apply (subst jpeg_loop_step)
    using m
    apply (simp only: Let_def sk e n b)
    apply (auto simp: plain_marker_def len)
    done
  also have "length pre + 1 + 1 + (length v + 2) = length (pre @ enc_segment sg)"
    by (simp add: enc_segment_def sg)
  finally show ?thesis by (simp add: p_def)
qed

lemma jpeg_loop_frame:
  assumes sof: "sof = 192 \<or> sof = 193 \<or> sof = 194" and w: "w < 65536" and h: "h < 65536" and t: "length tail + 7 < 65536" "tail \<noteq> []"
  shows "jpeg_loop (pre @ enc_frame sof w h tail @ post) (length pre) = Some (Some (of_nat w, of_nat h))"
proof -
  define p where "p = pre @ enc_frame sof w h tail @ post"
  let ?k = "length tail + 7"
  have n: "p ! (length pre) = 255" "p ! (length pre + 1) = sof" "p ! (length pre + 2) = of_nat (?k div 256)"
    "p ! (length pre + 3) = of_nat (?k mod 256)" "p ! (length pre + 4) = 8"
    "p ! (length pre + 5) = of_nat (h div 256)" "p ! (length pre + 6) = of_nat (h mod 256)"
    "p ! (length pre + 7) = of_nat (w div 256)" "p ! (length pre + 8) = of_nat (w mod 256)"
    by (simp_all add: p_def enc_frame_def nth_append enc16_def)
  have len: "length p = length pre + 9 + length tail + length post" by (simp add: p_def enc_frame_def enc16_def)
  have sk: "skip_ff p (length pre + 1) = length pre + 1"
    by (rule skip_ff_stop) (use sof n len in auto)
  have e: "length pre + 1 + 1 = length pre + 2" "length pre + 1 + 2 = length pre + 3" "length pre + 1 + 3 = length pre + 4"
    "length pre + 1 + 4 = length pre + 5" "length pre + 1 + 5 = length pre + 6" "length pre + 1 + 6 = length pre + 7"
    "length pre + 1 + 7 = length pre + 8" by simp_all
  have "0 < length tail" using t by simp
  then have "\<not> ?k < 8" "\<not> ?k < 2" "\<not> length p \<le> length pre" "length pre + 1 \<noteq> length p"
    "\<not> length p < length pre + 1 + 3" "\<not> length p < length pre + 2 + ?k"
    by (simp_all add: len)
  then show ?thesis unfolding p_def [symmetric]
    using sof
    by (subst jpeg_loop_step)
      (auto simp only: Let_def sk e n be16_enc16 [OF t(1)] be16_enc16 [OF w] be16_enc16 [OF h] frame_size_def; simp)
qed

lemma jpeg_loop_segments:
  assumes "list_all wf_segment sgs"
  shows "jpeg_loop (pre @ concat (map enc_segment sgs) @ post) (length pre) =
    jpeg_loop ((pre @ concat (map enc_segment sgs)) @ post) (length (pre @ concat (map enc_segment sgs)))"
  using assms
proof (induction sgs arbitrary: pre)
  case (Cons sg sgs)
  show ?case
    using jpeg_loop_segment [of sg pre "concat (map enc_segment sgs) @ post"] Cons.IH [of "pre @ enc_segment sg"] Cons.prems
    by simp
qed simp

section \<open>The cache\<close>

text \<open>What a slot holds: nothing, or an image that passed the header check with the recorded size.\<close>

definition asset_ok :: "asset \<Rightarrow> bool" where
  "asset_ok a \<longleftrightarrow> (case as_data a of
       None \<Rightarrow> as_size a = 0
     | Some d \<Rightarrow> as_size a = length d \<and> length d \<le> AIRTIZEN_PHOTO_MAX_BYTES \<and>
                dimensions d = Some (Some (as_width a, as_height a, as_mime a)))"

definition cache_bytes :: "photo_module \<Rightarrow> nat" where
  "cache_bytes s = (\<Sum>i<SLOTS. as_size (cache s ! i))"

definition one_per_key :: "photo_module \<Rightarrow> bool" where
  "one_per_key s \<longleftrightarrow> (\<forall>i<SLOTS. \<forall>j<SLOTS. occupied s i \<and> occupied s j \<and>
      as_key (cache s ! i) = as_key (cache s ! j) \<and> as_session (cache s ! i) = as_session (cache s ! j) \<longrightarrow> i = j)"

definition photo_inv :: "photo_module \<Rightarrow> bool" where
  "photo_inv s \<longleftrightarrow> length (cache s) = SLOTS \<and> (\<forall>i<SLOTS. asset_ok (cache s ! i)) \<and> one_per_key s \<and>
     cache_bytes s \<le> CACHE_BYTES \<and>
     (case displayed s of None \<Rightarrow> \<not> ps_active (ph_state s)
      | Some d \<Rightarrow> d < SLOTS \<and> occupied s d \<and> ps_active (ph_state s))"

lemma oldest_cases:
  "case oldest s e of
     None \<Rightarrow> \<forall>i<SLOTS. occupied s i \<longrightarrow> Some i = e \<or> Some i = displayed s
   | Some v \<Rightarrow> v < SLOTS \<and> Some v \<noteq> e \<and> Some v \<noteq> displayed s \<and> occupied s v"
proof -
  have "case oldest s e of None \<Rightarrow> \<forall>i<SLOTS. \<not> (Some i \<noteq> e \<and> Some i \<noteq> displayed s \<and> occupied s i)
     | Some v \<Rightarrow> v < SLOTS \<and> (Some v \<noteq> e \<and> Some v \<noteq> displayed s \<and> occupied s v) \<and>
         (\<forall>i<SLOTS. Some i \<noteq> e \<and> Some i \<noteq> displayed s \<and> occupied s i \<longrightarrow> as_age (cache s ! v) \<le> as_age (cache s ! i))"
    unfolding oldest_def
    using fold_least [where P = "\<lambda>i. Some i \<noteq> e \<and> Some i \<noteq> displayed s \<and> occupied s i" and f = "\<lambda>i. as_age (cache s ! i)" and n = SLOTS]
    by (simp only: conj_assoc)
  then show ?thesis by (auto split: option.splits)
qed

lemma others_size_sum: "others_size s slot = (\<Sum>i\<in>{..<SLOTS} - {slot}. as_size (cache s ! i))"
proof -
  have "others_size s slot = (\<Sum>i<SLOTS. if i \<noteq> slot then as_size (cache s ! i) else 0)"
    unfolding others_size_def by (simp add: interv_sum_list_conv_sum_set_nat lessThan_atLeast0)
  also have "\<dots> = (\<Sum>i\<in>{..<SLOTS} - {slot}. as_size (cache s ! i))"
    by (rule sum.mono_neutral_cong_right) auto
  finally show ?thesis .
qed

lemma cache_bytes_split: "slot < SLOTS \<Longrightarrow> cache_bytes s = as_size (cache s ! slot) + others_size s slot"
  unfolding cache_bytes_def others_size_sum by (rule sum.remove) auto

lemma discard_simps [simp]:
  "displayed (discard v s) = displayed s" "ph_state (discard v s) = ph_state s" "length (cache (discard v s)) = length (cache s)"
  "age (discard v s) = age s" "session_counter (discard v s) = session_counter s"
  by (simp_all add: discard_def)

lemma cache_discard: "length (cache s) = SLOTS \<Longrightarrow> i < SLOTS \<Longrightarrow>
    cache (discard v s) ! i = (if i = v then empty_asset else cache s ! i)"
  by (auto simp: discard_def nth_list_update)

lemma occupied_discard: "length (cache s) = SLOTS \<Longrightarrow> i < SLOTS \<Longrightarrow>
    occupied (discard v s) i \<longleftrightarrow> i \<noteq> v \<and> occupied s i"
  by (simp add: occupied_def cache_discard empty_asset_def)

lemma others_size_discard:
  assumes "length (cache s) = SLOTS" "v < SLOTS" "v \<noteq> slot"
  shows "others_size s slot = as_size (cache s ! v) + others_size (discard v s) slot"
proof -
  have "others_size s slot = as_size (cache s ! v) + (\<Sum>i\<in>{..<SLOTS} - {slot} - {v}. as_size (cache s ! i))"
    unfolding others_size_sum by (rule sum.remove) (use assms in auto)
  also have "(\<Sum>i\<in>{..<SLOTS} - {slot} - {v}. as_size (cache s ! i)) = others_size (discard v s) slot"
    unfolding others_size_sum
    by (rule sum.mono_neutral_cong_left) (use assms in \<open>auto simp: cache_discard empty_asset_def\<close>)
  finally show ?thesis .
qed

text \<open>When only the kept slot and the image on screen are left, at most 8 MiB remain beside it.\<close>

lemma others_size_no_victim:
  assumes ok: "\<forall>i<SLOTS. asset_ok (cache s ! i)" and none: "oldest s (Some slot) = None"
  shows "others_size s slot \<le> AIRTIZEN_PHOTO_MAX_BYTES"
proof -
  have z: "as_size (cache s ! i) = 0" if "i < SLOTS" "i \<noteq> slot" "displayed s \<noteq> Some i" for i
    using oldest_cases [of s "Some slot"] none that ok
    by (cases "as_data (cache s ! i)") (auto simp: asset_ok_def occupied_def split: option.splits)
  have le: "as_size (cache s ! i) \<le> AIRTIZEN_PHOTO_MAX_BYTES" if "i < SLOTS" for i
    using ok that by (auto simp: asset_ok_def split: option.splits)
  show ?thesis
  proof (cases "\<exists>d<SLOTS. displayed s = Some d \<and> d \<noteq> slot")
    case False
    then have "as_size (cache s ! i) = 0" if "i \<in> {..<SLOTS} - {slot}" for i
      using that z [of i] by blast
    then have "others_size s slot = 0" unfolding others_size_sum by simp
    then show ?thesis by simp
  next
    case True
    then obtain d where d: "d < SLOTS" "displayed s = Some d" "d \<noteq> slot" by blast
    have "others_size s slot = as_size (cache s ! d) + (\<Sum>i\<in>{..<SLOTS} - {slot} - {d}. as_size (cache s ! i))"
      unfolding others_size_sum by (rule sum.remove) (use d in auto)
    also have "(\<Sum>i\<in>{..<SLOTS} - {slot} - {d}. as_size (cache s ! i)) = 0" using z d by auto
    finally show ?thesis using le [OF d(1)] by simp
  qed
qed

definition spared :: "nat \<Rightarrow> photo_module \<Rightarrow> photo_module \<Rightarrow> bool" where
  "spared slot s s1 \<longleftrightarrow> s1 = s\<lparr>cache := cache s1\<rparr> \<and> length (cache s1) = length (cache s) \<and>
     (\<forall>i<SLOTS. cache s1 ! i = cache s ! i \<or> (cache s1 ! i = empty_asset \<and> i \<noteq> slot \<and> displayed s \<noteq> Some i))"

lemma spared_simps:
  assumes "spared slot s s1"
  shows "displayed s1 = displayed s" "ph_state s1 = ph_state s"
proof -
  obtain c where "s1 = s\<lparr>cache := c\<rparr>" using assms unfolding spared_def by blast
  then show "displayed s1 = displayed s" "ph_state s1 = ph_state s" by simp_all
qed

lemma spared_refl: "spared slot s s"
  by (simp add: spared_def)

lemma spared_discard:
  assumes "spared slot (discard v s) s1" "length (cache s) = SLOTS" "v \<noteq> slot" "displayed s \<noteq> Some v"
  shows "spared slot s s1"
proof -
  have "s1 = s\<lparr>cache := cache s1\<rparr>" using assms(1) unfolding spared_def
    by (metis (no_types, lifting) discard_def photo_module.surjective photo_module.update_convs(1))
  moreover have "cache s1 ! i = cache s ! i \<or> (cache s1 ! i = empty_asset \<and> i \<noteq> slot \<and> displayed s \<noteq> Some i)"
    if "i < SLOTS" for i
    using assms that by (cases "i = v") (auto simp: spared_def cache_discard)
  ultimately show ?thesis using assms by (simp add: spared_def)
qed

lemma card_occupied_discard:
  assumes "length (cache s) = SLOTS" "v < SLOTS" "occupied s v"
  shows "card {i. i < SLOTS \<and> occupied (discard v s) i} < card {i. i < SLOTS \<and> occupied s i}"
proof (rule psubset_card_mono)
  have "v \<in> {i. i < SLOTS \<and> occupied s i} - {i. i < SLOTS \<and> occupied (discard v s) i}"
    using assms by (simp add: occupied_discard)
  moreover have "{i. i < SLOTS \<and> occupied (discard v s) i} \<subseteq> {i. i < SLOTS \<and> occupied s i}"
    using assms(1) by (auto simp: occupied_discard)
  ultimately show "{i. i < SLOTS \<and> occupied (discard v s) i} \<subset> {i. i < SLOTS \<and> occupied s i}" by blast
qed simp

lemma asset_ok_empty [simp]: "asset_ok empty_asset"
  by (simp add: asset_ok_def empty_asset_def)

text \<open>The eviction loop ends, always makes room, and spares the kept slot and the image on screen.\<close>

lemma evict_succeeds:
  assumes "length (cache s) = SLOTS" "\<forall>i<SLOTS. asset_ok (cache s ! i)" "n \<le> AIRTIZEN_PHOTO_MAX_BYTES"
  shows "\<exists>s1. evict slot (n + others_size s slot) s = Some (True, s1) \<and> spared slot s s1 \<and>
    n + others_size s1 slot \<le> CACHE_BYTES"
  using assms
proof (induction "card {i. i < SLOTS \<and> occupied s i}" arbitrary: s rule: less_induct)
  case less
  show ?case
  proof (cases "n + others_size s slot > CACHE_BYTES")
    case False
    then show ?thesis using spared_refl by (subst evict.simps) auto
  next
    case True
    then obtain v where v: "oldest s (Some slot) = Some v"
      using others_size_no_victim [OF less.prems(2), of slot] less.prems(3)
      by (cases "oldest s (Some slot)") (auto simp: CACHE_BYTES_def AIRTIZEN_PHOTO_MAX_BYTES_def)
    then have v': "v < SLOTS" "v \<noteq> slot" "displayed s \<noteq> Some v" "occupied s v"
      using oldest_cases [of s "Some slot"] by auto
    have "\<exists>s1. evict slot (n + others_size (discard v s) slot) (discard v s) = Some (True, s1) \<and>
        spared slot (discard v s) s1 \<and> n + others_size s1 slot \<le> CACHE_BYTES"
      by (rule less(1)) (use less.prems v' in \<open>auto simp: cache_discard card_occupied_discard\<close>)
    moreover have "n + others_size s slot - as_size (cache s ! v) = n + others_size (discard v s) slot"
      using others_size_discard [OF less.prems(1) v'(1,2)] by simp
    ultimately show ?thesis using True v spared_discard [OF _ less.prems(1) v'(2,3)]
      by (subst evict.simps) auto
  qed
qed

section \<open>Storing and showing\<close>

definition new_asset :: "byte list \<Rightarrow> u32 \<Rightarrow> u32 \<Rightarrow> cstring \<Rightarrow> cstring \<Rightarrow> cstring \<Rightarrow> asset" where
  "new_asset copy w h mime key session = \<lparr>as_data = Some copy, as_size = length copy, as_width = w, as_height = h,
     as_age = 0, as_key = key, as_session = session, as_mime = mime\<rparr>"

lemma new_asset_simps [simp]:
  "as_data (new_asset c w h m k t) = Some c" "as_size (new_asset c w h m k t) = length c"
  "as_width (new_asset c w h m k t) = w" "as_height (new_asset c w h m k t) = h"
  "as_key (new_asset c w h m k t) = k" "as_session (new_asset c w h m k t) = t" "as_mime (new_asset c w h m k t) = m"
  by (simp_all add: new_asset_def)

lemma find_slot_cases:
  "case find_slot s key session of
     None \<Rightarrow> \<forall>i<SLOTS. occupied s i \<longrightarrow> \<not> (as_key (cache s ! i) = key \<and> as_session (cache s ! i) = session)
   | Some i \<Rightarrow> i < SLOTS \<and> occupied s i \<and> as_key (cache s ! i) = key \<and> as_session (cache s ! i) = session"
  by (auto simp: find_slot_def find_Some_iff find_None_iff split: option.split)

lemma free_slot_cases:
  "case free_slot s of None \<Rightarrow> \<forall>i<SLOTS. occupied s i | Some i \<Rightarrow> i < SLOTS \<and> \<not> occupied s i"
  by (auto simp: free_slot_def find_Some_iff find_None_iff split: option.split)

text \<open>A slot can always be chosen: with all four in use, one of them is not on screen.\<close>

lemma oldest_exists:
  assumes "\<forall>i<SLOTS. occupied s i"
  shows "oldest s None \<noteq> None"
proof
  assume "oldest s None = None"
  then have a: "Some i = displayed s" if "i < SLOTS" for i
    using oldest_cases [of s None] assms that by auto
  from a [of 0] a [of 1] have "Some 0 = Some (1::nat)" by (simp add: SLOTS_def)
  then show False by simp
qed

lemma store_photo_succeeds:
  assumes inv: "photo_inv s" and n: "length copy \<le> AIRTIZEN_PHOTO_MAX_BYTES"
    and found: "found = find_slot s key session"
  obtains slot s1 where
    "store_photo s found copy w h mime key session =
       Some (Some slot, s1\<lparr>cache := (cache s1)[slot := new_asset copy w h mime key session]\<rparr>)"
    "slot < SLOTS" "spared slot s s1" "length copy + others_size s1 slot \<le> CACHE_BYTES"
    "found = Some slot \<or> (found = None \<and> displayed s \<noteq> Some slot)"
proof -
  define slot2 where "slot2 = (case (case found of None \<Rightarrow> free_slot s | Some i \<Rightarrow> Some i) of
     None \<Rightarrow> oldest s None | Some i \<Rightarrow> Some i)"
  obtain slot where slot: "slot2 = Some slot" "slot < SLOTS" "found = Some slot \<or> (found = None \<and> displayed s \<noteq> Some slot)"
  proof (cases found)
    case (Some i)
    then show ?thesis using that [of i] find_slot_cases [of s key session] found by (auto simp: slot2_def)
  next
    case None
    show ?thesis
    proof (cases "free_slot s")
      case (Some i)
      then have "i < SLOTS" "\<not> occupied s i" using free_slot_cases [of s] by auto
      moreover from this have "displayed s \<noteq> Some i" using inv by (auto simp: photo_inv_def)
      ultimately show ?thesis using that [of i] None Some by (simp add: slot2_def)
    next
      case full: None
      then have "\<forall>i<SLOTS. occupied s i" using free_slot_cases [of s] by simp
      then obtain i where i: "oldest s None = Some i" using oldest_exists by blast
      then have "i < SLOTS" "displayed s \<noteq> Some i" using oldest_cases [of s None] by auto
      then show ?thesis using that [of i] None full i by (simp add: slot2_def)
    qed
  qed
  have l: "length (cache s) = SLOTS" "\<forall>i<SLOTS. asset_ok (cache s ! i)" using inv by (simp_all add: photo_inv_def)
  from evict_succeeds [OF l n, of slot] obtain s1 where s1: "evict slot (length copy + others_size s slot) s = Some (True, s1)"
    "spared slot s s1" "length copy + others_size s1 slot \<le> CACHE_BYTES" by blast
  have "store_photo s found copy w h mime key session =
       Some (Some slot, s1\<lparr>cache := (cache s1)[slot := new_asset copy w h mime key session]\<rparr>)"
    using slot(1) s1(1) by (simp add: store_photo_def slot2_def [symmetric] Let_def new_asset_def)
  from that [OF this slot(2) s1(2,3) slot(3)] show thesis .
qed

lemma occupied_spared:
  assumes "spared slot s s1" "i < SLOTS"
  shows "occupied s1 i \<Longrightarrow> occupied s i \<and> cache s1 ! i = cache s ! i"
  using assms by (auto simp: spared_def occupied_def empty_asset_def)

lemma photo_inv_store:
  assumes inv: "photo_inv s" and n: "length copy \<le> AIRTIZEN_PHOTO_MAX_BYTES"
    and d: "dimensions copy = Some (Some (w, h, mime))"
    and slot: "slot < SLOTS" "spared slot s s1" "length copy + others_size s1 slot \<le> CACHE_BYTES"
    and found: "find_slot s key session = Some slot \<or> (find_slot s key session = None \<and> displayed s \<noteq> Some slot)"
  defines "s' \<equiv> s1\<lparr>cache := (cache s1)[slot := new_asset copy w h mime key session]\<rparr>"
  shows "photo_inv s'"
proof -
  have l: "length (cache s1) = SLOTS" using inv slot by (simp add: photo_inv_def spared_def)
  have nth: "cache s' ! i = (if i = slot then new_asset copy w h mime key session else cache s1 ! i)" if "i < SLOTS" for i
    using that l by (simp add: s'_def nth_list_update)
  have ok: "asset_ok (cache s' ! i)" if i: "i < SLOTS" for i
  proof (cases "i = slot")
    case True
    then show ?thesis using n d nth [OF i] by (simp add: asset_ok_def)
  next
    case False
    have "cache s1 ! i = cache s ! i \<or> cache s1 ! i = empty_asset" using slot(2) i by (auto simp: spared_def)
    moreover have "asset_ok (cache s ! i)" using inv i by (simp add: photo_inv_def)
    ultimately show ?thesis using False nth [OF i] by auto
  qed
  have other: "occupied s i \<and> cache s' ! i = cache s ! i" if "i < SLOTS" "i \<noteq> slot" "occupied s' i" for i
    using occupied_spared [OF slot(2) that(1)] that nth [OF that(1)] by (simp add: occupied_def)
  have fresh: "\<not> (as_key (cache s ! i) = key \<and> as_session (cache s ! i) = session)" if "i < SLOTS" "i \<noteq> slot" "occupied s i" for i
    using find_slot_cases [of s key session] found that inv
    by (auto simp: photo_inv_def one_per_key_def split: option.splits)
  have uniq: "one_per_key s'"
    unfolding one_per_key_def
  proof (intro allI impI, elim conjE)
    fix i j assume ij: "i < SLOTS" "j < SLOTS" "occupied s' i" "occupied s' j"
      "as_key (cache s' ! i) = as_key (cache s' ! j)" "as_session (cache s' ! i) = as_session (cache s' ! j)"
    consider "i = slot" "j = slot" | "i = slot" "j \<noteq> slot" | "i \<noteq> slot" "j = slot" | "i \<noteq> slot" "j \<noteq> slot" by blast
    then show "i = j"
    proof cases
      case 2 then show ?thesis using other [of j] fresh [of j] ij nth [of i] by auto
    next
      case 3 then show ?thesis using other [of i] fresh [of i] ij nth [of j] by auto
    next
      case 4 then show ?thesis using other [of i] other [of j] ij inv
        by (auto simp: photo_inv_def one_per_key_def)
    qed simp
  qed
  have os: "others_size s' slot = others_size s1 slot"
    unfolding others_size_sum by (rule sum.cong) (auto simp: nth)
  have bytes: "cache_bytes s' \<le> CACHE_BYTES"
    using cache_bytes_split [OF slot(1), of s'] os slot(3) nth [OF slot(1)] by simp
  have disp: "displayed s' = displayed s" "ph_state s' = ph_state s"
    using spared_simps [OF slot(2)] by (simp_all add: s'_def)
  have occ: "occupied s' e" if "displayed s = Some e" for e
  proof -
    have "e < SLOTS" "occupied s e" using inv that by (auto simp: photo_inv_def)
    then show ?thesis using slot(2) that nth [of e] by (auto simp: spared_def occupied_def)
  qed
  show ?thesis using ok uniq bytes inv occ l disp
    by (auto simp: photo_inv_def s'_def split: option.splits)
qed

lemma cache_touch: "length (cache s) = SLOTS \<Longrightarrow> i < SLOTS \<Longrightarrow>
    cache (touch slot s) ! i = (if i = slot then (cache s ! slot)\<lparr>as_age := age s + 1\<rparr> else cache s ! i)"
  by (auto simp: touch_def nth_list_update)

lemma touch_simps [simp]: "displayed (touch slot s) = displayed s" "ph_state (touch slot s) = ph_state s"
  "length (cache (touch slot s)) = length (cache s)"
  by (simp_all add: touch_def)

lemma photo_inv_touch:
  assumes "photo_inv s"
  shows "photo_inv (touch slot s)"
proof -
  have l: "length (cache s) = SLOTS" using assms by (simp add: photo_inv_def)
  have f: "as_data (cache (touch slot s) ! i) = as_data (cache s ! i)" "as_size (cache (touch slot s) ! i) = as_size (cache s ! i)"
    "as_key (cache (touch slot s) ! i) = as_key (cache s ! i)" "as_session (cache (touch slot s) ! i) = as_session (cache s ! i)"
    "as_width (cache (touch slot s) ! i) = as_width (cache s ! i)" "as_height (cache (touch slot s) ! i) = as_height (cache s ! i)"
    "as_mime (cache (touch slot s) ! i) = as_mime (cache s ! i)" if "i < SLOTS" for i
    using cache_touch [OF l that, of slot] by simp_all
  have "occupied (touch slot s) i = occupied s i" if "i < SLOTS" for i using f [OF that] by (simp add: occupied_def)
  moreover have "cache_bytes (touch slot s) = cache_bytes s"
    unfolding cache_bytes_def by (rule sum.cong) (simp_all add: f)
  ultimately show ?thesis using assms f
    by (auto simp: photo_inv_def one_per_key_def asset_ok_def split: option.splits)
qed

lemma show_photo_simps [simp]:
  "cache (show_photo slot session t s) = cache s" "displayed (show_photo slot session t s) = Some slot"
  "ps_active (ph_state (show_photo slot session t s))"
  "ps_generation (ph_state (show_photo slot session t s)) = ps_generation (ph_state s) + 1"
  by (simp_all add: show_photo_def Let_def)

lemma occupied_show [simp]: "occupied (show_photo slot session t s) i = occupied s i"
  by (simp add: occupied_def)

lemma photo_inv_show: "photo_inv s \<Longrightarrow> slot < SLOTS \<Longrightarrow> occupied s slot \<Longrightarrow> photo_inv (show_photo slot session t s)"
  by (auto simp: photo_inv_def one_per_key_def cache_bytes_def)

lemma find_slot_unique:
  assumes "photo_inv s" "i < SLOTS" "occupied s i"
  shows "find_slot s (as_key (cache s ! i)) (as_session (cache s ! i)) = Some i"
  using find_slot_cases [of s "as_key (cache s ! i)" "as_session (cache s ! i)"] assms
  by (auto simp: photo_inv_def one_per_key_def split: option.splits)

text \<open>What is served, for a state that satisfies the invariant.\<close>

lemma photo_copy_eq:
  assumes "photo_inv s"
  shows "airtizen_photo_copy True g s = Some (case displayed s of None \<Rightarrow> None
     | Some d \<Rightarrow> if ps_generation (ph_state s) = g then Some (the (as_data (cache s ! d)), as_mime (cache s ! d)) else None)"
  using assms by (auto simp: airtizen_photo_copy_def photo_inv_def asset_ok_def occupied_def rd_def rdn_def split: option.splits)

text \<open>What the storing branch of the upload does: the image is in \<open>slot\<close>, the rest of what is on screen
  is untouched.\<close>

definition stored :: "photo_module \<Rightarrow> photo_module \<Rightarrow> nat \<Rightarrow> byte list \<Rightarrow> cstring \<Rightarrow> cstring \<Rightarrow> cstring \<Rightarrow> bool" where
  "stored s s2 slot copy mime key session \<longleftrightarrow> photo_inv s2 \<and> slot < SLOTS \<and> occupied s2 slot \<and>
     displayed s2 = displayed s \<and> ph_state s2 = ph_state s \<and>
     as_data (cache s2 ! slot) = Some copy \<and> as_mime (cache s2 ! slot) = mime \<and>
     as_key (cache s2 ! slot) = key \<and> as_session (cache s2 ! slot) = session \<and>
     (\<forall>e. displayed s = Some e \<and> e \<noteq> slot \<longrightarrow> cache s2 ! e = cache s ! e)"

lemma photo_put_store:
  assumes inv: "photo_inv s"
    and args: "put_arguments_ok action (case k of None \<Rightarrow> [] | Some x \<Rightarrow> x) (case t of None \<Rightarrow> [] | Some x \<Rightarrow> x) tr"
    and act: "action \<noteq> Some (str ''displayCached'')"
    and n: "length copy \<le> AIRTIZEN_PHOTO_MAX_BYTES" and d: "dimensions copy = Some (Some (w, h, mime))"
    and nd: "action = Some (str ''cacheOnly'') \<Longrightarrow> displayed s \<noteq> None \<Longrightarrow>
       find_slot s (case k of None \<Rightarrow> [] | Some x \<Rightarrow> x) (case t of None \<Rightarrow> [] | Some x \<Rightarrow> x) \<noteq> displayed s"
  shows "\<exists>slot s2. airtizen_photo_put True action k t tr (Some copy) (length copy) s =
      Some (200, if action = Some (str ''cacheOnly'') then s2
                 else show_photo slot (case t of None \<Rightarrow> [] | Some x \<Rightarrow> x) tr s2) \<and>
    stored s s2 slot copy mime (case k of None \<Rightarrow> [] | Some x \<Rightarrow> x) (case t of None \<Rightarrow> [] | Some x \<Rightarrow> x) \<and>
    (action = Some (str ''cacheOnly'') \<longrightarrow> displayed s \<noteq> Some slot)"
proof -
  define key where "key = (case k of None \<Rightarrow> [] | Some x \<Rightarrow> x)"
  define session where "session = (case t of None \<Rightarrow> [] | Some x \<Rightarrow> x)"
  define found where "found = find_slot s key session"
  from store_photo_succeeds [OF inv n found_def, of w h mime] obtain slot s1 where
    st: "store_photo s found copy w h mime key session =
       Some (Some slot, s1\<lparr>cache := (cache s1)[slot := new_asset copy w h mime key session]\<rparr>)"
    and sl: "slot < SLOTS" and sp: "spared slot s s1" and by8: "length copy + others_size s1 slot \<le> CACHE_BYTES"
    and fd: "found = Some slot \<or> (found = None \<and> displayed s \<noteq> Some slot)" .
  define s' where "s' = s1\<lparr>cache := (cache s1)[slot := new_asset copy w h mime key session]\<rparr>"
  have inv': "photo_inv s'" unfolding s'_def
    using photo_inv_store [OF inv n d sl sp by8] fd unfolding found_def by blast
  have l: "length (cache s1) = SLOTS" "length (cache s') = SLOTS"
    using inv inv' sp by (simp_all add: photo_inv_def spared_def)
  have at_slot: "cache (touch slot s') ! slot = (new_asset copy w h mime key session)\<lparr>as_age := age s' + 1\<rparr>"
    using cache_touch [OF l(2) sl, of slot] l sl by (simp add: s'_def)
  have put: "airtizen_photo_put True action k t tr (Some copy) (length copy) s =
      Some (200, if action = Some (str ''cacheOnly'') then touch slot s' else show_photo slot session tr (touch slot s'))"
    using args act n d nd st fd
    by (auto simp: airtizen_photo_put_def Let_def key_def [symmetric] session_def [symmetric] found_def [symmetric]
        s'_def [symmetric] rdn_def)
  have kept: "cache (touch slot s') ! e = cache s ! e" if e: "displayed s = Some e" "e \<noteq> slot" for e
  proof -
    have "e < SLOTS" "occupied s e" using inv e by (auto simp: photo_inv_def)
    then show ?thesis using sp e l cache_touch [OF l(2), of e slot] by (auto simp: spared_def s'_def)
  qed
  have "stored s (touch slot s') slot copy mime key session" unfolding stored_def
    using at_slot spared_simps [OF sp] photo_inv_touch [OF inv'] sl kept by (simp add: s'_def occupied_def)
  moreover have "action = Some (str ''cacheOnly'') \<longrightarrow> displayed s \<noteq> Some slot"
    using nd fd by (auto simp: key_def session_def found_def)
  ultimately show ?thesis using put unfolding key_def session_def by blast
qed

text \<open>The branch that shows a cached image.\<close>

lemma photo_put_cached:
  assumes inv: "photo_inv s" and slot: "find_slot s key session = Some slot"
    and args: "put_arguments_ok (Some (str ''displayCached'')) key session tr"
  shows "airtizen_photo_put alloc (Some (str ''displayCached'')) (Some key) (Some session) tr d 0 s =
      Some (200, show_photo slot session tr (touch slot s))"
    and "photo_inv (show_photo slot session tr (touch slot s))"
proof -
  show "airtizen_photo_put alloc (Some (str ''displayCached'')) (Some key) (Some session) tr d 0 s =
      Some (200, show_photo slot session tr (touch slot s))"
    using args slot by (simp add: airtizen_photo_put_def)
  have sl: "slot < SLOTS" "occupied s slot" using find_slot_cases [of s key session] slot by simp_all
  moreover have "occupied (touch slot s) slot"
    using sl inv cache_touch [of s slot slot] by (simp add: occupied_def photo_inv_def)
  ultimately show "photo_inv (show_photo slot session tr (touch slot s))"
    by (intro photo_inv_show photo_inv_touch inv)
qed

lemma photo_put_total:
  assumes inv: "photo_inv s" and sz: "\<And>x. d = Some x \<Longrightarrow> sz = length x"
  shows "\<exists>r s'. airtizen_photo_put alloc action k t tr d sz s = Some (r, s') \<and> photo_inv s'"
proof -
  let ?key = "case k of None \<Rightarrow> [] | Some x \<Rightarrow> x" and ?ses = "case t of None \<Rightarrow> [] | Some x \<Rightarrow> x"
  let ?put = "airtizen_photo_put alloc action k t tr d sz s"
  consider (bad) "\<not> put_arguments_ok action ?key ?ses tr"
    | (shown) "put_arguments_ok action ?key ?ses tr" "action = Some (str ''displayCached'')"
    | (upload) "put_arguments_ok action ?key ?ses tr" "action \<noteq> Some (str ''displayCached'')" by blast
  then show ?thesis
  proof cases
    case bad
    then have "?put = Some (400, s)" by (simp add: airtizen_photo_put_def)
    then show ?thesis using inv by blast
  next
    case shown
    show ?thesis
    proof (cases "sz \<noteq> 0 \<or> find_slot s ?key ?ses = None")
      case True
      then have "\<exists>r. ?put = Some (r, s)" using shown by (auto simp: airtizen_photo_put_def Let_def)
      then show ?thesis using inv by blast
    next
      case False
      then obtain slot where slot: "find_slot s ?key ?ses = Some slot" by blast
      have "?put = Some (200, show_photo slot ?ses tr (touch slot s))"
        using shown slot False by (simp add: airtizen_photo_put_def)
      then show ?thesis using photo_put_cached(2) [OF inv slot] shown by auto
    qed
  next
    case upload
    show ?thesis
    proof (cases d)
      case None
      then have "\<exists>r. ?put = Some (r, s)" using upload by (simp add: airtizen_photo_put_def Let_def)
      then show ?thesis using inv by blast
    next
      case (Some x)
      then have x: "d = Some x" "sz = length x" using sz by blast+
      obtain r where r: "dimensions x = Some r" using dimensions_safe by blast
      let ?refused = "\<not> alloc \<or> r = None \<or> sz > AIRTIZEN_PHOTO_MAX_BYTES \<or>
        (action = Some (str ''cacheOnly'') \<and> displayed s \<noteq> None \<and> find_slot s ?key ?ses = displayed s)"
      show ?thesis
      proof (cases ?refused)
        case True
        then have "\<exists>r. ?put = Some (r, s)" using upload x r
          by (auto simp: airtizen_photo_put_def rdn_def Let_def split: option.split)
        then show ?thesis using inv by blast
      next
        case False
        then obtain w h mime where whm: "r = Some (w, h, mime)" and n: "length x \<le> AIRTIZEN_PHOTO_MAX_BYTES" and alloc
          using x by auto
        from photo_put_store [OF inv upload n r [unfolded whm]] False obtain slot s2 where
          "airtizen_photo_put True action k t tr (Some x) (length x) s =
            Some (200, if action = Some (str ''cacheOnly'') then s2 else show_photo slot ?ses tr s2)"
          "stored s s2 slot x mime ?key ?ses" by metis
        then show ?thesis using x \<open>alloc\<close> photo_inv_show by (auto simp: stored_def)
      qed
    qed
  qed
qed

section \<open>Histories of the module\<close>

text \<open>An upload passes a buffer with its own length; only a null buffer can come with any size.\<close>

datatype photo_op =
    Put bool "cstring option" "cstring option" "cstring option" "cstring option" "byte list option" nat
  | Reset
  | Report u32 bool

definition photo_step :: "photo_op \<Rightarrow> photo_module \<Rightarrow> photo_module" where
  "photo_step op s = (case op of
       Put alloc action k t tr d sz \<Rightarrow>
         snd (the (airtizen_photo_put alloc action k t tr d (case d of None \<Rightarrow> sz | Some x \<Rightarrow> length x) s))
     | Reset \<Rightarrow> airtizen_photo_reset s
     | Report g failed \<Rightarrow> snd (airtizen_photo_report g failed s))"

lemma fold_discard:
  "fold discard [0..<n] s = s\<lparr>cache := fold (\<lambda>i c. c[i := empty_asset]) [0..<n] (cache s)\<rparr>"
  by (induction n) (simp_all add: discard_def)

lemma fold_update:
  "n \<le> length c \<Longrightarrow> fold (\<lambda>i c. c[i := x]) [0..<n] c = replicate n x @ drop n c"
proof (induction n)
  case (Suc n)
  then have "drop n c = c ! n # drop (Suc n) c" by (simp add: Cons_nth_drop_Suc)
  with Suc show ?case by (simp add: list_update_append replicate_append_same)
qed simp

lemma photo_reset_eq:
  assumes "length (cache s) = SLOTS"
  shows "airtizen_photo_reset s = s\<lparr>cache := replicate SLOTS empty_asset, displayed := None,
     ph_state := photo_zero\<lparr>ps_generation := ps_generation (ph_state s) + 1\<rparr>\<rparr>"
  using assms by (simp add: airtizen_photo_reset_def fold_discard fold_update)

lemma photo_inv_empty:
  "cache s = replicate SLOTS empty_asset \<Longrightarrow> displayed s = None \<Longrightarrow> \<not> ps_active (ph_state s) \<Longrightarrow> photo_inv s"
  by (simp add: photo_inv_def one_per_key_def cache_bytes_def occupied_def) (simp add: empty_asset_def)

lemma photo_step_inv:
  assumes "photo_inv s"
  shows "photo_inv (photo_step op s)"
proof (cases op)
  case (Put alloc action k t tr d sz)
  have "\<exists>r s'. airtizen_photo_put alloc action k t tr d (case d of None \<Rightarrow> sz | Some x \<Rightarrow> length x) s = Some (r, s') \<and> photo_inv s'"
    by (rule photo_put_total [OF assms]) simp
  then show ?thesis by (auto simp: Put photo_step_def)
next
  case Reset
  have "length (cache s) = SLOTS" using assms by (simp add: photo_inv_def)
  then show ?thesis by (simp add: Reset photo_step_def photo_reset_eq photo_inv_empty photo_zero_def)
next
  case (Report g failed)
  then show ?thesis using assms
    by (auto simp: photo_step_def airtizen_photo_report_def photo_inv_def one_per_key_def cache_bytes_def occupied_def
        split: option.splits)
qed

interpretation photo: guarded_component photo_init photo_step photo_inv
proof
  show "photo_inv photo_init" by (rule photo_inv_empty) (simp_all add: photo_init_def photo_zero_def)
qed (rule photo_step_inv)

interpretation photo_generation: generation_guard "\<lambda>s. ps_generation (ph_state s)" airtizen_photo_reset
  "\<lambda>s g. fst (airtizen_photo_report g failed s) = 0"
  by unfold_locales (auto simp: airtizen_photo_reset_def airtizen_photo_report_def split: if_splits)

section \<open>Properties\<close>

text \<open>The image header parser never reads outside the payload and returns
  on every byte string; an accepted image has a PNG or JPEG type, sides between 1 and 8192 pixels and
  at most 16 million pixels.\<close>

theorem photo_dimensions_safe:
  "case dimensions p of
     None \<Rightarrow> False
   | Some None \<Rightarrow> True
   | Some (Some (w, h, mime)) \<Rightarrow> 0 < unat w \<and> 0 < unat h \<and> unat w \<le> 8192 \<and> unat h \<le> 8192 \<and>
       unat w * unat h \<le> 16000000 \<and> (mime = str ''image/png'' \<or> mime = str ''image/jpeg'')"
proof -
  obtain r where r: "dimensions p = Some r" using dimensions_safe by blast
  show ?thesis
  proof (cases r)
    case (Some t)
    obtain w h mime where "t = (w, h, mime)" by (cases t)
    then show ?thesis using r Some dimensions_bounds [of p w h mime] by (simp add: size_allowed_unat)
  qed (simp add: r)
qed

text \<open>The scan finds the frame header of a JPEG behind any sequence of other
  well-formed segments (tables, application data, comments of any length) and reads its size: the
  result is the encoded width and height when they are within the limits and a refusal when they are
  not, whatever bytes follow.\<close>

theorem photo_jpeg_exact:
  assumes "list_all wf_segment sgs" and "sof = 192 \<or> sof = 193 \<or> sof = 194" and "w < 65536" and "h < 65536"
    and "tail \<noteq> []" and "length tail + 7 < 65536"
  shows "dimensions ([255, 216] @ concat (map enc_segment sgs) @ enc_frame sof w h tail @ rest) =
    Some (if 0 < w \<and> 0 < h \<and> w \<le> 8192 \<and> h \<le> 8192 \<and> w * h \<le> 16000000
          then Some (of_nat w, of_nat h, str ''image/jpeg'') else None)"
proof -
  let ?p = "[255, 216] @ concat (map enc_segment sgs) @ enc_frame sof w h tail @ rest"
  have two: "length [255, 216 :: byte] = 2" by simp
  have "jpeg_loop ?p (length [255, 216 :: byte]) = Some (Some (of_nat w, of_nat h))"
    unfolding jpeg_loop_segments [OF assms(1)]
    by (rule jpeg_loop_frame) (use assms in auto)
  then have loop: "jpeg_loop ?p 2 = Some (Some (of_nat w, of_nat h))" by (simp only: two)
  have "4 \<le> length ?p" "?p ! 0 = 255" "?p ! 1 = 216" by (simp_all add: enc_frame_def)
  note d = dimensions_jpeg [OF this loop]
  have "size_allowed (of_nat w) (of_nat h) \<longleftrightarrow> 0 < w \<and> 0 < h \<and> w \<le> 8192 \<and> h \<le> 8192 \<and> w * h \<le> 16000000"
    using assms(3,4) by (simp add: size_allowed_unat unat_of_nat_u32)
  then show ?thesis unfolding d by (rule arg_cong)
qed

theorem photo_jpeg_exact_witness:
  "dimensions ([255, 216] @ concat (map enc_segment [(224, [0x4a, 255])]) @ enc_frame 192 640 480 [1] @ [0]) =
     Some (Some (640, 480, str ''image/jpeg''))"
proof -
  have "list_all wf_segment [(224, [0x4a, 255])]" by (simp add: wf_segment_def plain_marker_def)
  then show ?thesis using photo_jpeg_exact [of "[(224, [0x4a, 255])]" 192 640 480 "[1]" "[0]"] by simp
qed


text \<open>C12: when memory is available, the upload of an image within 8 MiB that
  passes the header check is always accepted, however full the cache is: the status is 200, the
  generation steps by one, the new generation serves exactly the uploaded bytes with their media
  type, and the previous generation is no longer served.\<close>

theorem photo_put_displays:
  assumes "photo_inv s" and "put_arguments_ok action key session tr" and "action = None \<or> action = Some []"
    and "length copy \<le> AIRTIZEN_PHOTO_MAX_BYTES" and "dimensions copy = Some (Some (w, h, mime))"
  shows "\<exists>s'. airtizen_photo_put True action (Some key) (Some session) tr (Some copy) (length copy) s = Some (200, s') \<and>
    ps_generation (ph_state s') = ps_generation (ph_state s) + 1 \<and>
    airtizen_photo_copy True (ps_generation (ph_state s')) s' = Some (Some (copy, mime)) \<and>
    airtizen_photo_copy True (ps_generation (ph_state s)) s' = Some None"
proof -
  have act: "action \<noteq> Some (str ''displayCached'')" "action \<noteq> Some (str ''cacheOnly'')" using assms(3) by auto
  from photo_put_store [of s action "Some key" "Some session" tr copy w h mime] assms act
  obtain slot s2 where s2: "airtizen_photo_put True action (Some key) (Some session) tr (Some copy) (length copy) s =
      Some (200, show_photo slot session tr s2)" "stored s s2 slot copy mime key session" by auto
  then have "photo_inv (show_photo slot session tr s2)" by (simp add: stored_def photo_inv_show)
  from photo_copy_eq [OF this] s2 show ?thesis by (simp add: stored_def)
qed

definition sample_jpeg :: "byte list" where
  "sample_jpeg = [255, 216] @ enc_frame 192 640 480 [1]"

lemma sample_jpeg_dimensions: "dimensions sample_jpeg = Some (Some (640, 480, str ''image/jpeg''))"
proof -
  have two: "length [255, 216 :: byte] = 2" by simp
  have "jpeg_loop sample_jpeg 2 = Some (Some (640, 480))"
    using jpeg_loop_frame [of 192 640 480 "[1]" "[255, 216]" "[]"] unfolding two by (simp add: sample_jpeg_def)
  moreover have "4 \<le> length sample_jpeg" "sample_jpeg ! 0 = 255" "sample_jpeg ! 1 = 216"
    by (simp_all add: sample_jpeg_def enc_frame_def)
  moreover have "size_allowed 640 480" by (simp add: size_allowed_unat)
  ultimately show ?thesis using dimensions_jpeg by auto
qed

lemma sample_jpeg_length: "length sample_jpeg \<le> AIRTIZEN_PHOTO_MAX_BYTES"
  by (simp add: sample_jpeg_def enc_frame_def AIRTIZEN_PHOTO_MAX_BYTES_def)

theorem photo_put_displays_witness:
  "\<exists>s'. airtizen_photo_put True None (Some []) (Some (str ''s'')) None (Some sample_jpeg) (length sample_jpeg) photo_init =
      Some (200, s') \<and> airtizen_photo_copy True 1 s' = Some (Some (sample_jpeg, str ''image/jpeg''))"
proof -
  have "put_arguments_ok None [] (str ''s'') None" by code_simp
  moreover note sample_jpeg_length
  moreover have "ps_generation (ph_state photo_init) = 0" by code_simp
  ultimately show ?thesis
    using photo_put_displays [OF photo.init_inv, of None "[]" "str ''s''" None sample_jpeg] sample_jpeg_dimensions by auto
qed

text \<open>An upload with the action \<open>cacheOnly\<close> never changes what is on screen:
  whatever its key, its bytes and its outcome, the state shown and the bytes served for every
  generation are those of before.\<close>

theorem photo_cache_only:
  assumes "photo_inv s" and "airtizen_photo_put alloc (Some (str ''cacheOnly'')) k t tr (Some x) (length x) s = Some (r, s')"
  shows "airtizen_photo_snapshot s' = airtizen_photo_snapshot s \<and> airtizen_photo_copy True g s' = airtizen_photo_copy True g s"
proof (cases "s' = s")
  case False
  let ?key = "case k of None \<Rightarrow> [] | Some x \<Rightarrow> x" and ?ses = "case t of None \<Rightarrow> [] | Some x \<Rightarrow> x"
  obtain d where d: "dimensions x = Some d" using dimensions_safe by blast
  from assms(2) False d have c: "alloc" "put_arguments_ok (Some (str ''cacheOnly'')) ?key ?ses tr"
    "length x \<le> AIRTIZEN_PHOTO_MAX_BYTES" "d \<noteq> None" "displayed s = None \<or> find_slot s ?key ?ses \<noteq> displayed s"
    by (auto simp: airtizen_photo_put_def rdn_def Let_def split: if_splits option.splits)
  then obtain w h mime where "d = Some (w, h, mime)" by auto
  with d have dd: "dimensions x = Some (Some (w, h, mime))" by simp
  from photo_put_store [OF assms(1) c(2) _ c(3) dd] c(5) obtain slot s2 where
    "airtizen_photo_put True (Some (str ''cacheOnly'')) k t tr (Some x) (length x) s = Some (200, s2)"
    "stored s s2 slot x mime ?key ?ses" "displayed s \<noteq> Some slot" by auto
  moreover from this c(1) assms(2) have "s' = s2" by simp
  ultimately show ?thesis using photo_copy_eq [of s2 g] photo_copy_eq [OF assms(1), of g]
    by (auto simp: airtizen_photo_snapshot_def stored_def split: option.split)
qed simp

theorem photo_cache_only_witness:
  "\<exists>r s'. airtizen_photo_put True (Some (str ''cacheOnly'')) (Some (str ''k'')) None None (Some sample_jpeg) (length sample_jpeg)
      photo_init = Some (r, s') \<and> airtizen_photo_copy True 0 s' = Some None"
proof -
  obtain r s' where p: "airtizen_photo_put True (Some (str ''cacheOnly'')) (Some (str ''k'')) None None (Some sample_jpeg)
      (length sample_jpeg) photo_init = Some (r, s')"
    using photo_put_total [OF photo.init_inv, of "Some sample_jpeg" "length sample_jpeg"] by blast
  have "airtizen_photo_copy True 0 photo_init = Some None" by (simp add: airtizen_photo_copy_def photo_init_def photo_zero_def)
  with photo_cache_only [OF photo.init_inv p, of 0] p show ?thesis by auto
qed

text \<open>An image cached under a key and session that is not on screen can be
  shown later by its key alone: \<open>displayCached\<close> then answers 200 and the next generation serves the
  cached bytes.\<close>

theorem photo_cached_roundtrip:
  assumes "photo_inv s" and "put_arguments_ok (Some (str ''cacheOnly'')) key session tr"
    and "put_arguments_ok (Some (str ''displayCached'')) key session tr'"
    and "length copy \<le> AIRTIZEN_PHOTO_MAX_BYTES" and "dimensions copy = Some (Some (w, h, mime))"
    and "displayed s = None \<or> find_slot s key session \<noteq> displayed s"
  shows "\<exists>s1 s2. airtizen_photo_put True (Some (str ''cacheOnly'')) (Some key) (Some session) tr (Some copy) (length copy) s =
       Some (200, s1) \<and>
     airtizen_photo_put alloc (Some (str ''displayCached'')) (Some key) (Some session) tr' None 0 s1 = Some (200, s2) \<and>
     airtizen_photo_copy True (ps_generation (ph_state s) + 1) s2 = Some (Some (copy, mime))"
proof -
  from photo_put_store [of s "Some (str ''cacheOnly'')" "Some key" "Some session" tr copy w h mime] assms
  obtain slot s1 where s1: "airtizen_photo_put True (Some (str ''cacheOnly'')) (Some key) (Some session) tr (Some copy)
      (length copy) s = Some (200, s1)" and st: "stored s s1 slot copy mime key session" by auto
  then have inv1: "photo_inv s1" and sl: "slot < SLOTS" "occupied s1 slot" by (simp_all add: stored_def)
  have f: "find_slot s1 key session = Some slot" using find_slot_unique [OF inv1 sl] st by (simp add: stored_def)
  have l: "length (cache s1) = SLOTS" using inv1 by (simp add: photo_inv_def)
  note c = photo_put_cached [OF inv1 f assms(3)]
  show ?thesis using s1 st c(1) [of alloc None] photo_copy_eq [OF c(2), of "ps_generation (ph_state s) + 1"]
      cache_touch [OF l sl(1), of slot] by (simp add: stored_def)
qed

theorem photo_cached_roundtrip_witness:
  "\<exists>s1 s2. airtizen_photo_put True (Some (str ''cacheOnly'')) (Some (str ''k'')) (Some []) None (Some sample_jpeg)
      (length sample_jpeg) photo_init = Some (200, s1) \<and>
     airtizen_photo_put True (Some (str ''displayCached'')) (Some (str ''k'')) (Some []) None None 0 s1 = Some (200, s2) \<and>
     airtizen_photo_copy True 1 s2 = Some (Some (sample_jpeg, str ''image/jpeg''))"
proof -
  have "put_arguments_ok (Some (str ''cacheOnly'')) (str ''k'') [] None" "put_arguments_ok (Some (str ''displayCached'')) (str ''k'') [] None"
    by code_simp+
  moreover note sample_jpeg_length
  moreover have "displayed photo_init = None" "ps_generation (ph_state photo_init) = 0" by code_simp+
  ultimately show ?thesis
    using photo_cached_roundtrip [OF photo.init_inv, of "str ''k''" "[]" None None sample_jpeg 640 480 "str ''image/jpeg''" True]
      sample_jpeg_dimensions by simp
qed

end
