(* ===== verification/Playback.thy ===== *)
theory Playback
  imports Airtizen_Prelude
begin

text \<open>
  URL playback (\<open>native/src/airtizen_playback.c\<close>): the item a sender asks the TV browser to play,
  the rate and seek commands, and the browser's reports about it. The theory shows which URLs are
  accepted (a grammar), that every history keeps the numbers the web page divides and compares by
  finite and in range, and that a report for a replaced or finished item changes nothing.

  A C \<open>double\<close> is a finite rational, an infinity or a NaN; comparisons with a NaN are false.
  The two zeros are one value, as the code never tells them apart.
\<close>

section \<open>Doubles\<close>

datatype cdouble = Fin rat | PosInf | NegInf | NaN

definition isfinite :: "cdouble \<Rightarrow> bool" where
  "isfinite x = (case x of Fin _ \<Rightarrow> True | _ \<Rightarrow> False)"

fun dlt :: "cdouble \<Rightarrow> cdouble \<Rightarrow> bool" where
  "dlt NaN _ = False"
| "dlt _ NaN = False"
| "dlt (Fin a) (Fin b) = (a < b)"
| "dlt NegInf y = (y \<noteq> NegInf)"
| "dlt x PosInf = (x \<noteq> PosInf)"
| "dlt _ _ = False"

definition deq :: "cdouble \<Rightarrow> cdouble \<Rightarrow> bool" where
  "deq x y \<longleftrightarrow> x = y \<and> x \<noteq> NaN"

section \<open>State and operations\<close>

record airtizen_playback_state =
  generation :: u32
  command :: u32
  active :: bool
  ready :: bool
  failed :: bool
  fraction :: cdouble
  position :: cdouble
  duration :: cdouble
  rate :: cdouble
  seek :: cdouble
  url :: cstring

definition playback_zero :: airtizen_playback_state where
  "playback_zero = \<lparr>generation = 0, command = 0, active = False, ready = False, failed = False, fraction = Fin 0,
     position = Fin 0, duration = Fin 0, rate = Fin 0, seek = Fin 0, url = []\<rparr>"

definition url_char :: "byte \<Rightarrow> bool" where
  "url_char c \<longleftrightarrow> \<not> (c < 33 \<or> c > 126 \<or> c = 34 \<or> c = 92 \<or> c = 60 \<or> c = 62)"

definition url_host :: "cstring \<Rightarrow> cstring option" where
  "url_host u = (if strprefix (str ''http://'') u then Some (drop 7 u)
                 else if strprefix (str ''https://'') u then Some (drop 8 u) else None)"

text \<open>The characters \<open>strpbrk(host, "/?#")\<close> stops at.\<close>

definition url_delim :: "byte \<Rightarrow> bool" where
  "url_delim c \<longleftrightarrow> c = 47 \<or> c = 63 \<or> c = 35"

definition url_valid :: "cstring \<Rightarrow> bool" where
  "url_valid u =
     (case url_host u of
        None \<Rightarrow> False
      | Some host \<Rightarrow>
          if host = [] then False
          else let authority = takeWhile (\<lambda>c. \<not> url_delim c) host in
            if authority = [] then False
            else list_all url_char u \<and> list_all (\<lambda>c. c \<noteq> 64) authority)"

definition airtizen_playback_play ::
  "cstring option \<Rightarrow> cdouble \<Rightarrow> airtizen_playback_state \<Rightarrow> int \<times> airtizen_playback_state" where
  "airtizen_playback_play url_ptr start_fraction s =
     (case url_ptr of
        None \<Rightarrow> (-1, s)
      | Some u \<Rightarrow>
          if length u > 2048 \<or> \<not> isfinite start_fraction \<or> dlt start_fraction (Fin 0) \<or> dlt (Fin 1) start_fraction then (-1, s)
          else if \<not> url_valid u then (-1, s)
          else (0, playback_zero\<lparr>generation := generation s + 1, active := True, rate := Fin 1, seek := Fin (-1),
                     fraction := start_fraction, url := u\<rparr>))"

definition airtizen_playback_stop :: "airtizen_playback_state \<Rightarrow> airtizen_playback_state" where
  "airtizen_playback_stop s = playback_zero\<lparr>generation := generation s + 1, seek := Fin (-1)\<rparr>"

definition airtizen_playback_rate :: "cdouble \<Rightarrow> airtizen_playback_state \<Rightarrow> int \<times> airtizen_playback_state" where
  "airtizen_playback_rate r s =
     (if \<not> deq r (Fin 0) \<and> \<not> deq r (Fin 1) then (-1, s) else (0, s\<lparr>rate := r, command := command s + 1\<rparr>))"

definition airtizen_playback_seek :: "cdouble \<Rightarrow> airtizen_playback_state \<Rightarrow> int \<times> airtizen_playback_state" where
  "airtizen_playback_seek p s =
     (if \<not> isfinite p \<or> dlt p (Fin 0) \<or> dlt (Fin 604800) p then (-1, s)
      else (0, s\<lparr>seek := p, command := command s + 1\<rparr>))"

definition airtizen_playback_report ::
  "u32 \<Rightarrow> cdouble \<Rightarrow> cdouble \<Rightarrow> bool \<Rightarrow> bool \<Rightarrow> bool \<Rightarrow> airtizen_playback_state \<Rightarrow> int \<times> airtizen_playback_state" where
  "airtizen_playback_report g pos dur rdy fld ended s =
     (if \<not> isfinite pos \<or> \<not> isfinite dur \<or> dlt pos (Fin 0) \<or> dlt dur (Fin 0) \<or> dlt (Fin 604800) dur \<or>
         dlt (Fin 604800) pos then (-1, s)
      else if \<not> active s \<or> g \<noteq> generation s then (-1, s)
      else let s1 = s\<lparr>position := pos, duration := dur, ready := rdy, failed := fld\<rparr>
           in (0, if ended \<or> fld then s1\<lparr>active := False, ready := False, rate := Fin 0\<rparr> else s1))"

definition airtizen_playback_snapshot :: "airtizen_playback_state \<Rightarrow> airtizen_playback_state" where
  "airtizen_playback_snapshot s = s"

section \<open>The accepted URLs\<close>

text \<open>The grammar: a scheme, a non-empty authority without user information, then nothing or a
  path, query or fragment, all in printable characters that need no quoting in the page.\<close>

definition url_grammar :: "cstring \<Rightarrow> bool" where
  "url_grammar u \<longleftrightarrow> list_all url_char u \<and>
     (\<exists>scheme \<in> {str ''http://'', str ''https://''}. \<exists>authority rest.
        u = scheme @ authority @ rest \<and> authority \<noteq> [] \<and> list_all (\<lambda>c. \<not> url_delim c \<and> c \<noteq> 64) authority \<and>
        (rest = [] \<or> url_delim (hd rest)))"

lemma strprefix_iff: "strprefix p s \<longleftrightarrow> (\<exists>t. s = p @ t)"
  unfolding strprefix_def by (metis append_eq_conv_conj append_take_drop_id)

lemma host_iff: "url_host u = Some h \<longleftrightarrow> u = str ''http://'' @ h \<or> u = str ''https://'' @ h"
proof -
  have clash: "str ''http://'' @ h \<noteq> str ''https://'' @ t" for h t by (simp add: str_def)
  show ?thesis
  proof (cases "strprefix (str ''http://'') u")
    case True
    then obtain t where t: "u = str ''http://'' @ t" by (auto simp: strprefix_iff)
    then show ?thesis using True clash by (auto simp: url_host_def)
  next
    case False
    then have no: "u \<noteq> str ''http://'' @ t" for t by (auto simp: strprefix_iff)
    show ?thesis
    proof (cases "strprefix (str ''https://'') u")
      case True
      then obtain t where "u = str ''https://'' @ t" by (auto simp: strprefix_iff)
      then show ?thesis using False True no by (auto simp: url_host_def)
    next
      case F: False
      then have "u \<noteq> str ''https://'' @ t" for t by (auto simp: strprefix_iff)
      then show ?thesis using False F no by (auto simp: url_host_def)
    qed
  qed
qed

lemma authority_iff:
  "(\<exists>rest. h = a @ rest \<and> list_all (\<lambda>c. \<not> url_delim c) a \<and> (rest = [] \<or> url_delim (hd rest))) \<longleftrightarrow>
     a = takeWhile (\<lambda>c. \<not> url_delim c) h"
proof
  assume "\<exists>rest. h = a @ rest \<and> list_all (\<lambda>c. \<not> url_delim c) a \<and> (rest = [] \<or> url_delim (hd rest))"
  then obtain rest where r: "h = a @ rest" "list_all (\<lambda>c. \<not> url_delim c) a" "rest = [] \<or> url_delim (hd rest)" by blast
  then have "takeWhile (\<lambda>c. \<not> url_delim c) rest = []" by (cases rest) auto
  then show "a = takeWhile (\<lambda>c. \<not> url_delim c) h" using r by (simp add: takeWhile_append2 list_all_iff)
next
  assume a: "a = takeWhile (\<lambda>c. \<not> url_delim c) h"
  have "h = a @ dropWhile (\<lambda>c. \<not> url_delim c) h" by (simp add: a)
  moreover have "list_all (\<lambda>c. \<not> url_delim c) a" by (auto simp: a list_all_iff dest: set_takeWhileD)
  moreover have "dropWhile (\<lambda>c. \<not> url_delim c) h = [] \<or> url_delim (hd (dropWhile (\<lambda>c. \<not> url_delim c) h))"
    using hd_dropWhile by blast
  ultimately show "\<exists>rest. h = a @ rest \<and> list_all (\<lambda>c. \<not> url_delim c) a \<and> (rest = [] \<or> url_delim (hd rest))" by blast
qed

lemma url_valid_grammar: "url_valid u \<longleftrightarrow> url_grammar u"
proof
  assume v: "url_valid u"
  then obtain h where h: "url_host u = Some h" by (auto simp: url_valid_def split: option.splits)
  define a' where "a' = takeWhile (\<lambda>c. \<not> url_delim c) h"
  from v h have a: "a' \<noteq> []" "list_all url_char u" "list_all (\<lambda>c. c \<noteq> 64) a'"
    by (auto simp: url_valid_def a'_def Let_def split: if_splits)
  obtain rest where r: "h = a' @ rest" "list_all (\<lambda>c. \<not> url_delim c) a'" "rest = [] \<or> url_delim (hd rest)"
    using authority_iff [of h a'] a'_def by blast
  have "list_all (\<lambda>c. \<not> url_delim c \<and> c \<noteq> 64) a'" using a(3) r(2) by (simp add: list_all_iff)
  moreover obtain sc where "sc \<in> {str ''http://'', str ''https://''}" "u = sc @ a' @ rest"
    using h [unfolded host_iff] unfolding r(1) by blast
  ultimately show "url_grammar u" using a(1,2) r(3) unfolding url_grammar_def by blast
next
  assume "url_grammar u"
  then obtain sc a rest where g: "list_all url_char u" "sc \<in> {str ''http://'', str ''https://''}" "u = sc @ a @ rest" "a \<noteq> []"
    "list_all (\<lambda>c. \<not> url_delim c \<and> c \<noteq> 64) a" "rest = [] \<or> url_delim (hd rest)" unfolding url_grammar_def by blast
  then have h: "url_host u = Some (a @ rest)" by (auto simp: host_iff)
  have "list_all (\<lambda>c. \<not> url_delim c) a" "list_all (\<lambda>c. c \<noteq> 64) a" using g(5) by (simp_all add: list_all_iff)
  moreover from this g(6) have "takeWhile (\<lambda>c. \<not> url_delim c) (a @ rest) = a" using authority_iff [of "a @ rest" a] by auto
  ultimately show "url_valid u" using g(1,4) h by (simp add: url_valid_def Let_def)
qed

section \<open>Histories of the module\<close>

datatype playback_op =
    Play "cstring option" cdouble
  | Stop
  | Rate cdouble
  | Seek cdouble
  | Report u32 cdouble cdouble bool bool bool

definition playback_step :: "playback_op \<Rightarrow> airtizen_playback_state \<Rightarrow> airtizen_playback_state" where
  "playback_step op s = (case op of
       Play u f \<Rightarrow> snd (airtizen_playback_play u f s)
     | Stop \<Rightarrow> airtizen_playback_stop s
     | Rate r \<Rightarrow> snd (airtizen_playback_rate r s)
     | Seek p \<Rightarrow> snd (airtizen_playback_seek p s)
     | Report g pos dur rdy fld ended \<Rightarrow> snd (airtizen_playback_report g pos dur rdy fld ended s))"

definition in_range :: "rat \<Rightarrow> rat \<Rightarrow> cdouble \<Rightarrow> bool" where
  "in_range lo hi x \<longleftrightarrow> (case x of Fin q \<Rightarrow> lo \<le> q \<and> q \<le> hi | _ \<Rightarrow> False)"

definition playback_inv :: "airtizen_playback_state \<Rightarrow> bool" where
  "playback_inv s \<longleftrightarrow> in_range 0 604800 (position s) \<and> in_range 0 604800 (duration s) \<and> in_range 0 1 (fraction s) \<and>
     (rate s = Fin 0 \<or> rate s = Fin 1) \<and> (seek s = Fin (-1) \<or> in_range 0 604800 (seek s)) \<and>
     length (url s) \<le> 2048 \<and> (url s = [] \<or> url_grammar (url s)) \<and>
     (active s \<longrightarrow> url s \<noteq> []) \<and> (ready s \<longrightarrow> active s) \<and> (failed s \<longrightarrow> \<not> active s)"

lemma in_range_iff:
  "in_range lo hi x \<longleftrightarrow> isfinite x \<and> \<not> dlt x (Fin lo) \<and> \<not> dlt (Fin hi) x"
  by (cases x) (auto simp: in_range_def isfinite_def)

lemma in_range_0: "0 \<le> hi \<Longrightarrow> in_range 0 hi (Fin 0)"
  by (simp add: in_range_def)

lemma url_grammar_nonempty: "url_grammar u \<Longrightarrow> u \<noteq> []"
  by (auto simp: url_grammar_def)

lemma playback_play_cases:
  "airtizen_playback_play u f s = (-1, s) \<or>
   (\<exists>v. u = Some v \<and> length v \<le> 2048 \<and> in_range 0 1 f \<and> url_grammar v \<and> airtizen_playback_play u f s =
      (0, playback_zero\<lparr>generation := generation s + 1, active := True, rate := Fin 1, seek := Fin (-1), fraction := f, url := v\<rparr>))"
  by (cases u) (auto simp: airtizen_playback_play_def url_valid_grammar in_range_iff)

lemma playback_step_inv:
  assumes "playback_inv s"
  shows "playback_inv (playback_step op s)"
proof (cases op)
  case (Play u f)
  from playback_play_cases [of u f s] show ?thesis
  proof
    assume "airtizen_playback_play u f s = (-1, s)"
    then show ?thesis using assms Play by (simp add: playback_step_def)
  next
    assume "\<exists>v. u = Some v \<and> length v \<le> 2048 \<and> in_range 0 1 f \<and> url_grammar v \<and> airtizen_playback_play u f s =
      (0, playback_zero\<lparr>generation := generation s + 1, active := True, rate := Fin 1, seek := Fin (-1), fraction := f, url := v\<rparr>)"
    then show ?thesis using Play url_grammar_nonempty
      by (auto simp: playback_step_def playback_inv_def playback_zero_def in_range_0)
  qed
next
  case Stop
  then show ?thesis by (simp add: playback_step_def playback_inv_def airtizen_playback_stop_def playback_zero_def in_range_def)
next
  case (Rate r)
  then show ?thesis using assms
    by (auto simp: playback_step_def playback_inv_def airtizen_playback_rate_def deq_def)
next
  case (Seek p)
  then show ?thesis using assms
    by (auto simp: playback_step_def playback_inv_def airtizen_playback_seek_def in_range_iff [of 0 604800 p])
next
  case (Report g pos dur rdy fld ended)
  then show ?thesis using assms
    by (auto simp: playback_step_def playback_inv_def airtizen_playback_report_def Let_def
        in_range_iff [of 0 604800 pos] in_range_iff [of 0 604800 dur])
qed

interpretation playback: guarded_component playback_zero playback_step playback_inv
proof
  show "playback_inv playback_zero" by (simp add: playback_inv_def playback_zero_def in_range_def)
qed (rule playback_step_inv)

interpretation playback_generation: generation_guard generation airtizen_playback_stop
  "\<lambda>s g. fst (airtizen_playback_report g pos dur rdy fld ended s) = 0"
  by unfold_locales (auto simp: airtizen_playback_stop_def airtizen_playback_report_def Let_def split: if_splits)

section \<open>Properties\<close>

text \<open>A request to play is accepted exactly when the URL has at most 2048
  bytes and matches the grammar (HTTP or HTTPS, a non-empty authority without user information,
  printable characters without quotes, backslashes and angle brackets) and the start fraction lies
  in [0, 1]. An accepted request starts a new generation with that URL at rate 1 and no pending
  seek, command or error; a refused one changes nothing.\<close>

theorem playback_play_exact:
  "airtizen_playback_play (Some u) f s =
     (if length u \<le> 2048 \<and> url_grammar u \<and> in_range 0 1 f
      then (0, playback_zero\<lparr>generation := generation s + 1, active := True, rate := Fin 1, seek := Fin (-1),
                 fraction := f, url := u\<rparr>)
      else (-1, s))"
  by (auto simp: airtizen_playback_play_def url_valid_grammar in_range_iff)

text \<open>C19: after every history of requests and reports, whatever numbers they carry,
  the position, duration, fraction, rate and seek target are finite and in their ranges, the URL is
  one the grammar allows, a ready item is active and a failed one is not; and a report is refused
  without effect unless an item is active and the report names its generation, in particular after
  the item was stopped.\<close>

theorem playback_history:
  "playback_inv (fold playback_step ops playback_zero) \<and>
   ((active s \<and> g = generation s) \<or> airtizen_playback_report g pos dur rdy fld ended s = (-1, s)) \<and>
   fst (airtizen_playback_report (generation s) pos dur rdy fld ended (airtizen_playback_stop s)) \<noteq> 0"
  using playback.run_inv [of ops] playback_generation.stale_refused [where s = s and pos = pos and dur = dur and rdy = rdy and fld = fld and ended = ended]
  by (auto simp: airtizen_playback_report_def)

end
