(* ===== verification/Video.thy ===== *)
theory Video
  imports Airtizen_Prelude
begin

text \<open>
  The mirroring video component (\<open>native/src/airtizen_video.c\<close>): the access units of the sender are
  remuxed to fMP4 fragments, of which a ring of 256 is kept within 24 MiB for the page and for HLS.

  FFmpeg is not part of the repository, so its three services are a parameter of the model, a record
  of functions: decoding the first picture's size, writing the header and writing one frame; each
  yields the calls it makes to the \<open>output\<close> callback, of which the component builds its fragments.
  Sequence numbers and timestamps are \<open>uint64_t\<close> in the source and \<open>nat\<close> here: a sequence number
  steps by one per frame from 0, and a timestamp is compared with \<open>INT64_MAX\<close> before it is used and
  only subtracted from a later one, so no operation on them wraps. A size that the source keeps
  beside a pointer (\<open>config_size\<close>, \<open>init_size\<close>, \<open>pending_size\<close>) is the length of the list.
  The theory shows that over every history the ring holds a gapless run of the newest fragments,
  that its byte count is exact and bounded, that the advertised start is the newest key frame kept,
  and that every segment an HLS manifest advertises can be fetched and is the concatenation of its
  fragments.
\<close>

section \<open>State\<close>

definition PART_LIMIT :: nat where "PART_LIMIT = 2 * 1024 * 1024"
definition TOTAL_LIMIT :: nat where "TOTAL_LIMIT = 24 * 1024 * 1024"
definition PART_COUNT :: nat where "PART_COUNT = 256"
definition HLS_GROUP :: nat where "HLS_GROUP = 15"

record part =
  pt_data :: "byte list option"
  pt_size :: nat
  pt_seq :: nat
  pt_pts :: nat
  pt_key :: bool

record airtizen_video_state =
  vs_generation :: u32
  vs_width :: u32
  vs_height :: u32
  vs_latest :: nat
  vs_start :: nat
  vs_available :: bool
  vs_mime :: cstring

text \<open>The static variables; \<open>mux\<close> is the muxer context of FFmpeg.\<close>

record 'm video_module =
  mux :: "'m option"
  config :: "byte list option"
  init_data :: "byte list option"
  pending :: "byte list"
  total_size :: nat
  parts :: "part list"
  v_state :: airtizen_video_state
  sequence :: nat
  first_pts :: nat
  last_pts :: nat
  have_pts :: bool
  write_failed :: bool

text \<open>A call of the \<open>output\<close> callback: the size argument, the bytes, and whether \<open>av_realloc\<close> succeeds.\<close>

type_synonym chunk = "int \<times> byte list \<times> bool"

text \<open>The services of FFmpeg the component uses; \<open>None\<close> or \<open>False\<close> is an error return (or a failed
  allocation) on the way.\<close>

record 'm ffmpeg =
  ff_decode :: "byte list \<Rightarrow> byte list \<Rightarrow> (int \<times> int) option"
  ff_header :: "byte list \<Rightarrow> int \<Rightarrow> int \<Rightarrow> ('m \<times> chunk list) option"
  ff_write :: "'m \<Rightarrow> byte list \<Rightarrow> nat \<Rightarrow> bool \<Rightarrow> bool \<times> 'm \<times> chunk list"

definition empty_part :: part where
  "empty_part = \<lparr>pt_data = None, pt_size = 0, pt_seq = 0, pt_pts = 0, pt_key = False\<rparr>"

definition video_zero :: airtizen_video_state where
  "video_zero = \<lparr>vs_generation = 0, vs_width = 0, vs_height = 0, vs_latest = 0, vs_start = 0, vs_available = False, vs_mime = []\<rparr>"

definition video_init :: "'m video_module" where
  "video_init = \<lparr>mux = None, config = None, init_data = None, pending = [], total_size = 0,
     parts = replicate PART_COUNT empty_part, v_state = video_zero, sequence = 0, first_pts = 0, last_pts = 0,
     have_pts = False, write_failed = False\<rparr>"

section \<open>Operations\<close>

definition mux_output :: "chunk \<Rightarrow> 'm video_module \<Rightarrow> 'm video_module" where
  "mux_output c s = (case c of (sz, data, alloc) \<Rightarrow>
     if sz < 0 \<or> nat sz > PART_LIMIT - length (pending s) then s\<lparr>write_failed := True\<rparr>
     else if \<not> alloc then s\<lparr>write_failed := True\<rparr>
     else s\<lparr>pending := pending s @ take (nat sz) data\<rparr>)"

text \<open>The scan of \<open>nalu_type\<close> from index \<open>i\<close>.\<close>

function nalu_scan :: "byte list \<Rightarrow> byte \<Rightarrow> nat \<Rightarrow> bool option" where
  "nalu_scan data wanted i =
     (if i + 4 < length data then do {
        a \<leftarrow> rd data i; b \<leftarrow> rd data (i + 1); c \<leftarrow> rd data (i + 2);
        d \<leftarrow> rd data (i + 3);
        let prefix = (if a = 0 \<and> b = 0 \<and> c = 1 then 3
                      else if i + 5 \<le> length data \<and> a = 0 \<and> b = 0 \<and> c = 0 \<and> d = 1 then 4 else (0::nat));
        h \<leftarrow> rd data (i + prefix);
        if prefix \<noteq> 0 \<and> h AND 31 = wanted then Some True else nalu_scan data wanted (i + 1)
      }
      else Some False)"
  by pat_completeness auto
termination by (relation "measure (\<lambda>(data, w, i). length data - i)") auto

declare nalu_scan.simps [simp del]

definition nalu_type :: "byte list \<Rightarrow> byte \<Rightarrow> bool option" where
  "nalu_type data wanted = nalu_scan data wanted 0"

definition clear_locked :: "'m video_module \<Rightarrow> 'm video_module" where
  "clear_locked s = s\<lparr>mux := None, config := None, init_data := None, pending := [], total_size := 0,
     sequence := 0, have_pts := False, write_failed := False,
     parts := map (\<lambda>_. empty_part) (parts s), v_state := video_zero\<rparr>"

definition clear_step :: "'m video_module \<Rightarrow> 'm video_module" where
  "clear_step s = (let g = vs_generation (v_state s) + 1; s1 = clear_locked s
                   in s1\<lparr>v_state := (v_state s1)\<lparr>vs_generation := g\<rparr>\<rparr>)"

definition airtizen_video_reset :: "'m video_module \<Rightarrow> 'm video_module" where
  "airtizen_video_reset s = clear_step s"

text \<open>The search for the sequence parameter set whose profile goes into the media type.\<close>

function mime_scan :: "byte list \<Rightarrow> nat \<Rightarrow> cstring option option" where
  "mime_scan data i =
     (if i + 8 < length data then do {
        p \<leftarrow> rdn data i 4; h \<leftarrow> rd data (i + 4);
        if p = [0, 0, 0, 1] \<and> h AND 31 = 7 then do {
          a \<leftarrow> rd data (i + 5); b \<leftarrow> rd data (i + 6); c \<leftarrow> rd data (i + 7);
          Some (Some (fit 80 (str ''video/mp4; codecs='' @ [34] @ str ''avc1.'' @ hex2 a @ hex2 b @ hex2 c @ [34])))
        }
        else mime_scan data (i + 1)
      }
      else Some None)"
  by pat_completeness auto
termination by (relation "measure (\<lambda>(data, i). length data - i)") auto

declare mime_scan.simps [simp del]

definition airtizen_video_configure ::
  "bool \<Rightarrow> byte list option \<Rightarrow> 'm video_module \<Rightarrow> (int \<times> 'm video_module) option" where
  "airtizen_video_configure alloc data_ptr s =
     (case data_ptr of
        None \<Rightarrow> Some (-1, s)
      | Some data \<Rightarrow>
          if length data < 8 \<or> length data > 65536 then Some (-1, s)
          else do {
            sps \<leftarrow> nalu_type data 7;
            pps \<leftarrow> nalu_type data 8;
            if \<not> sps \<or> \<not> pps then Some (-1, s)
            else
              let s1 = clear_step s in
              if \<not> alloc then Some (-1, s1)
              else do {
                m \<leftarrow> mime_scan data 0;
                let s2 = s1\<lparr>config := Some data\<rparr>;
                Some (0, case m of None \<Rightarrow> s2 | Some t \<Rightarrow> s2\<lparr>v_state := (v_state s2)\<lparr>vs_mime := t\<rparr>\<rparr>)
              }
          })"

text \<open>A failure is \<open>None\<close>: the caller then clears the whole module, so nothing that \<open>initialize\<close> has
  done by then is left.\<close>

definition initialize :: "'m ffmpeg \<Rightarrow> byte list \<Rightarrow> byte list \<Rightarrow> 'm video_module \<Rightarrow> 'm video_module option" where
  "initialize ff cfg data s =
     (case ff_decode ff cfg data of
        None \<Rightarrow> None
      | Some (w, h) \<Rightarrow>
          if w < 1 \<or> h < 1 \<or> w > 4096 \<or> h > 2160 then None
          else (case ff_header ff cfg w h of
                  None \<Rightarrow> None
                | Some (m, chunks) \<Rightarrow>
                    let s1 = fold mux_output chunks
                          (s\<lparr>mux := Some m, v_state := (v_state s)\<lparr>vs_width := of_int w, vs_height := of_int h\<rparr>\<rparr>)
                    in if write_failed s1 \<or> pending s1 = [] then None
                       else Some (s1\<lparr>init_data := Some (pending s1), pending := []\<rparr>)))"

definition oldest_part :: "part list \<Rightarrow> nat option" where
  "oldest_part ps = fold
     (\<lambda>i oldest. if pt_data (ps ! i) \<noteq> None \<and>
                   (case oldest of None \<Rightarrow> True | Some j \<Rightarrow> pt_seq (ps ! i) < pt_seq (ps ! j))
                 then Some i else oldest) [0..<PART_COUNT] None"

partial_function (option) shrink :: "nat \<Rightarrow> part list \<Rightarrow> (nat \<times> part list) option" where
  "shrink tot ps =
     (if tot > TOTAL_LIMIT then
        (case oldest_part ps of
           None \<Rightarrow> Some (tot, ps)
         | Some i \<Rightarrow> shrink (tot - pt_size (ps ! i)) (ps[i := (ps ! i)\<lparr>pt_data := None, pt_size := 0\<rparr>]))
      else Some (tot, ps))"

definition newest_key :: "part list \<Rightarrow> nat" where
  "newest_key ps = fold
     (\<lambda>i start. if pt_data (ps ! i) \<noteq> None \<and> pt_key (ps ! i) \<and> pt_seq (ps ! i) > start then pt_seq (ps ! i) else start)
     [0..<PART_COUNT] 0"

text \<open>Placing the finished fragment in the ring: from the step of \<open>sequence\<close> to the availability flag.\<close>

definition publish :: "nat \<Rightarrow> bool \<Rightarrow> 'm video_module \<Rightarrow> 'm video_module option" where
  "publish pts key s =
     (let q = sequence s + 1; i = q mod PART_COUNT; old = parts s ! i;
          ps = (parts s)[i := \<lparr>pt_data = Some (pending s), pt_size = length (pending s), pt_seq = q,
                               pt_pts = pts - first_pts s, pt_key = key\<rparr>]
      in do {
        (tot, ps') \<leftarrow> shrink (total_size s - pt_size old + length (pending s)) ps;
        let start = newest_key ps';
        Some (s\<lparr>sequence := q, parts := ps', total_size := tot, pending := [],
                v_state := (v_state s)\<lparr>vs_latest := q, vs_start := start, vs_available := (start \<noteq> 0)\<rparr>\<rparr>)
      })"

definition airtizen_video_frame ::
  "'m ffmpeg \<Rightarrow> byte list option \<Rightarrow> nat \<Rightarrow> 'm video_module \<Rightarrow> (int \<times> 'm video_module) option" where
  "airtizen_video_frame ff data_ptr pts s =
     (case data_ptr of
        None \<Rightarrow> Some (-1, s)
      | Some data \<Rightarrow>
          if data = [] \<or> length data > PART_LIMIT \<or> pts > 9223372036854775807 then Some (-1, s)
          else do {
            key \<leftarrow> nalu_type data 5;
            (case config s of
               None \<Rightarrow> Some (-1, s)
             | Some cfg \<Rightarrow>
                 if mux s = None \<and> \<not> key then Some (0, s)
                 else (case (if mux s = None then initialize ff cfg data s else Some s) of
                   None \<Rightarrow> Some (-1, clear_step s)
                 | Some s1 \<Rightarrow>
                     if have_pts s1 \<and> pts \<le> last_pts s1 then Some (-1, s1)
                     else
                       let s2 = (if have_pts s1 then s1 else s1\<lparr>first_pts := pts, have_pts := True\<rparr>)\<lparr>last_pts := pts\<rparr>
                       in (case mux s2 of
                             None \<Rightarrow> None
                           | Some m \<Rightarrow>
                               (case ff_write ff m data (pts - first_pts s2) key of
                                  (ok, m', chunks) \<Rightarrow>
                                    let s3 = fold mux_output chunks (s2\<lparr>mux := Some m'\<rparr>) in
                                    if \<not> ok \<or> write_failed s3 \<or> pending s3 = [] then Some (-1, clear_step s3)
                                    else do { s4 \<leftarrow> publish pts key s3; Some (1, s4) }))))
          })"

definition airtizen_video_snapshot :: "'m video_module \<Rightarrow> airtizen_video_state" where
  "airtizen_video_snapshot s = v_state s"

text \<open>The bytes and the generation; the empty list is the size 0.\<close>

definition airtizen_video_copy :: "bool \<Rightarrow> bool \<Rightarrow> nat \<Rightarrow> 'm video_module \<Rightarrow> (byte list \<times> u32) option" where
  "airtizen_video_copy alloc init seq s =
     (let bytes =
        (if init then Some (case init_data s of None \<Rightarrow> [] | Some d \<Rightarrow> d)
         else do {
           p \<leftarrow> rd (parts s) (seq mod PART_COUNT);
           (case pt_data p of
              Some d \<Rightarrow> if pt_seq p = seq then rdn d 0 (pt_size p) else Some []
            | None \<Rightarrow> Some [])
         })
      in do { b \<leftarrow> bytes; Some (if alloc then b else [], vs_generation (v_state s)) })"

section \<open>HLS\<close>

definition part_at :: "'m video_module \<Rightarrow> nat \<Rightarrow> part" where
  "part_at s i = parts s ! (i mod PART_COUNT)"

definition group_first :: "nat \<Rightarrow> nat" where "group_first g = g * HLS_GROUP + 1"
definition group_last :: "nat \<Rightarrow> nat" where "group_last g = group_first g + HLS_GROUP - 1"

definition group_valid :: "'m video_module \<Rightarrow> nat \<Rightarrow> bool" where
  "group_valid s g = list_all (\<lambda>i. pt_seq (part_at s i) = i \<and> pt_data (part_at s i) \<noteq> None) [group_first g..<group_last g + 1]"

text \<open>The duration of a group in microseconds; the source holds it as a \<open>double\<close> of seconds and prints it
  with six decimals, which is exact.\<close>

definition group_duration :: "'m video_module \<Rightarrow> nat \<Rightarrow> nat" where
  "group_duration s g = pt_pts (part_at s (group_last g)) + 33333 - pt_pts (part_at s (group_first g))"

definition pad6 :: "nat \<Rightarrow> cstring" where
  "pad6 n = (let d = dec_nat n in replicate (6 - length d) 48 @ d)"

definition seconds6 :: "nat \<Rightarrow> cstring" where
  "seconds6 us = dec_nat (us div 1000000) @ [46] @ pad6 (us mod 1000000)"

text \<open>The groups that are advertised: from the first complete one of the last six on.\<close>

definition hls_groups :: "'m video_module \<Rightarrow> nat list" where
  "hls_groups s =
     (if init_data s = None \<or> sequence s = 0 then []
      else let n = vs_latest (v_state s) div HLS_GROUP in
        if n = 0 then []
        else let lst = n - 1; fst_group = (if lst > 5 then lst - 5 else 0)
             in dropWhile (\<lambda>g. \<not> group_valid s g) [fst_group..<lst + 1])"

definition hls_auth :: "cstring option \<Rightarrow> cstring" where
  "hls_auth token = (case token of None \<Rightarrow> [] | Some t \<Rightarrow> if t = [] then [] else str ''?token='' @ t)"

definition nl :: cstring where "nl = [10]"

definition hls_head :: "nat \<Rightarrow> nat \<Rightarrow> u32 \<Rightarrow> cstring \<Rightarrow> cstring" where
  "hls_head target first_group g auth =
     str ''#EXTM3U'' @ nl @ str ''#EXT-X-VERSION:7'' @ nl @ str ''#EXT-X-TARGETDURATION:'' @ dec_nat target @ nl @
     str ''#EXT-X-MEDIA-SEQUENCE:'' @ dec_nat first_group @ nl @
     str ''#EXT-X-MAP:URI='' @ [34] @ str ''/video/hls/'' @ dec_nat (unat g) @ str ''/init'' @ auth @ [34] @ nl"

definition hls_entry :: "'m video_module \<Rightarrow> cstring \<Rightarrow> nat \<Rightarrow> cstring" where
  "hls_entry s auth g =
     str ''#EXTINF:'' @ seconds6 (group_duration s g) @ str '','' @ nl @
     str ''/video/hls/'' @ dec_nat (unat (vs_generation (v_state s))) @ str ''/'' @ dec_nat (group_first g) @ str ''/'' @
     dec_nat (group_last g) @ auth @ nl"

text \<open>\<open>used\<close> counts what \<open>snprintf\<close> would have written; once it exceeds the buffer, the next call would be
  given a wrapped size, which is undefined behaviour here.\<close>

definition hls_append :: "cstring \<Rightarrow> cstring option \<Rightarrow> cstring option" where
  "hls_append entry text = (case text of None \<Rightarrow> None
     | Some t \<Rightarrow> if length t > 8192 then None else Some (t @ entry))"

text \<open>The longest duration, at least a second, rounded up to whole seconds; a value that does not fit
  \<open>unsigned\<close> has no defined conversion.\<close>

definition hls_target :: "'m video_module \<Rightarrow> nat list \<Rightarrow> nat option" where
  "hls_target s groups =
     (let mx = foldl (\<lambda>m g. if group_duration s g > m then group_duration s g else m) 1000000 groups;
          target = mx div 1000000
      in if target \<ge> 4294967296 then None
         else Some (if target * 1000000 < mx then (target + 1) mod 4294967296 else target))"

text \<open>The empty text is the return of 0.\<close>

definition airtizen_video_hls_manifest :: "bool \<Rightarrow> cstring option \<Rightarrow> 'm video_module \<Rightarrow> cstring option" where
  "airtizen_video_hls_manifest alloc token s =
     (case hls_groups s of
        [] \<Rightarrow> Some []
      | g # gs \<Rightarrow> do {
          target \<leftarrow> hls_target s (g # gs);
          text \<leftarrow> fold (\<lambda>h. hls_append (hls_entry s (hls_auth token) h)) (g # gs)
                    (Some (hls_head target g (vs_generation (v_state s)) (hls_auth token)));
          Some (if length text < 8192 \<and> alloc then text else [])
        })"

fun segment_size :: "'m video_module \<Rightarrow> nat list \<Rightarrow> nat \<Rightarrow> nat option" where
  "segment_size s [] sz = Some sz"
| "segment_size s (i # is) sz =
     (let p = part_at s i in
      if pt_seq p \<noteq> i \<or> pt_data p = None \<or> pt_size p > TOTAL_LIMIT - sz then None
      else segment_size s is (sz + pt_size p))"

fun segment_bytes :: "'m video_module \<Rightarrow> nat list \<Rightarrow> byte list option" where
  "segment_bytes s [] = Some []"
| "segment_bytes s (i # is) = do {
     d \<leftarrow> pt_data (part_at s i);
     b \<leftarrow> rdn d 0 (pt_size (part_at s i));
     rest \<leftarrow> segment_bytes s is;
     Some (b @ rest)
   }"

definition airtizen_video_hls_segment :: "bool \<Rightarrow> u32 \<Rightarrow> nat \<Rightarrow> nat \<Rightarrow> 'm video_module \<Rightarrow> byte list option" where
  "airtizen_video_hls_segment alloc g first last_seq s =
     (if first = 0 \<or> last_seq < first \<or> last_seq - first \<noteq> HLS_GROUP - 1 \<or> (first - 1) mod HLS_GROUP \<noteq> 0 then Some []
      else if g \<noteq> vs_generation (v_state s) \<or> last_seq > vs_latest (v_state s) then Some []
      else (case segment_size s [first..<last_seq + 1] 0 of
              None \<Rightarrow> Some []
            | Some n \<Rightarrow>
                if \<not> alloc then Some []
                else do { b \<leftarrow> segment_bytes s [first..<last_seq + 1]; put n [] b }))"

section \<open>The ring of fragments\<close>

definition part_ok :: "part \<Rightarrow> bool" where
  "part_ok p \<longleftrightarrow> (case pt_data p of None \<Rightarrow> pt_size p = 0
     | Some d \<Rightarrow> pt_size p = length d \<and> 0 < length d \<and> length d \<le> PART_LIMIT)"

definition retained :: "part list \<Rightarrow> nat \<Rightarrow> bool" where
  "retained ps q \<longleftrightarrow> 0 < q \<and> pt_seq (ps ! (q mod PART_COUNT)) = q \<and> pt_data (ps ! (q mod PART_COUNT)) \<noteq> None"

definition ring_bytes :: "part list \<Rightarrow> nat" where
  "ring_bytes ps = (\<Sum>i<PART_COUNT. pt_size (ps ! i))"

text \<open>The ring holds exactly the fragments after \<open>lo\<close> up to \<open>n\<close>, each in its slot.\<close>

definition ring_inv :: "nat \<Rightarrow> nat \<Rightarrow> part list \<Rightarrow> bool" where
  "ring_inv lo n ps \<longleftrightarrow> length ps = PART_COUNT \<and> lo \<le> n \<and> n \<le> lo + PART_COUNT \<and>
     (\<forall>q. retained ps q \<longleftrightarrow> lo < q \<and> q \<le> n) \<and>
     (\<forall>i<PART_COUNT. part_ok (ps ! i) \<and>
        (pt_data (ps ! i) \<noteq> None \<longrightarrow> 0 < pt_seq (ps ! i) \<and> pt_seq (ps ! i) mod PART_COUNT = i))"

lemma PART_COUNT_pos [simp]: "0 < PART_COUNT"
  by (simp add: PART_COUNT_def)

lemma slot_lt [simp]: "q mod PART_COUNT < PART_COUNT"
  by simp

lemma slot_unique:
  assumes "q mod PART_COUNT = r mod PART_COUNT" "q < r" "r \<le> q + PART_COUNT"
  shows "r = q + PART_COUNT"
proof -
  have "PART_COUNT dvd r - q" using assms mod_eq_dvd_iff_nat [of q r PART_COUNT] by simp
  then have "PART_COUNT \<le> r - q" using assms(2) by (intro dvd_imp_le) auto
  then show ?thesis using assms by simp
qed

lemma slot_inj: "lo < q \<Longrightarrow> q \<le> n \<Longrightarrow> lo < r \<Longrightarrow> r \<le> n \<Longrightarrow> n \<le> lo + PART_COUNT \<Longrightarrow>
    q mod PART_COUNT = r mod PART_COUNT \<Longrightarrow> q = r"
  using slot_unique [of q r] slot_unique [of r q] by (cases q r rule: linorder_cases) auto

text \<open>The bytes of the ring are those of its run of fragments.\<close>

lemma ring_bytes_run:
  assumes "ring_inv lo n ps"
  shows "ring_bytes ps = (\<Sum>q\<in>{lo<..n}. pt_size (ps ! (q mod PART_COUNT)))"
proof -
  let ?slot = "\<lambda>q. q mod PART_COUNT"
  have inj: "inj_on ?slot {lo<..n}" by (rule inj_onI) (use assms slot_inj in \<open>auto simp: ring_inv_def\<close>)
  have "ring_bytes ps = (\<Sum>i\<in>?slot ` {lo<..n}. pt_size (ps ! i))"
    unfolding ring_bytes_def
  proof (rule sum.mono_neutral_right)
    show "\<forall>i\<in>{..<PART_COUNT} - ?slot ` {lo<..n}. pt_size (ps ! i) = 0"
    proof
      fix i assume i: "i \<in> {..<PART_COUNT} - ?slot ` {lo<..n}"
      have "pt_data (ps ! i) = None"
      proof (rule ccontr)
        assume d: "pt_data (ps ! i) \<noteq> None"
        then have "0 < pt_seq (ps ! i)" "pt_seq (ps ! i) mod PART_COUNT = i" using assms i by (auto simp: ring_inv_def)
        then have "retained ps (pt_seq (ps ! i))" using d by (simp add: retained_def)
        then have "pt_seq (ps ! i) \<in> {lo<..n}" using assms by (simp add: ring_inv_def)
        then show False using i \<open>pt_seq (ps ! i) mod PART_COUNT = i\<close> by force
      qed
      then show "pt_size (ps ! i) = 0" using assms i by (auto simp: ring_inv_def part_ok_def)
    qed
  qed auto
  then show ?thesis by (simp add: sum.reindex [OF inj])
qed

lemma retained_ok: "ring_inv lo n ps \<Longrightarrow> lo < q \<Longrightarrow> q \<le> n \<Longrightarrow>
    \<exists>d. pt_data (ps ! (q mod PART_COUNT)) = Some d \<and> pt_size (ps ! (q mod PART_COUNT)) = length d \<and> d \<noteq> [] \<and>
        length d \<le> PART_LIMIT \<and> pt_seq (ps ! (q mod PART_COUNT)) = q"
proof -
  assume a: "ring_inv lo n ps" "lo < q" "q \<le> n"
  then have "retained ps q" "part_ok (ps ! (q mod PART_COUNT))" by (auto simp: ring_inv_def)
  then show ?thesis by (auto simp: retained_def part_ok_def)
qed

lemma ring_bytes_update:
  assumes "length ps = PART_COUNT" "i < PART_COUNT"
  shows "ring_bytes (ps[i := p]) + pt_size (ps ! i) = ring_bytes ps + pt_size p"
proof -
  have "ring_bytes (ps[i := p]) = pt_size (ps[i := p] ! i) + (\<Sum>j\<in>{..<PART_COUNT} - {i}. pt_size (ps[i := p] ! j))"
    unfolding ring_bytes_def by (rule sum.remove) (use assms in auto)
  also have "(\<Sum>j\<in>{..<PART_COUNT} - {i}. pt_size (ps[i := p] ! j)) = (\<Sum>j\<in>{..<PART_COUNT} - {i}. pt_size (ps ! j))"
    by (rule sum.cong) auto
  finally have "ring_bytes (ps[i := p]) = pt_size p + (\<Sum>j\<in>{..<PART_COUNT} - {i}. pt_size (ps ! j))" using assms by simp
  moreover have "ring_bytes ps = pt_size (ps ! i) + (\<Sum>j\<in>{..<PART_COUNT} - {i}. pt_size (ps ! j))"
    unfolding ring_bytes_def by (rule sum.remove) (use assms in auto)
  ultimately show ?thesis by simp
qed

text \<open>Placing the next fragment: it overwrites at most the one that is a full turn older.\<close>

lemma ring_place:
  assumes inv: "ring_inv lo n ps" and p: "part_ok p" "pt_data p \<noteq> None" "pt_seq p = n + 1"
  shows "ring_inv (max lo (n + 1 - PART_COUNT)) (n + 1) (ps[(n + 1) mod PART_COUNT := p])"
proof -
  let ?i = "(n + 1) mod PART_COUNT" and ?ps = "ps[(n + 1) mod PART_COUNT := p]" and ?lo = "max lo (n + 1 - PART_COUNT)"
  have l: "length ps = PART_COUNT" and lo: "lo \<le> n" "n \<le> lo + PART_COUNT" using inv by (simp_all add: ring_inv_def)
  have nth: "?ps ! j = (if j = ?i then p else ps ! j)" if "j < PART_COUNT" for j using l that by (simp add: nth_list_update)
  have "retained ?ps q \<longleftrightarrow> ?lo < q \<and> q \<le> n + 1" for q
  proof (cases "q mod PART_COUNT = ?i")
    case True
    then have "retained ?ps q \<longleftrightarrow> q = n + 1" using p nth [of "q mod PART_COUNT"] by (auto simp: retained_def)
    moreover have "q = n + 1" if "?lo < q" "q \<le> n + 1"
      using slot_unique [of q "n + 1"] True that by fastforce
    ultimately show ?thesis using lo by auto
  next
    case False
    then have "retained ?ps q \<longleftrightarrow> lo < q \<and> q \<le> n" using nth [of "q mod PART_COUNT"] inv by (simp add: retained_def ring_inv_def)
    moreover have "q \<noteq> n + 1 - PART_COUNT" if "lo < q"
    proof
      assume "q = n + 1 - PART_COUNT"
      then have "q + PART_COUNT = n + 1" using that by simp
      then show False using False by (metis mod_add_self2)
    qed
    moreover have "q \<noteq> n + 1" using False by blast
    ultimately show ?thesis using lo by (auto simp: max_def)
  qed
  then show ?thesis using inv p l lo by (auto simp: ring_inv_def nth_list_update)
qed

text \<open>Dropping the oldest fragment.\<close>

lemma ring_drop:
  assumes inv: "ring_inv lo n ps" and "lo < n" and i: "i = (lo + 1) mod PART_COUNT"
  shows "ring_inv (lo + 1) n (ps[i := (ps ! i)\<lparr>pt_data := None, pt_size := 0\<rparr>])"
proof -
  let ?ps = "ps[i := (ps ! i)\<lparr>pt_data := None, pt_size := 0\<rparr>]"
  have l: "length ps = PART_COUNT" and lo: "lo \<le> n" "n \<le> lo + PART_COUNT" using inv by (simp_all add: ring_inv_def)
  have nth: "?ps ! j = (if j = i then (ps ! i)\<lparr>pt_data := None, pt_size := 0\<rparr> else ps ! j)" if "j < PART_COUNT" for j
    using l that i by (simp add: nth_list_update)
  have "retained ?ps q \<longleftrightarrow> lo + 1 < q \<and> q \<le> n" for q
  proof (cases "q mod PART_COUNT = i")
    case True
    then have "\<not> retained ?ps q" using nth [of "q mod PART_COUNT"] by (auto simp: retained_def)
    moreover have "\<not> (lo + 1 < q \<and> q \<le> n)" using slot_inj [of lo q n "lo + 1"] True i lo assms(2) by auto
    ultimately show ?thesis by simp
  next
    case False
    then have "retained ?ps q \<longleftrightarrow> lo < q \<and> q \<le> n" using nth [of "q mod PART_COUNT"] inv by (simp add: retained_def ring_inv_def)
    moreover have "q \<noteq> lo + 1" using False i by blast
    ultimately show ?thesis by auto
  qed
  then show ?thesis using inv l lo assms(2) by (auto simp: ring_inv_def nth part_ok_def)
qed

lemma oldest_part_run:
  assumes inv: "ring_inv lo n ps" and "lo < n"
  shows "oldest_part ps = Some ((lo + 1) mod PART_COUNT)"
proof -
  let ?P = "\<lambda>i. pt_data (ps ! i) \<noteq> None"
  have seq: "lo < pt_seq (ps ! i) \<and> pt_seq (ps ! i) mod PART_COUNT = i" if "i < PART_COUNT" "?P i" for i
  proof -
    have s: "0 < pt_seq (ps ! i)" "pt_seq (ps ! i) mod PART_COUNT = i" using inv that by (auto simp: ring_inv_def)
    then have "retained ps (pt_seq (ps ! i))" using that by (simp add: retained_def)
    then show ?thesis using s inv by (simp add: ring_inv_def)
  qed
  have old: "?P ((lo + 1) mod PART_COUNT)" "pt_seq (ps ! ((lo + 1) mod PART_COUNT)) = lo + 1"
    using retained_ok [OF inv, of "lo + 1"] assms(2) by auto
  have f: "case oldest_part ps of None \<Rightarrow> \<forall>i<PART_COUNT. \<not> ?P i
     | Some v \<Rightarrow> v < PART_COUNT \<and> ?P v \<and> (\<forall>i<PART_COUNT. ?P i \<longrightarrow> pt_seq (ps ! v) \<le> pt_seq (ps ! i))"
    unfolding oldest_part_def by (rule fold_least)
  moreover have "oldest_part ps \<noteq> None" 
  proof
    assume "oldest_part ps = None"
    with f have "\<forall>i<PART_COUNT. \<not> ?P i" by simp
    then show False using old(1) slot_lt by blast
  qed
  ultimately obtain v where v: "oldest_part ps = Some v" "v < PART_COUNT" "?P v"
    "\<forall>i<PART_COUNT. ?P i \<longrightarrow> pt_seq (ps ! v) \<le> pt_seq (ps ! i)" by auto
  from v(4) old(1) have "pt_seq (ps ! v) \<le> pt_seq (ps ! ((lo + 1) mod PART_COUNT))" using slot_lt by blast
  then have "pt_seq (ps ! v) \<le> lo + 1" unfolding old(2) .
  then have "pt_seq (ps ! v) = lo + 1" using seq [OF v(2,3)] by simp
  then show ?thesis using v seq [of v] by simp
qed

lemma shrink_run:
  assumes "ring_inv lo n ps" "lo < n"
  shows "\<exists>lo' ps'. shrink (ring_bytes ps) ps = Some (ring_bytes ps', ps') \<and> lo \<le> lo' \<and> lo' < n \<and> ring_inv lo' n ps' \<and>
    ring_bytes ps' \<le> TOTAL_LIMIT \<and> (\<forall>q. lo' < q \<and> q \<le> n \<longrightarrow> ps' ! (q mod PART_COUNT) = ps ! (q mod PART_COUNT))"
  using assms
proof (induction "n - lo" arbitrary: lo ps rule: less_induct)
  case less
  show ?case
  proof (cases "ring_bytes ps > TOTAL_LIMIT")
    case False
    then show ?thesis using less.prems by (subst shrink.simps) auto
  next
    case True
    let ?i = "(lo + 1) mod PART_COUNT"
    let ?ps = "ps[?i := (ps ! ?i)\<lparr>pt_data := None, pt_size := 0\<rparr>]"
    have l: "length ps = PART_COUNT" "n \<le> lo + PART_COUNT" using less.prems by (simp_all add: ring_inv_def)
    have "lo + 1 \<noteq> n"
    proof
      assume "lo + 1 = n"
      then have "{lo<..n} = {n}" by auto
      then have "ring_bytes ps \<le> PART_LIMIT"
        using ring_bytes_run [OF less.prems(1)] retained_ok [OF less.prems(1), of n] less.prems(2) by auto
      then show False using True by (simp add: PART_LIMIT_def TOTAL_LIMIT_def)
    qed
    then have lt: "lo + 1 < n" using less.prems(2) by simp
    have inv: "ring_inv (lo + 1) n ?ps" by (rule ring_drop [OF less.prems refl])
    have b: "ring_bytes ps - pt_size (ps ! ?i) = ring_bytes ?ps"
      using ring_bytes_update [OF l(1), of ?i "(ps ! ?i)\<lparr>pt_data := None, pt_size := 0\<rparr>"] by simp
    have "n - (lo + 1) < n - lo" using lt by simp
    from less(1) [OF this inv lt] obtain lo' ps' where r: "shrink (ring_bytes ?ps) ?ps = Some (ring_bytes ps', ps')"
      "lo + 1 \<le> lo'" "lo' < n" "ring_inv lo' n ps'" "ring_bytes ps' \<le> TOTAL_LIMIT"
      "\<forall>q. lo' < q \<and> q \<le> n \<longrightarrow> ps' ! (q mod PART_COUNT) = ?ps ! (q mod PART_COUNT)" by blast
    have same: "?ps ! (q mod PART_COUNT) = ps ! (q mod PART_COUNT)" if "lo' < q" "q \<le> n" for q
    proof -
      have "q mod PART_COUNT \<noteq> ?i" using slot_inj [of lo q n "lo + 1"] that r(2) l(2) less.prems(2) by auto
      then show ?thesis by simp
    qed
    have "shrink (ring_bytes ps) ps = Some (ring_bytes ps', ps')"
      by (subst shrink.simps) (use True oldest_part_run [OF less.prems] b r(1) in simp)
    then show ?thesis using r same by (intro exI [of _ lo'] exI [of _ ps']) auto
  qed
qed

lemma newest_key_fold:
  "case fold (\<lambda>i k. if P i \<and> f i > k then f i else k) [0..<n] 0 of
     k \<Rightarrow> (\<forall>i<n. P i \<longrightarrow> f i \<le> (k::nat)) \<and> (k = 0 \<or> (\<exists>i<n. P i \<and> f i = k))"
  by (induction n) (auto simp: Let_def less_Suc_eq)

lemma newest_key_run:
  assumes inv: "ring_inv lo n ps"
  shows "(\<forall>q. lo < q \<and> q \<le> n \<and> pt_key (ps ! (q mod PART_COUNT)) \<longrightarrow> q \<le> newest_key ps) \<and>
    (newest_key ps = 0 \<or> (lo < newest_key ps \<and> newest_key ps \<le> n \<and> pt_key (ps ! (newest_key ps mod PART_COUNT))))"
proof -
  let ?P = "\<lambda>i. pt_data (ps ! i) \<noteq> None \<and> pt_key (ps ! i)"
  have f: "(\<forall>i<PART_COUNT. ?P i \<longrightarrow> pt_seq (ps ! i) \<le> newest_key ps) \<and>
      (newest_key ps = 0 \<or> (\<exists>i<PART_COUNT. ?P i \<and> pt_seq (ps ! i) = newest_key ps))"
    using newest_key_fold [where P = ?P and f = "\<lambda>i. pt_seq (ps ! i)" and n = PART_COUNT] unfolding newest_key_def by (simp add: conj_assoc)
  have "q \<le> newest_key ps" if "lo < q" "q \<le> n" "pt_key (ps ! (q mod PART_COUNT))" for q
    using f retained_ok [OF inv that(1,2)] that(3) slot_lt [of q] by fastforce
  moreover have "lo < newest_key ps \<and> newest_key ps \<le> n \<and> pt_key (ps ! (newest_key ps mod PART_COUNT))" if nz: "newest_key ps \<noteq> 0"
  proof -
    obtain i where i: "i < PART_COUNT" "?P i" "pt_seq (ps ! i) = newest_key ps" using f nz by blast
    then have "pt_seq (ps ! i) mod PART_COUNT = i" using inv by (auto simp: ring_inv_def)
    then show ?thesis using i inv nz by (auto simp: ring_inv_def retained_def)
  qed
  ultimately show ?thesis by blast
qed

section \<open>The callback and the scans\<close>

definition chunk_bytes :: "chunk \<Rightarrow> byte list" where
  "chunk_bytes c = (case c of (sz, data, _) \<Rightarrow> take (nat sz) data)"

lemma mux_output_frame:
  "\<exists>p w. mux_output c s = s\<lparr>pending := p, write_failed := w\<rparr> \<and> (length (pending s) \<le> PART_LIMIT \<longrightarrow> length p \<le> PART_LIMIT) \<and>
     (\<not> w \<longrightarrow> \<not> write_failed s \<and> p = pending s @ chunk_bytes c)"
proof (cases c)
  case (fields sz data alloc)
  show ?thesis
  proof (cases "sz < 0 \<or> nat sz > PART_LIMIT - length (pending s) \<or> \<not> alloc")
    case True
    then have "mux_output c s = s\<lparr>pending := pending s, write_failed := True\<rparr>" by (auto simp: mux_output_def fields)
    then show ?thesis by blast
  next
    case False
    then have "mux_output c s = s\<lparr>pending := pending s @ take (nat sz) data, write_failed := write_failed s\<rparr>"
      by (auto simp: mux_output_def fields)
    moreover have "length (pending s @ take (nat sz) data) \<le> PART_LIMIT" if "length (pending s) \<le> PART_LIMIT"
      using False that by auto
    ultimately show ?thesis
      by (intro exI [of _ "pending s @ take (nat sz) data"] exI [of _ "write_failed s"]) (auto simp: chunk_bytes_def fields)
  qed
qed

lemma mux_outputs_frame:
  "\<exists>p w. fold mux_output cs s = s\<lparr>pending := p, write_failed := w\<rparr> \<and> (length (pending s) \<le> PART_LIMIT \<longrightarrow> length p \<le> PART_LIMIT) \<and>
     (\<not> w \<longrightarrow> \<not> write_failed s \<and> p = pending s @ concat (map chunk_bytes cs))"
proof (induction cs arbitrary: s)
  case Nil
  show ?case by (intro exI [of _ "pending s"] exI [of _ "write_failed s"]) simp
next
  case (Cons c cs)
  obtain p w where 1: "mux_output c s = s\<lparr>pending := p, write_failed := w\<rparr>"
    "length (pending s) \<le> PART_LIMIT \<longrightarrow> length p \<le> PART_LIMIT" "\<not> w \<longrightarrow> \<not> write_failed s \<and> p = pending s @ chunk_bytes c"
    using mux_output_frame [of c s] by blast
  obtain p' w' where 2: "fold mux_output cs (s\<lparr>pending := p, write_failed := w\<rparr>) = s\<lparr>pending := p', write_failed := w'\<rparr>"
    "length p \<le> PART_LIMIT \<longrightarrow> length p' \<le> PART_LIMIT" "\<not> w' \<longrightarrow> \<not> w \<and> p' = p @ concat (map chunk_bytes cs)"
    using Cons.IH [of "s\<lparr>pending := p, write_failed := w\<rparr>"] by auto
  then show ?case using 1 by (intro exI [of _ p'] exI [of _ w']) auto
qed

text \<open>A muxer that stays within the limit, with memory available, makes no call fail.\<close>

lemma mux_outputs_complete:
  assumes "\<forall>(sz, d, alloc) \<in> set cs. sz = int (length d) \<and> alloc"
    and "length (pending s) + length (concat (map chunk_bytes cs)) \<le> PART_LIMIT" and "\<not> write_failed s"
  shows "fold mux_output cs s = s\<lparr>pending := pending s @ concat (map chunk_bytes cs)\<rparr>"
  using assms
proof (induction cs arbitrary: s)
  case (Cons c cs)
  obtain sz d alloc where c: "c = (sz, d, alloc)" by (cases c)
  then have "mux_output c s = s\<lparr>pending := pending s @ chunk_bytes c\<rparr>"
    using Cons.prems by (auto simp: mux_output_def chunk_bytes_def)
  then show ?case using Cons.IH [of "s\<lparr>pending := pending s @ chunk_bytes c\<rparr>"] Cons.prems by simp
qed simp

lemma nalu_scan_step:
  "nalu_scan data wanted i = (if i + 4 < length data
     then (if (data ! i = 0 \<and> data ! (i + 1) = 0 \<and> data ! (i + 2) = 1 \<and> data ! (i + 3) AND 31 = wanted) \<or>
             (data ! i = 0 \<and> data ! (i + 1) = 0 \<and> data ! (i + 2) = 0 \<and> data ! (i + 3) = 1 \<and> data ! (i + 4) AND 31 = wanted)
           then Some True else nalu_scan data wanted (i + 1))
     else Some False)"
proof (cases "i + 4 < length data")
  case True
  then have r: "rd data i = Some (data ! i)" "rd data (i + 1) = Some (data ! (i + 1))" "rd data (i + 2) = Some (data ! (i + 2))"
    "rd data (i + 3) = Some (data ! (i + 3))" "rd data (i + 4) = Some (data ! (i + 4))" "i + 5 \<le> length data"
    by (auto simp: rd_def)
  show ?thesis by (subst nalu_scan.simps) (use True r in \<open>auto simp: Let_def\<close>)
qed (subst nalu_scan.simps, simp)

text \<open>Where the scan finds a NAL unit of the wanted type.\<close>

definition nalu_at :: "byte list \<Rightarrow> byte \<Rightarrow> nat \<Rightarrow> bool" where
  "nalu_at data wanted i \<longleftrightarrow> i + 4 < length data \<and>
     ((take 3 (drop i data) = [0, 0, 1] \<and> data ! (i + 3) AND 31 = wanted) \<or>
      (take 4 (drop i data) = [0, 0, 0, 1] \<and> data ! (i + 4) AND 31 = wanted))"

lemma take_drop_eq3:
  assumes "i + 4 < length xs"
  shows "take 3 (drop i xs) = [xs ! i, xs ! (i + 1), xs ! (i + 2)]"
    and "take 4 (drop i xs) = [xs ! i, xs ! (i + 1), xs ! (i + 2), xs ! (i + 3)]"
proof -
  have e: "i + 4 = Suc (Suc (Suc (Suc i)))" by simp
  have "drop i xs = xs ! i # xs ! (i + 1) # xs ! (i + 2) # xs ! (i + 3) # drop (i + 4) xs"
    unfolding e using assms Cons_nth_drop_Suc [of i xs] Cons_nth_drop_Suc [of "i + 1" xs] Cons_nth_drop_Suc [of "i + 2" xs]
      Cons_nth_drop_Suc [of "i + 3" xs] by (simp add: numeral_2_eq_2 numeral_3_eq_3)
  then show "take 3 (drop i xs) = [xs ! i, xs ! (i + 1), xs ! (i + 2)]"
    "take 4 (drop i xs) = [xs ! i, xs ! (i + 1), xs ! (i + 2), xs ! (i + 3)]" by simp_all
qed

lemma nalu_scan_eq: "nalu_scan data wanted i = Some (\<exists>j\<ge>i. nalu_at data wanted j)"
proof (induction "length data - i" arbitrary: i rule: less_induct)
  case less
  have here: "nalu_at data wanted i \<longleftrightarrow> i + 4 < length data \<and>
     ((data ! i = 0 \<and> data ! (i + 1) = 0 \<and> data ! (i + 2) = 1 \<and> data ! (i + 3) AND 31 = wanted) \<or>
      (data ! i = 0 \<and> data ! (i + 1) = 0 \<and> data ! (i + 2) = 0 \<and> data ! (i + 3) = 1 \<and> data ! (i + 4) AND 31 = wanted))"
    unfolding nalu_at_def by (rule conj_cong [OF refl]) (simp add: take_drop_eq3 del: One_nat_def)
  have split: "(\<exists>j\<ge>i. nalu_at data wanted j) \<longleftrightarrow> nalu_at data wanted i \<or> (\<exists>j\<ge>i + 1. nalu_at data wanted j)"
    by (metis Suc_eq_plus1 Suc_leD Suc_leI le_neq_implies_less order_refl)
  show ?case
  proof (cases "i + 4 < length data")
    case True
    then have "nalu_scan data wanted (i + 1) = Some (\<exists>j\<ge>i + 1. nalu_at data wanted j)" by (intro less) auto
    moreover have "nalu_scan data wanted i = (if nalu_at data wanted i then Some True else nalu_scan data wanted (i + 1))"
      by (subst nalu_scan_step) (simp only: True here if_True simp_thms)
    ultimately show ?thesis unfolding split by (cases "nalu_at data wanted i") simp_all
  next
    case False
    then show ?thesis by (subst nalu_scan_step) (auto simp: nalu_at_def)
  qed
qed

lemma nalu_type_eq: "nalu_type data wanted = Some (\<exists>j. nalu_at data wanted j)"
  by (simp add: nalu_type_def nalu_scan_eq)

lemma mime_scan_safe: "\<exists>r. mime_scan data i = Some r \<and> (case r of None \<Rightarrow> True | Some t \<Rightarrow> length t < 80)"
proof (induction data i rule: mime_scan.induct)
  case (1 data i)
  show ?case
  proof (cases "i + 8 < length data")
    case False then show ?thesis by (subst mime_scan.simps) auto
  next
    case True
    then have r: "rdn data i 4 = Some (take 4 (drop i data))" "\<And>k. k < 8 \<Longrightarrow> rd data (i + k) = Some (data ! (i + k))"
      by (auto simp: rd_def rdn_def)
    have "\<exists>r. mime_scan data (i + 1) = Some r \<and> (case r of None \<Rightarrow> True | Some t \<Rightarrow> length t < 80)"
      if "\<not> (take 4 (drop i data) = [0, 0, 0, 1] \<and> data ! (i + 4) AND 31 = 7)"
      by (rule 1 [OF True r(1) r(2)]) (use that in auto)
    then show ?thesis by (subst mime_scan.simps) (use True r in \<open>auto simp: length_fit\<close>)
  qed
qed

section \<open>The invariant of the module\<close>

text \<open>The presentation times of the fragments kept are increasing and inside the span of the stream.\<close>

definition times_ok :: "nat \<Rightarrow> 'm video_module \<Rightarrow> bool" where
  "times_ok lo s \<longleftrightarrow>
     (\<forall>q r. lo < q \<and> q < r \<and> r \<le> sequence s \<longrightarrow> pt_pts (part_at s q) < pt_pts (part_at s r)) \<and>
     (\<forall>q. lo < q \<and> q \<le> sequence s \<longrightarrow> pt_pts (part_at s q) \<le> last_pts s - first_pts s) \<and>
     (0 < sequence s \<longrightarrow> have_pts s) \<and> (have_pts s \<longrightarrow> first_pts s \<le> last_pts s \<and> last_pts s \<le> 9223372036854775807)"

definition run_ok :: "nat \<Rightarrow> 'm video_module \<Rightarrow> bool" where
  "run_ok lo s \<longleftrightarrow> ring_inv lo (sequence s) (parts s) \<and> (0 < sequence s \<longrightarrow> lo < sequence s) \<and> times_ok lo s"

definition video_inv :: "'m video_module \<Rightarrow> bool" where
  "video_inv s \<longleftrightarrow> (\<exists>lo. run_ok lo s) \<and> total_size s = ring_bytes (parts s) \<and> ring_bytes (parts s) \<le> TOTAL_LIMIT \<and>
     pending s = [] \<and> \<not> write_failed s \<and> vs_latest (v_state s) = sequence s \<and>
     vs_start (v_state s) = newest_key (parts s) \<and> (vs_available (v_state s) \<longleftrightarrow> vs_start (v_state s) \<noteq> 0) \<and>
     length (vs_mime (v_state s)) < 80 \<and>
     (mux s = None \<longleftrightarrow> init_data s = None) \<and> (mux s \<noteq> None \<longrightarrow> config s \<noteq> None) \<and>
     (mux s = None \<longrightarrow> sequence s = 0 \<and> \<not> have_pts s) \<and>
     (case init_data s of None \<Rightarrow> True | Some d \<Rightarrow> d \<noteq> [] \<and> length d \<le> PART_LIMIT)"

lemma ring_inv_empty: "ring_inv 0 0 (replicate PART_COUNT empty_part)"
  by (auto simp: ring_inv_def retained_def part_ok_def empty_part_def)

lemma ring_bytes_empty: "ring_bytes (replicate PART_COUNT empty_part) = 0"
  by (simp add: ring_bytes_def empty_part_def)

lemma newest_key_empty: "newest_key (replicate PART_COUNT empty_part) = 0"
  using newest_key_run [OF ring_inv_empty] by auto

lemma run_ok_length: "run_ok lo s \<Longrightarrow> length (parts s) = PART_COUNT"
  by (simp add: run_ok_def ring_inv_def)

lemma video_inv_fresh:
  assumes "parts s = replicate PART_COUNT empty_part" "sequence s = 0" "total_size s = 0" "pending s = []" "\<not> write_failed s"
    "vs_latest (v_state s) = 0" "vs_start (v_state s) = 0" "\<not> vs_available (v_state s)" "length (vs_mime (v_state s)) < 80"
    "mux s = None" "init_data s = None" "\<not> have_pts s"
  shows "video_inv s"
  unfolding video_inv_def
  using assms ring_inv_empty
  by (auto simp: ring_bytes_empty newest_key_empty run_ok_def times_ok_def intro!: exI [of _ 0])

lemma clear_step_inv:
  assumes "length (parts s) = PART_COUNT"
  shows "video_inv (clear_step s)"
  using assms by (intro video_inv_fresh)
    (simp_all add: clear_step_def clear_locked_def Let_def video_zero_def map_replicate_const)

lemma clear_step_generation [simp]: "vs_generation (v_state (clear_step s)) = vs_generation (v_state s) + 1"
  by (simp add: clear_step_def Let_def)

lemma video_inv_length: "video_inv s \<Longrightarrow> length (parts s) = PART_COUNT"
  by (auto simp: video_inv_def run_ok_length)

text \<open>Publishing a pending fragment.\<close>

lemma publish_run:
  assumes run: "run_ok lo s" and tot: "total_size s = ring_bytes (parts s)"
    and pend: "pending s \<noteq> []" "length (pending s) \<le> PART_LIMIT"
    and time: "have_pts s" "last_pts s = pts" "first_pts s \<le> pts" "pts \<le> 9223372036854775807"
      "\<And>q. lo < q \<Longrightarrow> q \<le> sequence s \<Longrightarrow> pt_pts (part_at s q) < pts - first_pts s"
  shows "\<exists>lo' s'. publish pts key s = Some s' \<and> run_ok lo' s' \<and> sequence s' = sequence s + 1 \<and>
    ring_bytes (parts s') \<le> TOTAL_LIMIT \<and>
    s' = s\<lparr>sequence := sequence s + 1, parts := parts s', total_size := ring_bytes (parts s'), pending := [],
      v_state := (v_state s)\<lparr>vs_latest := sequence s + 1, vs_start := newest_key (parts s'),
        vs_available := (newest_key (parts s') \<noteq> 0)\<rparr>\<rparr> \<and>
    part_at s' (sequence s + 1) = \<lparr>pt_data = Some (pending s), pt_size = length (pending s), pt_seq = sequence s + 1,
      pt_pts = pts - first_pts s, pt_key = key\<rparr>"
proof -
  define n where "n = sequence s"
  define p where "p = \<lparr>pt_data = Some (pending s), pt_size = length (pending s), pt_seq = n + 1,
      pt_pts = pts - first_pts s, pt_key = key\<rparr>"
  define ps where "ps = (parts s)[(n + 1) mod PART_COUNT := p]"
  define lo1 where "lo1 = max lo (n + 1 - PART_COUNT)"
  have inv: "ring_inv lo n (parts s)" using run by (simp add: run_ok_def n_def)
  have l: "length (parts s) = PART_COUNT" and lo: "lo \<le> n" using inv by (simp_all add: ring_inv_def)
  have "part_ok p" using pend by (simp add: part_ok_def p_def)
  then have inv1: "ring_inv lo1 (n + 1) ps" unfolding ps_def lo1_def by (intro ring_place [OF inv]) (simp_all add: p_def)
  have "total_size s - pt_size (parts s ! ((n + 1) mod PART_COUNT)) + length (pending s) = ring_bytes ps"
  proof -
    have "pt_size (parts s ! ((n + 1) mod PART_COUNT)) \<le> ring_bytes (parts s)"
      unfolding ring_bytes_def by (rule member_le_sum) auto
    then show ?thesis using ring_bytes_update [OF l slot_lt, of "n + 1" p] tot by (simp add: ps_def p_def)
  qed
  note b = this
  have "lo1 < n + 1" using lo by (auto simp: lo1_def)
  from shrink_run [OF inv1 this] obtain lo' ps' where sh: "shrink (ring_bytes ps) ps = Some (ring_bytes ps', ps')" "lo1 \<le> lo'"
    "lo' < n + 1" "ring_inv lo' (n + 1) ps'" "ring_bytes ps' \<le> TOTAL_LIMIT"
    "\<forall>q. lo' < q \<and> q \<le> n + 1 \<longrightarrow> ps' ! (q mod PART_COUNT) = ps ! (q mod PART_COUNT)" by blast
  define s' where "s' = s\<lparr>sequence := n + 1, parts := ps', total_size := ring_bytes ps', pending := [],
      v_state := (v_state s)\<lparr>vs_latest := n + 1, vs_start := newest_key ps', vs_available := (newest_key ps' \<noteq> 0)\<rparr>\<rparr>"
  have pub: "publish pts key s = Some s'"
    using b sh(1) unfolding ps_def p_def by (simp add: publish_def Let_def n_def [symmetric] s'_def)
  have new: "part_at s' (n + 1) = p" using sh(3,6) l by (simp add: part_at_def s'_def ps_def)
  have old: "part_at s' q = part_at s q" if q: "lo' < q" "q \<le> n" for q
  proof -
    have "q mod PART_COUNT \<noteq> (n + 1) mod PART_COUNT"

    proof
      assume e: "q mod PART_COUNT = (n + 1) mod PART_COUNT"
      have "n + 1 - PART_COUNT < q" using q sh(2) by (auto simp: lo1_def)
      then have "n + 1 < q + PART_COUNT" using q(1) by linarith
      then show False using slot_unique [OF e] q by simp
    qed
    then show ?thesis using sh(6) q by (simp add: part_at_def s'_def ps_def)
  qed
  have lo'': "lo \<le> lo'" using sh(2) by (simp add: lo1_def)
  have t: "pt_pts (part_at s' q) < pt_pts (part_at s' r)" if "lo' < q" "q < r" "r \<le> n + 1" for q r
  proof (cases "r = n + 1")
    case True
    then show ?thesis using that new old [of q] time(5) [of q] lo'' by (simp add: p_def n_def)
  next
    case False
    then show ?thesis using that old [of q] old [of r] run lo'' by (simp add: run_ok_def times_ok_def n_def)
  qed
  have u: "pt_pts (part_at s' q) \<le> last_pts s - first_pts s" if "lo' < q" "q \<le> n + 1" for q
    using that new old [of q] time(2) time(5) [of q] lo''
    by (cases "q = n + 1") (auto simp: p_def n_def less_imp_le)
  have "times_ok lo' s'" using t u time by (auto simp: times_ok_def s'_def part_at_def)
  then have "run_ok lo' s'" using sh(3,4) by (simp add: run_ok_def s'_def)
  moreover have "parts s' = ps'" by (simp add: s'_def)
  ultimately show ?thesis using pub new sh(5) unfolding n_def p_def
    by (intro exI [of _ lo'] exI [of _ s']) (simp add: s'_def n_def)
qed

lemma initialize_run:
  assumes inv: "video_inv s" and "mux s = None" and cfg: "config s = Some cfg" and i: "initialize ff cfg data s = Some s1"
  shows "video_inv s1 \<and> mux s1 \<noteq> None \<and> config s1 = config s \<and> \<not> have_pts s1 \<and> sequence s1 = sequence s \<and>
    vs_generation (v_state s1) = vs_generation (v_state s)"
proof -
  from i obtain w h m cs where d: "ff_header ff cfg w h = Some (m, cs)"
    and s1: "let s2 = fold mux_output cs (s\<lparr>mux := Some m, v_state := (v_state s)\<lparr>vs_width := of_int w, vs_height := of_int h\<rparr>\<rparr>)
       in \<not> write_failed s2 \<and> pending s2 \<noteq> [] \<and> s1 = s2\<lparr>init_data := Some (pending s2), pending := []\<rparr>"
    unfolding initialize_def by (auto simp: Let_def split: option.splits if_splits)
  let ?s = "s\<lparr>mux := Some m, v_state := (v_state s)\<lparr>vs_width := of_int w, vs_height := of_int h\<rparr>\<rparr>"
  obtain p f where f: "fold mux_output cs ?s = ?s\<lparr>pending := p, write_failed := f\<rparr>"
    "length (pending ?s) \<le> PART_LIMIT \<longrightarrow> length p \<le> PART_LIMIT"
    using mux_outputs_frame [of cs ?s] by blast
  have eq: "s1 = ?s\<lparr>pending := [], write_failed := False, init_data := Some p\<rparr>" "p \<noteq> []" "length p \<le> PART_LIMIT"
    using s1 f inv by (auto simp: Let_def video_inv_def)
  have "run_ok lo s1 \<longleftrightarrow> run_ok lo s" for lo by (simp add: eq run_ok_def times_ok_def part_at_def)
  then show ?thesis using inv assms(2) cfg eq by (auto simp: video_inv_def)
qed

text \<open>The part of the frame handler after the muxer is open.\<close>

lemma frame_write_run:
  assumes inv: "video_inv s" and m: "mux s = Some m" and time: "\<not> (have_pts s \<and> pts \<le> last_pts s)" "pts \<le> 9223372036854775807"
  defines "s2 \<equiv> (if have_pts s then s else s\<lparr>first_pts := pts, have_pts := True\<rparr>)\<lparr>last_pts := pts\<rparr>"
  assumes ps: "p \<noteq> []" "length p \<le> PART_LIMIT"
  shows "\<exists>s'. publish pts key (s2\<lparr>mux := Some m', pending := p, write_failed := False\<rparr>) = Some s' \<and> video_inv s' \<and>
    sequence s' = sequence s + 1 \<and> pt_data (part_at s' (sequence s')) = Some p \<and>
    vs_generation (v_state s') = vs_generation (v_state s)"
proof -
  let ?s = "s2\<lparr>mux := Some m', pending := p, write_failed := False\<rparr>"
  obtain lo where run: "run_ok lo s" using inv by (auto simp: video_inv_def)
  have f: "sequence ?s = sequence s" "parts ?s = parts s" "have_pts ?s" "last_pts ?s = pts" "first_pts ?s \<le> pts"
    using run time by (auto simp: s2_def run_ok_def times_ok_def)
  have late: "pt_pts (part_at s q) < pts - first_pts ?s" if "lo < q" "q \<le> sequence s" for q
  proof -
    have "have_pts s" "first_pts s \<le> last_pts s" "pt_pts (part_at s q) \<le> last_pts s - first_pts s"
      using run that by (auto simp: run_ok_def times_ok_def)
    then show ?thesis using time by (simp add: s2_def)
  qed
  have "run_ok lo ?s"
    using run f late time unfolding run_ok_def times_ok_def by (simp add: part_at_def less_imp_le)
  moreover have "total_size ?s = ring_bytes (parts ?s)" using inv by (simp add: s2_def video_inv_def)
  ultimately obtain lo' s' where s': "publish pts key ?s = Some s'" "run_ok lo' s'" "sequence s' = sequence s + 1"
    "ring_bytes (parts s') \<le> TOTAL_LIMIT"
    "s' = ?s\<lparr>sequence := sequence ?s + 1, parts := parts s', total_size := ring_bytes (parts s'), pending := [],
      v_state := (v_state ?s)\<lparr>vs_latest := sequence ?s + 1, vs_start := newest_key (parts s'),
        vs_available := (newest_key (parts s') \<noteq> 0)\<rparr>\<rparr>"
    "pt_data (part_at s' (sequence s + 1)) = Some p"
    using publish_run [of lo ?s pts key] ps f late time by (auto simp: part_at_def)
  have v: "v_state s' = (v_state s)\<lparr>vs_latest := sequence s + 1, vs_start := newest_key (parts s'),
        vs_available := (newest_key (parts s') \<noteq> 0)\<rparr>" "total_size s' = ring_bytes (parts s')" "pending s' = []"
    "\<not> write_failed s'" "mux s' = Some m'" "init_data s' = init_data s" "config s' = config s"
    by (subst s'(5), simp add: s2_def)+
  have "video_inv s'" unfolding video_inv_def using s'(2-4) v inv m by (auto simp: video_inv_def)
  then show ?thesis using s' v by auto
qed

lemma outputs_of_frame:
  fixes s2 :: "'m video_module"
  assumes "pending s2 = []" and "\<not> write_failed (fold mux_output cs (s2\<lparr>mux := Some m\<rparr>))"
    "pending (fold mux_output cs (s2\<lparr>mux := Some m\<rparr>)) \<noteq> []"
  shows "\<exists>p. fold mux_output cs (s2\<lparr>mux := Some m\<rparr>) = s2\<lparr>mux := Some m, pending := p, write_failed := False\<rparr> \<and>
    p \<noteq> [] \<and> length p \<le> PART_LIMIT \<and> p = concat (map chunk_bytes cs)"
proof -
  obtain p w where f: "fold mux_output cs (s2\<lparr>mux := Some m\<rparr>) = s2\<lparr>mux := Some m, pending := p, write_failed := w\<rparr>"
    "length p \<le> PART_LIMIT" "\<not> w \<longrightarrow> p = concat (map chunk_bytes cs)"
    using mux_outputs_frame [of cs "s2\<lparr>mux := Some m\<rparr>"] assms(1) by auto
  then show ?thesis using assms(2,3) by auto
qed

lemma outputs_length: "length (parts (fold mux_output cs s)) = length (parts s)"
  using mux_outputs_frame [of cs s] by auto

lemma video_frame_total:
  assumes inv: "video_inv s"
  shows "\<exists>r s'. airtizen_video_frame ff d pts s = Some (r, s') \<and> video_inv s'"
proof -
  let ?f = "airtizen_video_frame ff d pts s"
  have stay: ?thesis if "?f = Some (r, s)" for r using that inv by blast
  show ?thesis
  proof (cases d)
    case None then show ?thesis using stay by (simp add: airtizen_video_frame_def)
  next
    case (Some data)
    obtain key where key: "nalu_type data 5 = Some key" using nalu_type_eq by blast
    show ?thesis
    proof (cases "data = [] \<or> length data > PART_LIMIT \<or> pts > 9223372036854775807 \<or> config s = None \<or> (mux s = None \<and> \<not> key)")
      case True
      then have "\<exists>r. ?f = Some (r, s)" using Some key by (auto simp: airtizen_video_frame_def split: option.split)
      then show ?thesis using inv by blast
    next
      case False
      then obtain cfg where cfg: "config s = Some cfg" by auto
      define open_s where "open_s = (if mux s = None then initialize ff cfg data s else Some s)"
      show ?thesis
      proof (cases open_s)
        case None
        then have "?f = Some (-1, clear_step s)" using Some key False cfg unfolding open_s_def
          by (simp add: airtizen_video_frame_def)
        then show ?thesis using clear_step_inv [OF video_inv_length [OF inv]] by blast
      next
        case o: (Some s1)
        have inv1: "video_inv s1" "mux s1 \<noteq> None"
          using o inv initialize_run [OF inv _ cfg, of ff data s1] by (auto simp: open_s_def split: if_splits)
        then obtain m where m: "mux s1 = Some m" by blast
        define s2 where "s2 = (if have_pts s1 then s1 else s1\<lparr>first_pts := pts, have_pts := True\<rparr>)\<lparr>last_pts := pts\<rparr>"
        obtain ok m' cs where w: "ff_write ff m data (pts - first_pts s2) key = (ok, m', cs)" by (metis prod_cases3)
        define s3 where "s3 = fold mux_output cs (s2\<lparr>mux := Some m'\<rparr>)"
        have m2: "mux s2 = Some m" "pending s2 = []" "length (parts s2) = PART_COUNT"
          using m inv1 video_inv_length [OF inv1(1)] by (auto simp: s2_def video_inv_def)
        have f: "?f = (if have_pts s1 \<and> pts \<le> last_pts s1 then Some (-1, s1)
            else if \<not> ok \<or> write_failed s3 \<or> pending s3 = [] then Some (-1, clear_step s3)
            else do { s4 \<leftarrow> publish pts key s3; Some (1, s4) })"
          using Some key False cfg o m2(1) w
          by (simp add: airtizen_video_frame_def open_s_def [symmetric] s2_def [symmetric] s3_def [symmetric] Let_def) auto
        show ?thesis
        proof (cases "have_pts s1 \<and> pts \<le> last_pts s1")
          case True
          then show ?thesis using f inv1(1) by simp
        next
          case time: False
          show ?thesis
          proof (cases "\<not> ok \<or> write_failed s3 \<or> pending s3 = []")
            case True
            then have "?f = Some (-1, clear_step s3)" using f time by simp
            moreover have "length (parts s3) = PART_COUNT" using m2 by (simp add: s3_def outputs_length)
            ultimately show ?thesis using clear_step_inv by blast
          next
            case ok: False
            obtain p where p: "s3 = s2\<lparr>mux := Some m', pending := p, write_failed := False\<rparr>" "p \<noteq> []" "length p \<le> PART_LIMIT"
              using outputs_of_frame [OF m2(2)] ok unfolding s3_def by blast
            have "\<exists>s'. publish pts key s3 = Some s' \<and> video_inv s'"
              using frame_write_run [OF inv1(1) m time _ p(2,3), of key m'] False unfolding p(1) s2_def by auto
            then show ?thesis using f time ok by auto
          qed
        qed
      qed
    qed
  qed
qed

lemma video_configure_total:
  assumes "video_inv s"
  shows "\<exists>r s'. airtizen_video_configure alloc d s = Some (r, s') \<and> video_inv s'"
proof (cases d)
  case None then show ?thesis using assms by (simp add: airtizen_video_configure_def)
next
  case (Some data)
  obtain t where t: "mime_scan data 0 = Some t" "case t of None \<Rightarrow> True | Some x \<Rightarrow> length x < 80" using mime_scan_safe by blast
  have c: "video_inv (clear_step s)" by (rule clear_step_inv [OF video_inv_length [OF assms]])
  have "video_inv ((clear_step s)\<lparr>config := Some data\<rparr>)" "\<And>x. length x < 80 \<Longrightarrow>
      video_inv ((clear_step s)\<lparr>config := Some data, v_state := (v_state (clear_step s))\<lparr>vs_mime := x\<rparr>\<rparr>)"
    using video_inv_length [OF assms] by (intro video_inv_fresh; simp add: clear_step_def clear_locked_def Let_def video_zero_def map_replicate_const)+
  then show ?thesis using assms c t by (auto simp: airtizen_video_configure_def Some nalu_type_eq Let_def split: option.split)
qed

section \<open>Histories of the module\<close>

datatype video_op = Configure bool "byte list option" | Frame "byte list option" nat | Reset

definition video_step :: "'m ffmpeg \<Rightarrow> video_op \<Rightarrow> 'm video_module \<Rightarrow> 'm video_module" where
  "video_step ff op s = (case op of
       Configure alloc d \<Rightarrow> snd (the (airtizen_video_configure alloc d s))
     | Frame d pts \<Rightarrow> snd (the (airtizen_video_frame ff d pts s))
     | Reset \<Rightarrow> airtizen_video_reset s)"

lemma video_step_inv:
  assumes "video_inv s"
  shows "video_inv (video_step ff op s)"
proof (cases op)
  case (Configure alloc d)
  then show ?thesis using video_configure_total [OF assms, of alloc d] by (auto simp: video_step_def)
next
  case (Frame d pts)
  then show ?thesis using video_frame_total [OF assms, of ff d pts] by (auto simp: video_step_def)
next
  case Reset
  then show ?thesis using clear_step_inv [OF video_inv_length [OF assms]] by (simp add: video_step_def airtizen_video_reset_def)
qed

interpretation video: guarded_component video_init "video_step ff" video_inv
proof
  show "video_inv (video_init :: 'a video_module)" by (rule video_inv_fresh) (simp_all add: video_init_def video_zero_def)
qed (rule video_step_inv)

text \<open>A fragment is asked for under a generation, so a late HLS request is told from a current one.\<close>

interpretation video_generation: generation_guard "\<lambda>s. vs_generation (v_state s)" airtizen_video_reset
  "\<lambda>s g. airtizen_video_hls_segment alloc g first last_seq s \<noteq> Some []"
  by unfold_locales (auto simp: airtizen_video_reset_def airtizen_video_hls_segment_def split: if_splits)

text \<open>What is served for a sequence number.\<close>

lemma video_copy_run:
  assumes "run_ok lo s"
  shows "airtizen_video_copy True False q s = Some (if lo < q \<and> q \<le> sequence s then the (pt_data (part_at s q)) else [],
    vs_generation (v_state s))"
proof (cases "lo < q \<and> q \<le> sequence s")
  case True
  have inv: "ring_inv lo (sequence s) (parts s)" using assms by (simp add: run_ok_def)
  from retained_ok [OF inv, of q] True run_ok_length [OF assms] show ?thesis
    by (auto simp: airtizen_video_copy_def rd_def rdn_def part_at_def)
next
  case False
  have "\<not> retained (parts s) q" using assms False by (simp add: run_ok_def ring_inv_def)
  moreover have "pt_data (parts s ! (q mod PART_COUNT)) = None" if "pt_seq (parts s ! (q mod PART_COUNT)) = q" "q = 0"
  proof -
    have "pt_data (parts s ! 0) \<noteq> None \<longrightarrow> 0 < pt_seq (parts s ! 0)"
      using assms PART_COUNT_pos by (auto simp: run_ok_def ring_inv_def simp del: PART_COUNT_pos)
    then show ?thesis using that by auto
  qed
  ultimately show ?thesis using False run_ok_length [OF assms]
    by (auto simp: airtizen_video_copy_def rd_def part_at_def retained_def split: option.split)
qed

section \<open>Segments and the manifest\<close>

lemma part_size_run:
  assumes "run_ok lo s" "lo < q" "q \<le> sequence s"
  shows "pt_size (part_at s q) = length (the (pt_data (part_at s q)))" "pt_data (part_at s q) \<noteq> None" "pt_seq (part_at s q) = q"
    "the (pt_data (part_at s q)) \<noteq> []"
  using retained_ok [of lo "sequence s" "parts s" q] assms by (auto simp: run_ok_def part_at_def)

definition fragment :: "'m video_module \<Rightarrow> nat \<Rightarrow> byte list" where
  "fragment s q = fst (the (airtizen_video_copy True False q s))"

lemma fragment_run: "run_ok lo s \<Longrightarrow> lo < q \<Longrightarrow> q \<le> sequence s \<Longrightarrow> fragment s q = the (pt_data (part_at s q))"
  by (simp add: fragment_def video_copy_run)

lemma segment_size_run:
  assumes "run_ok lo s" "\<forall>q \<in> set is. lo < q \<and> q \<le> sequence s" "sz + sum_list (map (\<lambda>q. pt_size (part_at s q)) is) \<le> TOTAL_LIMIT"
  shows "segment_size s is sz = Some (sz + sum_list (map (\<lambda>q. pt_size (part_at s q)) is))"
  using assms(2,3)
proof (induction "is" arbitrary: sz)
  case (Cons i "is")
  then show ?case using part_size_run [OF assms(1), of i] by (simp add: Let_def)
qed simp

lemma segment_bytes_run:
  assumes "run_ok lo s" "\<forall>q \<in> set is. lo < q \<and> q \<le> sequence s"
  shows "segment_bytes s is = Some (concat (map (fragment s) is)) \<and>
    length (concat (map (fragment s) is)) = sum_list (map (\<lambda>q. pt_size (part_at s q)) is)"
  using assms(2)
proof (induction "is")
  case (Cons i "is")
  then have i: "lo < i" "i \<le> sequence s" by auto
  then show ?case using Cons part_size_run [OF assms(1) i] fragment_run [OF assms(1) i] by (auto simp: rdn_def)
qed simp

lemma run_bytes_le:
  assumes "run_ok lo s" "lo < a" "b \<le> sequence s + 1"
  shows "sum_list (map (\<lambda>q. pt_size (part_at s q)) [a..<b]) \<le> ring_bytes (parts s)"
proof -
  have "ring_inv lo (sequence s) (parts s)" using assms(1) by (simp add: run_ok_def)
  from ring_bytes_run [OF this] show ?thesis
    unfolding part_at_def interv_sum_list_conv_sum_set_nat
    by (simp only:) (rule sum_mono2, use assms in auto)
qed

lemma group_last_eq: "group_last g = (g + 1) * HLS_GROUP"
  by (simp add: group_last_def group_first_def HLS_GROUP_def)

lemma group_valid_run:
  assumes "run_ok lo s" "group_last g \<le> sequence s"
  shows "group_valid s g \<longleftrightarrow> lo < group_first g"
proof
  assume "group_valid s g"
  then have "retained (parts s) (group_first g)"
    by (simp add: group_valid_def list_all_iff retained_def part_at_def group_last_def group_first_def HLS_GROUP_def)
  then show "lo < group_first g" using assms(1) by (simp add: run_ok_def ring_inv_def)
next
  assume "lo < group_first g"
  then show "group_valid s g" using part_size_run [OF assms(1)] assms(2) by (auto simp: group_valid_def list_all_iff)
qed

lemma hls_groups_run:
  assumes "run_ok lo s" "vs_latest (v_state s) = sequence s" "g \<in> set (hls_groups s)"
  shows "lo < group_first g \<and> group_last g \<le> sequence s"
proof -
  define n where "n = sequence s div HLS_GROUP"
  define f where "f = (if n - 1 > 5 then n - 1 - 5 else 0)"
  define D where "D = dropWhile (\<lambda>g. \<not> group_valid s g) [f..<n - 1 + 1]"
  have g: "g \<in> set D" "n \<noteq> 0"
    using assms(2,3) by (auto simp: hls_groups_def Let_def n_def f_def D_def split: if_splits)
  have le: "group_last h \<le> sequence s" if "h < n" for h
  proof -
    have "(h + 1) * HLS_GROUP \<le> n * HLS_GROUP" using that by (intro mult_le_mono1) simp
    also have "\<dots> \<le> sequence s" by (simp add: n_def)
    finally show ?thesis by (simp add: group_last_eq)
  qed
  have "sorted D" unfolding D_def by (rule sorted_dropWhile) (rule sorted_upt)
  moreover obtain h t where h: "D = h # t"
    using g(1) by (cases D) auto
  ultimately have "h \<le> g" using g(1) by auto
  have sub: "set (h # t) \<subseteq> set [f..<n - 1 + 1]" unfolding h [symmetric] D_def using set_dropWhileD by fast
  then have "h < n" "g < n" using g h by auto
  have "group_valid s h" using hd_dropWhile [of "\<lambda>g. \<not> group_valid s g" "[f..<n - 1 + 1]"] h unfolding D_def by (metis list.sel(1) list.distinct(1))
  then have "lo < group_first h" using group_valid_run [OF assms(1) le [OF \<open>h < n\<close>]] by simp
  also have "\<dots> \<le> group_first g" using \<open>h \<le> g\<close> by (simp add: group_first_def)
  finally show ?thesis using le [OF \<open>g < n\<close>] by simp
qed

lemma hls_segment_run:
  assumes inv: "video_inv s" and g: "g \<in> set (hls_groups s)"
  shows "airtizen_video_hls_segment True (vs_generation (v_state s)) (group_first g) (group_last g) s =
    Some (concat (map (fragment s) [group_first g..<group_last g + 1]))"
    and "\<forall>q \<in> {group_first g..group_last g}. fragment s q \<noteq> []"
proof -
  obtain lo where run: "run_ok lo s" using inv by (auto simp: video_inv_def)
  have latest: "vs_latest (v_state s) = sequence s" and tot: "ring_bytes (parts s) \<le> TOTAL_LIMIT" using inv by (auto simp: video_inv_def)
  have b: "lo < group_first g" "group_last g \<le> sequence s" using hls_groups_run [OF run latest g] by auto
  let ?is = "[group_first g..<group_last g + 1]"
  have r: "\<forall>q \<in> set ?is. lo < q \<and> q \<le> sequence s" using b by auto
  have "sum_list (map (\<lambda>q. pt_size (part_at s q)) ?is) \<le> TOTAL_LIMIT"
    using run_bytes_le [OF run b(1), of "group_last g + 1"] b(2) tot by simp
  then have "segment_size s ?is 0 = Some (sum_list (map (\<lambda>q. pt_size (part_at s q)) ?is))"
    using segment_size_run [OF run r, of 0] by simp
  moreover have "segment_bytes s ?is = Some (concat (map (fragment s) ?is))"
    "length (concat (map (fragment s) ?is)) = sum_list (map (\<lambda>q. pt_size (part_at s q)) ?is)"
    using segment_bytes_run [OF run r] by auto
  moreover have "group_first g \<noteq> 0" "\<not> group_last g < group_first g" "group_last g - group_first g = HLS_GROUP - 1"
    "(group_first g - 1) mod HLS_GROUP = 0" by (simp_all add: group_first_def group_last_def HLS_GROUP_def)
  ultimately show "airtizen_video_hls_segment True (vs_generation (v_state s)) (group_first g) (group_last g) s =
    Some (concat (map (fragment s) [group_first g..<group_last g + 1]))"
    using b(2) latest unfolding airtizen_video_hls_segment_def by (simp add: put_def del: upt_Suc)
  show "\<forall>q \<in> {group_first g..group_last g}. fragment s q \<noteq> []"
    using fragment_run [OF run] part_size_run(4) [OF run] b by auto
qed

lemma length_dec_u64: "n < 2 ^ 64 + 100 \<Longrightarrow> length (dec_nat n) \<le> 20"
  using length_dec_nat [of n 19] by simp

lemma length_dec_u32: "length (dec_nat (unat (g::u32))) \<le> 10"
  using length_dec_nat [of "unat g" 9] unat_u32_lt [of g] by simp

lemma length_seconds6: "us < 2 ^ 64 \<Longrightarrow> length (seconds6 us) \<le> 27"
proof -
  assume "us < 2 ^ 64"
  then have "us div 1000000 < 2 ^ 64 + 100" by (simp add: less_mult_imp_div_less)
  moreover have "length (pad6 (us mod 1000000)) \<le> 6"
    using length_dec_nat [of "us mod 1000000" 5] by (simp add: pad6_def Let_def)
  ultimately show ?thesis using length_dec_u64 [of "us div 1000000"] by (simp add: seconds6_def)
qed

lemma hls_fold:
  assumes "\<forall>h \<in> set hs. length (e h) \<le> k" "length t + length hs * k \<le> 8192"
  shows "fold (\<lambda>h. hls_append (e h)) hs (Some t) = Some (t @ concat (map e hs)) \<and> length (t @ concat (map e hs)) \<le> length t + length hs * k"
  using assms
proof (induction hs arbitrary: t)
  case (Cons h hs)
  have "length (e h) \<le> k" using Cons.prems by simp
  then show ?case using Cons.prems Cons.IH [of "t @ e h"] by (simp add: hls_append_def)
qed simp

lemma target_fold:
  "(m::nat) \<le> foldl (\<lambda>m g. if d g > m then d g else m) m gs \<and>
   (\<forall>g \<in> set gs. d g \<le> foldl (\<lambda>m g. if d g > m then d g else m) m gs) \<and>
   (foldl (\<lambda>m g. if d g > m then d g else m) m gs = m \<or> (\<exists>g \<in> set gs. foldl (\<lambda>m g. if d g > m then d g else m) m gs = d g))"
proof (induction gs arbitrary: m)
  case (Cons g gs)
  let ?m = "if d g > m then d g else m"
  show ?case using Cons.IH [of ?m] by (auto split: if_splits)
qed simp

text \<open>The target duration is a bound in whole seconds of every group's duration.\<close>

lemma hls_target_bound:
  assumes "\<forall>g \<in> set gs. group_duration s g < 4294967295 * 1000000"
  shows "\<exists>t. hls_target s gs = Some t \<and> t < 4294967296 \<and> 1 \<le> t \<and> (\<forall>g \<in> set gs. group_duration s g \<le> t * 1000000)"
proof -
  define mx where "mx = foldl (\<lambda>m g. if group_duration s g > m then group_duration s g else m) 1000000 gs"
  note f = target_fold [of 1000000 "group_duration s" gs, folded mx_def]
  have lt: "mx < 4294967295 * 1000000" using f assms by auto
  then have d: "mx div 1000000 < 4294967295" by (simp add: less_mult_imp_div_less)
  define t where "t = (if mx div 1000000 * 1000000 < mx then mx div 1000000 + 1 else mx div 1000000)"
  have mod: "mx = mx div 1000000 * 1000000 + mx mod 1000000" "mx mod 1000000 < 1000000" by simp_all
  then have "mx \<le> t * 1000000" unfolding t_def by (auto simp: algebra_simps not_less split: if_split)
  moreover have "1 \<le> t" using f d unfolding t_def by auto
  moreover have "hls_target s gs = Some t" using d unfolding hls_target_def t_def by (simp add: Let_def mx_def [symmetric])
  moreover have "t < 4294967296" using d by (auto simp: t_def)
  ultimately show ?thesis using f by (intro exI [of _ t]) (auto intro: order_trans)
qed

lemma group_duration_run:
  assumes "run_ok lo s" "lo < group_first g" "group_last g \<le> sequence s" "last_pts s - first_pts s < N"
  shows "group_duration s g < N + 33333"
proof -
  have "lo < group_last g" using assms(2) by (simp add: group_last_def HLS_GROUP_def)
  then have "pt_pts (part_at s (group_last g)) \<le> last_pts s - first_pts s"
    using assms by (simp add: run_ok_def times_ok_def)
  then show ?thesis using assms(4) by (simp add: group_duration_def)
qed

lemma hls_groups_length: "length (hls_groups s) \<le> 6"
proof -
  have "length (dropWhile P xs) \<le> length xs" for P and xs :: "nat list" by (rule length_dropWhile_le)
  from order_trans [OF this] show ?thesis by (auto simp: hls_groups_def Let_def)
qed

lemma hls_manifest_run:
  assumes inv: "video_inv s" and seq: "sequence s < 2 ^ 64" and span: "last_pts s - first_pts s < 4294967000 * 1000000"
    and token: "length token \<le> 64" and groups: "hls_groups s = g # gs"
  shows "\<exists>target. 1 \<le> target \<and> (\<forall>h \<in> set (g # gs). group_duration s h \<le> target * 1000000) \<and>
    airtizen_video_hls_manifest True (Some token) s =
      Some (hls_head target g (vs_generation (v_state s)) (hls_auth (Some token)) @
            concat (map (hls_entry s (hls_auth (Some token))) (g # gs)))"
proof -
  obtain lo where run: "run_ok lo s" and latest: "vs_latest (v_state s) = sequence s" using inv by (auto simp: video_inv_def)
  let ?auth = "hls_auth (Some token)" and ?gen = "vs_generation (v_state s)"
  have b: "lo < group_first h \<and> group_last h \<le> sequence s \<and> group_duration s h < 4294967000 * 1000000 + 33333" if "h \<in> set (g # gs)" for h
    using hls_groups_run [OF run latest, of h] group_duration_run [OF run _ _ span, of h] that groups by simp
  then have "\<forall>h \<in> set (g # gs). group_duration s h < 4294967295 * 1000000" by fastforce
  from hls_target_bound [OF this] obtain t where t: "hls_target s (g # gs) = Some t" "t < 4294967296" "1 \<le> t"
    "\<forall>h \<in> set (g # gs). group_duration s h \<le> t * 1000000" by blast
  have auth: "length ?auth \<le> 71" using token by (simp add: hls_auth_def)
  have "g \<le> sequence s" using b [of g] by (simp add: group_last_eq HLS_GROUP_def)
  then have "length (dec_nat g) \<le> 20" "length (dec_nat t) \<le> 20" using length_dec_u64 [of g] length_dec_u64 [of t] seq t(2) by simp_all
  then have hd: "length (hls_head t g ?gen ?auth) \<le> 400"
    using auth length_dec_u32 [of ?gen] by (simp add: hls_head_def nl_def)
  have en: "length (hls_entry s ?auth h) \<le> 400" if "h \<in> set (g # gs)" for h
  proof -
    have "group_first h \<le> group_last h" by (simp add: group_last_def HLS_GROUP_def)
    then have "length (dec_nat (group_first h)) \<le> 20" "length (dec_nat (group_last h)) \<le> 20"
      using length_dec_u64 [of "group_first h"] length_dec_u64 [of "group_last h"] b [OF that] seq by simp_all
    moreover have "length (seconds6 (group_duration s h)) \<le> 27" using b [OF that] by (intro length_seconds6) simp
    ultimately show ?thesis using auth length_dec_u32 [of ?gen] by (simp add: hls_entry_def nl_def)
  qed
  have n6: "length (g # gs) \<le> 6" using hls_groups_length [of s] groups by simp
  then have room: "length (hls_head t g ?gen ?auth) + length (g # gs) * 400 \<le> 2800"
    using hd mult_le_mono1 [OF n6, of 400] by linarith
  from hls_fold [of "g # gs" "hls_entry s ?auth" 400 "hls_head t g ?gen ?auth"] en room
  have f: "fold (\<lambda>h. hls_append (hls_entry s ?auth h)) (g # gs) (Some (hls_head t g ?gen ?auth)) =
      Some (hls_head t g ?gen ?auth @ concat (map (hls_entry s ?auth) (g # gs)))"
    "length (hls_head t g ?gen ?auth @ concat (map (hls_entry s ?auth) (g # gs))) < 8192" by auto
  have "airtizen_video_hls_manifest True (Some token) s = Some (hls_head t g ?gen ?auth @ concat (map (hls_entry s ?auth) (g # gs)))"
    unfolding airtizen_video_hls_manifest_def groups list.case t(1) bind.bind_lunit f(1) using f(2) by simp
  then show ?thesis using t(3,4) by blast
qed

text \<open>A concrete module with one complete group of fifteen fragments.\<close>

definition sample_part :: "nat \<Rightarrow> part" where
  "sample_part i = (if 0 < i \<and> i \<le> 15 then \<lparr>pt_data = Some [of_nat i], pt_size = 1, pt_seq = i, pt_pts = 33333 * (i - 1), pt_key = (i = 1)\<rparr>
     else empty_part)"

definition sample_video :: "unit video_module" where
  "sample_video = \<lparr>mux = Some (), config = Some [1], init_data = Some [2], pending = [], total_size = 15,
     parts = map sample_part [0..<PART_COUNT],
     v_state = video_zero\<lparr>vs_generation := 7, vs_latest := 15, vs_start := 1, vs_available := True\<rparr>,
     sequence = 15, first_pts = 100, last_pts = 466762, have_pts = True, write_failed = False\<rparr>"

lemma sample_part_at: "part_at sample_video q = sample_part (q mod PART_COUNT)"
  by (simp add: part_at_def sample_video_def)

lemma sample_ring: "ring_inv 0 15 (map sample_part [0..<PART_COUNT])"
proof -
  have "retained (map sample_part [0..<PART_COUNT]) q \<longleftrightarrow> 0 < q \<and> q \<le> 15" for q
  proof -
    have "q mod PART_COUNT = q" if "q \<le> 15" using that by (simp add: PART_COUNT_def)
    then show ?thesis by (auto simp: retained_def sample_part_def empty_part_def)
  qed
  then show ?thesis
    by (auto simp: ring_inv_def sample_part_def empty_part_def part_ok_def PART_LIMIT_def PART_COUNT_def)
qed

lemma sample_inv: "video_inv sample_video"
proof -
  have small: "q mod PART_COUNT = q" if "q \<le> 15" for q using that by (simp add: PART_COUNT_def)
  let ?ps = "map sample_part [0..<PART_COUNT]"
  have nth15: "?ps ! q = sample_part q" if "q \<le> 15" for q using that by (simp add: PART_COUNT_def)
  have "ring_bytes ?ps = (\<Sum>q\<in>{0<..15::nat}. 1)"
    unfolding ring_bytes_run [OF sample_ring] by (rule sum.cong) (auto simp: small nth15 sample_part_def)
  then have bytes: "ring_bytes ?ps = 15" by simp
  have "1 \<le> newest_key ?ps \<and> (newest_key ?ps = 0 \<or> newest_key ?ps = 1)"
    using newest_key_run [OF sample_ring] small [of 1] small [of "newest_key ?ps"] nth15 by (auto simp: sample_part_def)
  then have key: "newest_key ?ps = 1" by auto
  have pa: "pt_pts (part_at sample_video q) = 33333 * (q - 1)" if "0 < q" "q \<le> 15" for q
    using that small [of q] by (simp add: sample_part_at sample_part_def)
  have sv: "sequence sample_video = 15" "parts sample_video = ?ps" "have_pts sample_video" "first_pts sample_video = 100"
    "last_pts sample_video = 466762" by (simp_all add: sample_video_def)
  have "run_ok 0 sample_video" unfolding run_ok_def times_ok_def sv using sample_ring sv(3) by (auto simp: pa)
  then show ?thesis using bytes key
    by (auto simp: video_inv_def sample_video_def video_zero_def TOTAL_LIMIT_def PART_LIMIT_def)
qed

lemma sample_groups: "hls_groups sample_video = [0]"
proof -
  obtain lo where lo: "run_ok lo sample_video" using sample_inv by (auto simp: video_inv_def)
  have "retained (parts sample_video) 1" using sample_ring by (simp add: ring_inv_def sample_video_def)
  then have "lo < 1" using lo by (simp add: run_ok_def ring_inv_def)
  then have "group_valid sample_video 0" using group_valid_run [OF lo, of 0]
    by (simp add: group_first_def group_last_def HLS_GROUP_def sample_video_def)
  then show ?thesis by (simp add: hls_groups_def Let_def sample_video_def video_zero_def HLS_GROUP_def)
qed

definition sample_ffmpeg :: "unit ffmpeg" where
  "sample_ffmpeg = \<lparr>ff_decode = (\<lambda>_ _. Some (1280, 720)), ff_header = (\<lambda>c _ _. Some ((), [(1, [0], True)])),
     ff_write = (\<lambda>_ d _ _. (True, (), [(2, [9, 9], True), (int (length d), d, True)]))\<rparr>"

section \<open>Properties\<close>

text \<open>The scan for a NAL unit type reads no byte outside the access unit,
  always returns, and answers yes exactly when some position carries a three- or four-byte start code
  followed by a header of that type (with at least five bytes left, which the source requires).\<close>

theorem video_nalu_type_exact:
  "nalu_type data wanted = Some (\<exists>i. nalu_at data wanted i)"
  by (rule nalu_type_eq)

text \<open>C3: after every history of configurations, frames and resets, for every
  behaviour of FFmpeg and every allocation outcome, the fragments that can be fetched are exactly a
  gapless run of at most 256 ending at the latest one; their bytes are counted exactly and stay
  within 24 MiB; the advertised start is the newest key frame of the run (0, and unavailable, if there
  is none); and the next frame handler run neither touches memory out of bounds nor diverges.\<close>

theorem video_history:
  "\<exists>lo. let s = fold (video_step ff) ops video_init; n = vs_latest (v_state s) in
     lo \<le> n \<and> n \<le> lo + 256 \<and>
     (\<forall>q. (fst (the (airtizen_video_copy True False q s)) \<noteq> []) = (lo < q \<and> q \<le> n)) \<and>
     total_size s = (\<Sum>q\<in>{lo<..n}. length (fragment s q)) \<and> total_size s \<le> 24 * 1024 * 1024 \<and>
     (vs_start (v_state s) = 0 \<or> (lo < vs_start (v_state s) \<and> vs_start (v_state s) \<le> n \<and> pt_key (part_at s (vs_start (v_state s))))) \<and>
     (\<forall>q. pt_key (part_at s q) \<and> lo < q \<and> q \<le> n \<longrightarrow> q \<le> vs_start (v_state s)) \<and>
     (vs_available (v_state s) \<longleftrightarrow> vs_start (v_state s) \<noteq> 0) \<and>
     (\<exists>r s'. airtizen_video_frame ff d pts s = Some (r, s'))"
proof -
  define s where "s = fold (video_step ff) ops video_init"
  have inv: "video_inv s" unfolding s_def by (rule video.run_inv)
  obtain lo where run: "run_ok lo s" using inv by (auto simp: video_inv_def)
  have n: "vs_latest (v_state s) = sequence s" using inv by (simp add: video_inv_def)
  have ring: "ring_inv lo (sequence s) (parts s)" using run by (simp add: run_ok_def)
  have "total_size s = (\<Sum>q\<in>{lo<..sequence s}. length (fragment s q))"
  proof -
    have "total_size s = (\<Sum>q\<in>{lo<..sequence s}. pt_size (part_at s q))"
      using inv ring_bytes_run [OF ring] by (simp add: video_inv_def part_at_def)
    also have "\<dots> = (\<Sum>q\<in>{lo<..sequence s}. length (fragment s q))"
      by (rule sum.cong) (use part_size_run [OF run] fragment_run [OF run] in auto)
    finally show ?thesis .
  qed
  moreover have "fst (the (airtizen_video_copy True False q s)) \<noteq> [] \<longleftrightarrow> lo < q \<and> q \<le> sequence s" for q
    using video_copy_run [OF run, of q] part_size_run(4) [OF run, of q] by auto
  moreover have "lo \<le> sequence s" "sequence s \<le> lo + 256" using ring by (auto simp: ring_inv_def PART_COUNT_def)
  ultimately show ?thesis
    using n inv newest_key_run [OF ring] video_frame_total [OF inv, of ff d pts] unfolding s_def [symmetric] Let_def
    by (intro exI [of _ lo]) (auto simp: video_inv_def TOTAL_LIMIT_def part_at_def)
qed

theorem video_history_witness:
  "total_size (fold (video_step sample_ffmpeg) [Configure True (Some [0, 0, 1]), Frame (Some [5]) 3] video_init) \<le> 25165824 \<and>
   (\<exists>r s'. airtizen_video_frame sample_ffmpeg (Some [0, 0, 0, 1, 5]) 4
      (fold (video_step sample_ffmpeg) [Configure True (Some [0, 0, 1]), Frame (Some [5]) 3] video_init) = Some (r, s'))"
  using video_history [of sample_ffmpeg "[Configure True (Some [0, 0, 1]), Frame (Some [5]) 3]" "Some [0, 0, 0, 1, 5]" 4]
  unfolding Let_def by (elim exE conjE) simp

text \<open>When the muxer is open, the timestamp is new and FFmpeg writes the
  frame within the 2 MiB limit, the frame handler returns 1 and the next sequence number serves exactly
  the bytes FFmpeg wrote, under the unchanged generation.\<close>

theorem video_frame_published:
  assumes "video_inv s" and "mux s = Some m" and "have_pts s" and "last_pts s < pts" and "pts \<le> 9223372036854775807"
    and "data \<noteq> []" and "length data \<le> PART_LIMIT" and "nalu_type data 5 = Some key"
    and "ff_write ff m data (pts - first_pts s) key = (True, m', chunks)"
    and "\<forall>(sz, d, alloc) \<in> set chunks. sz = int (length d) \<and> alloc"
    and "concat (map chunk_bytes chunks) \<noteq> []" and "length (concat (map chunk_bytes chunks)) \<le> PART_LIMIT"
  shows "\<exists>s'. airtizen_video_frame ff (Some data) pts s = Some (1, s') \<and> vs_latest (v_state s') = vs_latest (v_state s) + 1 \<and>
    airtizen_video_copy True False (vs_latest (v_state s')) s' =
      Some (concat (map chunk_bytes chunks), vs_generation (v_state s))"
proof -
  let ?p = "concat (map chunk_bytes chunks)" and ?s2 = "s\<lparr>last_pts := pts\<rparr>"
  have cfg: "config s \<noteq> None" and st: "pending s = []" "\<not> write_failed s" and n: "vs_latest (v_state s) = sequence s"
    using assms(1,2) by (auto simp: video_inv_def)
  have out: "fold mux_output chunks (?s2\<lparr>mux := Some m'\<rparr>) = ?s2\<lparr>mux := Some m', pending := ?p\<rparr>"
    using mux_outputs_complete [OF assms(10), of "?s2\<lparr>mux := Some m'\<rparr>"] assms(12) st by simp
  have eq: "?s2\<lparr>mux := Some m', pending := ?p, write_failed := False\<rparr> = ?s2\<lparr>mux := Some m', pending := ?p\<rparr>" using st by simp
  have "\<exists>s'. publish pts key (?s2\<lparr>mux := Some m', pending := ?p, write_failed := False\<rparr>) = Some s' \<and> video_inv s' \<and>
    sequence s' = sequence s + 1 \<and> pt_data (part_at s' (sequence s')) = Some ?p \<and>
    vs_generation (v_state s') = vs_generation (v_state s)"
    using frame_write_run [OF assms(1,2) _ assms(5,11,12), of key m'] assms(3,4) by simp
  then obtain s' where s': "publish pts key (?s2\<lparr>mux := Some m', pending := ?p\<rparr>) = Some s'" "video_inv s'"
    "sequence s' = sequence s + 1" "pt_data (part_at s' (sequence s')) = Some ?p" "vs_generation (v_state s') = vs_generation (v_state s)"
    unfolding eq by blast
  have "airtizen_video_frame ff (Some data) pts s = Some (1, s')"
    using assms(2-9,11) cfg st out s'(1) by (auto simp: airtizen_video_frame_def Let_def)
  moreover obtain lo where lo: "run_ok lo s'" using s'(2) by (auto simp: video_inv_def)
  moreover have "vs_latest (v_state s') = sequence s'" using s'(2) by (simp add: video_inv_def)
  moreover have "lo < sequence s'" using lo s'(3) by (simp add: run_ok_def)
  ultimately show ?thesis using video_copy_run [OF lo, of "sequence s'"] s' n by simp
qed

theorem video_frame_published_witness:
  "\<exists>s'. airtizen_video_frame sample_ffmpeg (Some [5]) 500000 sample_video = Some (1, s') \<and>
     airtizen_video_copy True False 16 s' = Some ([9, 9, 5], 7)"
proof -
  have "nalu_type [5] 5 = Some False" by (simp add: nalu_type_def nalu_scan.simps)
  moreover have "mux sample_video = Some ()" "have_pts sample_video" "last_pts sample_video < 500000" "first_pts sample_video = 100"
    "vs_latest (v_state sample_video) = 15" "vs_generation (v_state sample_video) = 7" by (simp_all add: sample_video_def)
  moreover have "ff_write sample_ffmpeg () [5] k False = (True, (), [(2, [9, 9], True), (1, [5], True)])" for k
    by (simp add: sample_ffmpeg_def)
  ultimately show ?thesis
    using video_frame_published [OF sample_inv, of "()" 500000 "[5]" False sample_ffmpeg "()" "[(2, [9, 9], True), (1, [5], True)]"]
    by (auto simp: chunk_bytes_def PART_LIMIT_def)
qed

text \<open>Whenever groups are advertised, building the manifest stays inside its
  8 KiB buffer (for the 64-byte access token and a stream of less than 2^32 seconds) and yields the
  header followed by one entry per group, with a target duration in whole seconds that no group's
  duration exceeds.\<close>

theorem video_hls_manifest:
  assumes "video_inv s" and "sequence s < 2 ^ 64" and "last_pts s - first_pts s < 4294967000 * 1000000"
    and "length token \<le> 64" and "hls_groups s = g # gs"
  shows "\<exists>target. 1 \<le> target \<and> (\<forall>h \<in> set (g # gs). group_duration s h \<le> target * 1000000) \<and>
    airtizen_video_hls_manifest True (Some token) s =
      Some (hls_head target g (vs_generation (v_state s)) (hls_auth (Some token)) @
            concat (map (hls_entry s (hls_auth (Some token))) (g # gs)))"
  by (rule hls_manifest_run [OF assms])

theorem video_hls_manifest_witness:
  "\<exists>target. 1 \<le> target \<and> airtizen_video_hls_manifest True (Some (str ''ab'')) sample_video =
     Some (hls_head target 0 7 (str ''?token=ab'') @ hls_entry sample_video (str ''?token=ab'') 0)"
proof -
  have "sequence sample_video < 2 ^ 64" "last_pts sample_video - first_pts sample_video < 4294967000 * 1000000"
    "vs_generation (v_state sample_video) = 7" by (simp_all add: sample_video_def)
  moreover have "hls_auth (Some (str ''ab'')) = str ''?token=ab''" by (simp add: hls_auth_def str_def)
  ultimately show ?thesis using video_hls_manifest [OF sample_inv _ _ _ sample_groups, of "str ''ab''"] by auto
qed



end
