(* ===== verification/Mdns.thy ===== *)
theory Mdns
  imports Airtizen_Prelude
begin

text \<open>
  Discovery (\<open>native/src/airtizen_mdns.c\<close>, \<open>native/include/airtizen_capabilities.h\<close>): the identity of
  the receiver, the DNS encoder of the announcement, the parser of incoming questions, the responder
  loop and the start and stop of the service.

  The encoder writes sequentially, so its functions yield the bytes they append; the packet buffer of
  1400 bytes (and the 512 bytes of the TXT data) is checked where the bytes are complete, \<open>None\<close>
  meaning that a write was out of bounds. System calls are parameters: the interfaces of the host and
  the outcome of each stage of the start. The theory shows that no packet overflows its buffer in any
  state the service can be in, that the question parser is memory safe, terminates despite compression
  pointers and reads back what the encoder writes, that the responder answers the questions for its
  own names, that the identity is frozen while the service runs, and that the loop ends with a goodbye.
\<close>

section \<open>State\<close>

definition AIRTIZEN_MDNS_MAX :: nat where "AIRTIZEN_MDNS_MAX = 1400"
definition AIRTIZEN_FEATURES :: u64 where "AIRTIZEN_FEATURES = 0x4803a383"
definition AIRTIZEN_NATIVE_FEATURES_TXT :: cstring where "AIRTIZEN_NATIVE_FEATURES_TXT = str ''0x4803a383,0x0''"
definition AIRTIZEN_SOURCE_VERSION :: cstring where "AIRTIZEN_SOURCE_VERSION = str ''220.68''"
definition AIRTIZEN_UXPLAY_TEST_FEATURES :: u64 where "AIRTIZEN_UXPLAY_TEST_FEATURES = 0x5A7FFEE6"
definition AIRTIZEN_UXPLAY_TEST_FEATURES_TXT :: cstring where "AIRTIZEN_UXPLAY_TEST_FEATURES_TXT = str ''0x5A7FFEE6,0x0''"

text \<open>The static variables. \<open>g_address\<close> is in network byte order; the sockets and the stop pipe are
  represented by whether they are open.\<close>

record mdns_module =
  g_running :: bool
  g_ttl :: u32
  g_sock :: bool
  g_stop :: bool
  g_name :: cstring
  g_id :: cstring
  g_public_key :: cstring
  g_port :: u16
  g_address :: "byte list"
  g_network_override :: bool
  g_uxplay_test :: bool
  g_start_error :: cstring

definition mdns_init :: mdns_module where
  "mdns_init = \<lparr>g_running = False, g_ttl = 120, g_sock = False, g_stop = False, g_name = str ''AirTizen TV'',
     g_id = str ''A1B2C3D4E5F6'', g_public_key = [], g_port = 5000, g_address = [0, 0, 0, 0],
     g_network_override = False, g_uxplay_test = False, g_start_error = []\<rparr>"

section \<open>Identity\<close>

definition airtizen_mdns_last_error :: "mdns_module \<Rightarrow> cstring" where
  "airtizen_mdns_last_error s = g_start_error s"

definition start_error :: "cstring \<Rightarrow> nat \<Rightarrow> mdns_module \<Rightarrow> mdns_module" where
  "start_error stage err s = s\<lparr>g_start_error := fit 80 (str ''mdns_'' @ stage @ str ''_failed_errno_'' @ dec_nat err)\<rparr>"

definition selected_features_txt :: "mdns_module \<Rightarrow> cstring" where
  "selected_features_txt s = (if g_uxplay_test s then AIRTIZEN_UXPLAY_TEST_FEATURES_TXT else AIRTIZEN_NATIVE_FEATURES_TXT)"

definition selected_model :: "mdns_module \<Rightarrow> cstring" where
  "selected_model s = (if g_uxplay_test s then str ''AppleTV3,2'' else str ''AirTizen1,1'')"

definition airtizen_discovery_set_profile :: "cstring option \<Rightarrow> mdns_module \<Rightarrow> int \<times> mdns_module" where
  "airtizen_discovery_set_profile profile s =
     (if profile \<noteq> Some (str ''native'') \<and> profile \<noteq> Some (str ''uxplay-test'') then (-1, s)
      else let experimental = (profile = Some (str ''uxplay-test'')) in
        if g_running s \<and> experimental \<noteq> g_uxplay_test s then (-1, s)
        else (0, s\<lparr>g_uxplay_test := experimental\<rparr>))"

definition airtizen_discovery_profile :: "mdns_module \<Rightarrow> cstring" where
  "airtizen_discovery_profile s = (if g_uxplay_test s then str ''uxplay-test'' else str ''native'')"

definition airtizen_discovery_model :: "mdns_module \<Rightarrow> cstring" where
  "airtizen_discovery_model s = selected_model s"

definition airtizen_discovery_features_txt :: "mdns_module \<Rightarrow> cstring" where
  "airtizen_discovery_features_txt s = selected_features_txt s"

definition airtizen_discovery_features :: "mdns_module \<Rightarrow> u64" where
  "airtizen_discovery_features s = (if g_uxplay_test s then AIRTIZEN_UXPLAY_TEST_FEATURES else AIRTIZEN_FEATURES)"

text \<open>The key is an array of 32 bytes, given by its elements.\<close>

definition airtizen_mdns_set_public_key :: "(nat \<Rightarrow> byte) option \<Rightarrow> mdns_module \<Rightarrow> int \<times> mdns_module" where
  "airtizen_mdns_set_public_key key_ptr s =
     (case key_ptr of
        None \<Rightarrow> (-1, s)
      | Some key \<Rightarrow> if g_running s then (-1, s) else (0, s\<lparr>g_public_key := concat (map (\<lambda>i. hex2 (key i)) [0..<32])\<rparr>))"

definition airtizen_mdns_pairing_id :: "mdns_module \<Rightarrow> cstring" where
  "airtizen_mdns_pairing_id s = fit 37 (str ''00000000-0000-4000-8000-'' @ take 12 (g_id s))"

text \<open>\<open>inet_pton(AF_INET, ...)\<close>: four decimal numbers up to 255 without superfluous zeros.\<close>

definition digit :: "byte \<Rightarrow> bool" where
  "digit c \<longleftrightarrow> 48 \<le> c \<and> c \<le> 57"

definition octet :: "cstring \<Rightarrow> byte option" where
  "octet s = (let v = foldl (\<lambda>n c. n * 10 + (unat c - 48)) 0 s in
     if s \<noteq> [] \<and> length s \<le> 3 \<and> list_all digit s \<and> (hd s \<noteq> 48 \<or> length s = 1) \<and> v \<le> 255 then Some (of_nat v) else None)"

function split_dot :: "cstring \<Rightarrow> cstring list" where
  "split_dot s = (let l = takeWhile (\<lambda>c. c \<noteq> 46) s; r = dropWhile (\<lambda>c. c \<noteq> 46) s
                  in if r = [] then [l] else l # split_dot (tl r))"
  by pat_completeness auto
termination
proof (relation "measure length", goal_cases)
  case (2 s x xa)
  then have "length (tl (dropWhile (\<lambda>c. c \<noteq> 46) s)) < length (dropWhile (\<lambda>c. c \<noteq> 46) s)" by (cases "dropWhile (\<lambda>c. c \<noteq> 46) s") auto
  also have "\<dots> \<le> length s" by (rule length_dropWhile_le)
  finally show ?case using 2 by simp
qed simp

declare split_dot.simps [simp del]

definition inet_pton :: "cstring \<Rightarrow> byte list option" where
  "inet_pton s = (let ps = map octet (split_dot s) in
     if length ps = 4 \<and> None \<notin> set ps then Some (map the ps) else None)"

definition hex_upper :: "byte \<Rightarrow> bool" where
  "hex_upper c \<longleftrightarrow> (48 \<le> c \<and> c \<le> 57) \<or> (65 \<le> c \<and> c \<le> 70)"

definition airtizen_mdns_set_network :: "cstring option \<Rightarrow> cstring option \<Rightarrow> mdns_module \<Rightarrow> int \<times> mdns_module" where
  "airtizen_mdns_set_network ipv4 id_ptr s =
     (case (ipv4, id_ptr) of
        (Some ip, Some i) \<Rightarrow>
          if length i \<noteq> 12 then (-1, s)
          else (case inet_pton ip of
                  None \<Rightarrow> (-1, s)
                | Some a \<Rightarrow>
                    let host = be32 (a ! 0) (a ! 1) (a ! 2) (a ! 3) in
                    if host = 0 \<or> drop_bit 24 host = 127 \<or> drop_bit 24 host \<ge> 224 \<or> host = 0xffffffff then (-1, s)
                    else if \<not> list_all hex_upper i then (-1, s)
                    else if g_running s then (-1, s)
                    else (0, s\<lparr>g_address := a, g_id := i, g_network_override := True\<rparr>))
      | _ \<Rightarrow> (-1, s))"

section \<open>The announcement\<close>

definition enc_u16 :: "u16 \<Rightarrow> byte list" where
  "enc_u16 v = [ucast (drop_bit 8 v), ucast v]"

definition enc_u32 :: "u32 \<Rightarrow> byte list" where
  "enc_u32 v = [ucast (drop_bit 24 v), ucast (drop_bit 16 v), ucast (drop_bit 8 v), ucast v]"

text \<open>The label loop of \<open>name\<close>: a label per part, none after a final dot.\<close>

function name_labels :: "cstring \<Rightarrow> byte list" where
  "name_labels s =
     (if s = [] then []
      else let l = takeWhile (\<lambda>c. c \<noteq> 46) s; r = dropWhile (\<lambda>c. c \<noteq> 46) s; len = min (length l) 63
           in (of_nat len # take len l) @ (if r = [] then [] else name_labels (tl r)))"
  by pat_completeness auto
termination
proof (relation "measure length", goal_cases)
  case (2 s x xa xb)
  then have "length (tl (dropWhile (\<lambda>c. c \<noteq> 46) s)) < length (dropWhile (\<lambda>c. c \<noteq> 46) s)" by (cases "dropWhile (\<lambda>c. c \<noteq> 46) s") auto
  also have "\<dots> \<le> length s" by (rule length_dropWhile_le)
  finally show ?case using 2 by simp
qed simp

declare name_labels.simps [simp del]

definition dns_name :: "cstring \<Rightarrow> byte list" where
  "dns_name s = name_labels s @ [0]"

definition txt_entry :: "cstring \<Rightarrow> byte list" where
  "txt_entry t = (let len = min (length t) 255 in of_nat len # take len t)"

text \<open>The record data behind its two-byte length, which the source patches in afterwards.\<close>

definition rdata :: "byte list \<Rightarrow> byte list" where
  "rdata d = [of_nat (length d div 256 mod 256), of_nat (length d mod 256)] @ d"

definition ptr :: "mdns_module \<Rightarrow> cstring \<Rightarrow> cstring \<Rightarrow> byte list" where
  "ptr s service instance_name =
     dns_name service @ enc_u16 12 @ enc_u16 1 @ enc_u32 (g_ttl s) @ rdata (dns_name instance_name)"

definition srv :: "mdns_module \<Rightarrow> cstring \<Rightarrow> u16 \<Rightarrow> cstring \<Rightarrow> byte list" where
  "srv s instance_name port host =
     dns_name instance_name @ enc_u16 33 @ enc_u16 0x8001 @ enc_u32 (g_ttl s) @
     rdata (enc_u16 0 @ enc_u16 0 @ enc_u16 port @ dns_name host)"

definition txt_raop_data :: "mdns_module \<Rightarrow> byte list" where
  "txt_raop_data s =
     txt_entry (str ''txtvers=1'') @ txt_entry (str ''ch=2'') @ txt_entry (str ''md=0,1,2'') @
     txt_entry (if g_uxplay_test s then str ''cn=0,1,2,3'' else str ''cn=1,2,3'') @
     txt_entry (str ''da=true'') @ txt_entry (str ''et=0,3,5'') @ txt_entry (str ''pw=false'') @ txt_entry (str ''sr=44100'') @
     txt_entry (str ''ss=16'') @ txt_entry (str ''tp=UDP'') @ txt_entry (str ''vn=65537'') @ txt_entry (str ''vs='' @ AIRTIZEN_SOURCE_VERSION) @
     txt_entry (str ''sf=0x4'') @ txt_entry (fit 64 (str ''ft='' @ selected_features_txt s)) @
     txt_entry (fit 64 (str ''am='' @ selected_model s)) @
     (if g_uxplay_test s then txt_entry (str ''rhd=5.6.0.0'') @ txt_entry (str ''sv=false'') else []) @
     (if g_public_key s \<noteq> [] then txt_entry (fit 68 (str ''pk='' @ g_public_key s)) else [])"

text \<open>\<open>%.2s\<close> of six consecutive positions of the identifier.\<close>

definition colon_id :: "cstring \<Rightarrow> cstring" where
  "colon_id i = take 2 i @ str '':'' @ take 2 (drop 2 i) @ str '':'' @ take 2 (drop 4 i) @ str '':'' @
     take 2 (drop 6 i) @ str '':'' @ take 2 (drop 8 i) @ str '':'' @ take 2 (drop 10 i)"

definition txt_airplay_data :: "mdns_module \<Rightarrow> byte list" where
  "txt_airplay_data s =
     txt_entry (fit 40 (str ''deviceid='' @ colon_id (g_id s))) @
     txt_entry (fit 64 (str ''features='' @ selected_features_txt s)) @ txt_entry (str ''flags=0x4'') @
     txt_entry (fit 64 (str ''model='' @ selected_model s)) @ txt_entry (str ''srcvers='' @ AIRTIZEN_SOURCE_VERSION) @
     txt_entry (str ''vv=2'') @
     (if g_public_key s \<noteq> [] then txt_entry (fit 68 (str ''pk='' @ g_public_key s)) else []) @
     txt_entry (fit 40 (str ''pi=00000000-0000-4000-8000-'' @ take 12 (g_id s)))"

text \<open>\<open>out = None\<close> is a null pointer; the empty result is the size 0.\<close>

definition airtizen_mdns_txt :: "bool \<Rightarrow> nat option \<Rightarrow> mdns_module \<Rightarrow> byte list option" where
  "airtizen_mdns_txt airplay out s = do {
     data \<leftarrow> put 512 [] (if airplay then txt_airplay_data s else txt_raop_data s);
     Some (case out of None \<Rightarrow> [] | Some capacity \<Rightarrow> if capacity < length data then [] else data)
   }"

definition txt_record :: "mdns_module \<Rightarrow> cstring \<Rightarrow> bool \<Rightarrow> byte list" where
  "txt_record s instance_name airplay =
     dns_name instance_name @ enc_u16 16 @ enc_u16 0x8001 @ enc_u32 (g_ttl s) @
     rdata (if airplay then txt_airplay_data s else txt_raop_data s)"

definition address_record :: "mdns_module \<Rightarrow> cstring \<Rightarrow> byte list" where
  "address_record s host =
     dns_name host @ enc_u16 1 @ enc_u16 0x8001 @ enc_u32 (g_ttl s) @ enc_u16 4 @ take 4 (g_address s)"

definition raop_name :: "mdns_module \<Rightarrow> cstring" where
  "raop_name s = fit 220 (g_id s @ str ''@'' @ g_name s @ str ''._raop._tcp.local'')"

definition air_name :: "mdns_module \<Rightarrow> cstring" where
  "air_name s = fit 180 (g_name s @ str ''._airplay._tcp.local'')"

definition host_name :: "nat \<Rightarrow> mdns_module \<Rightarrow> cstring" where
  "host_name cap s = fit cap (g_name s @ str ''.local'')"

definition build_packet :: "mdns_module \<Rightarrow> byte list" where
  "build_packet s =
     (let raop = raop_name s; air = air_name s; host = host_name 140 s in
      enc_u16 0 @ enc_u16 0x8400 @ enc_u16 0 @ enc_u16 7 @ enc_u16 0 @ enc_u16 0 @
      ptr s (str ''_raop._tcp.local'') raop @ srv s raop (g_port s) host @ txt_record s raop False @
      ptr s (str ''_airplay._tcp.local'') air @ srv s air (g_port s) host @ txt_record s air True @
      address_record s host)"

text \<open>The packet handed to \<open>sendto\<close>.\<close>

definition announce :: "mdns_module \<Rightarrow> byte list option" where
  "announce s = put AIRTIZEN_MDNS_MAX [] (build_packet s)"

section \<open>Questions\<close>

text \<open>The loop of \<open>read_dns_name\<close>; \<open>resume = 0\<close> while no pointer has been followed. The inner \<open>None\<close> is
  the return of -1, otherwise the new position and the name. \<open>out\<close> is what is written so far.\<close>

function read_name :: "byte list \<Rightarrow> nat \<Rightarrow> nat \<Rightarrow> nat \<Rightarrow> nat \<Rightarrow> byte list \<Rightarrow> (nat \<times> byte list) option option" where
  "read_name packet capacity cursor resume jumps out =
     (if cursor < length packet then do {
        label \<leftarrow> rd packet cursor;
        if label = 0 then do {
          _ \<leftarrow> put capacity out [0];
          Some (Some (if resume \<noteq> 0 then resume else cursor + 1, out))
        }
        else if label AND 0xc0 = 0xc0 then
          if cursor + 1 \<ge> length packet \<or> jumps + 1 > 8 then Some None
          else do {
            low \<leftarrow> rd packet (cursor + 1);
            read_name packet capacity (be16 (label AND 0x3f) low)
              (if resume = 0 then cursor + 2 else resume) (jumps + 1) out
          }
        else if label > 63 \<or> cursor + 1 + unat label > length packet \<or> length out + unat label + 2 > capacity
        then Some None
        else do {
          bytes \<leftarrow> rdn packet (cursor + 1) (unat label);
          out1 \<leftarrow> put capacity out (if out \<noteq> [] then [46] else []);
          out2 \<leftarrow> put capacity out1 bytes;
          read_name packet capacity (cursor + 1 + unat label) resume jumps out2
        }
      }
      else Some None)"
  by pat_completeness auto
termination
  by (relation "measures [\<lambda>(packet, capacity, cursor, resume, jumps, out). 9 - jumps,
                          \<lambda>(packet, capacity, cursor, resume, jumps, out). length packet - cursor]") auto

declare read_name.simps [simp del]

definition read_dns_name :: "byte list \<Rightarrow> nat \<Rightarrow> nat \<Rightarrow> (nat \<times> cstring) option option" where
  "read_dns_name packet position capacity =
     (case read_name packet capacity position 0 0 [] of
        Some (Some (p, out)) \<Rightarrow> Some (Some (p, cstr out)) | r \<Rightarrow> r)"

definition own_name :: "mdns_module \<Rightarrow> cstring \<Rightarrow> bool" where
  "own_name s r \<longleftrightarrow> strcaseeq r (str ''_raop._tcp.local'') \<or> strcaseeq r (str ''_airplay._tcp.local'') \<or>
     strcaseeq r (str ''_services._dns-sd._udp.local'') \<or> strcaseeq r (host_name 160 s) \<or>
     strcaseeq r (raop_name s) \<or> strcaseeq r (air_name s)"

fun question_loop :: "mdns_module \<Rightarrow> byte list \<Rightarrow> nat \<Rightarrow> nat \<Rightarrow> bool option" where
  "question_loop s packet 0 position = Some False"
| "question_loop s packet (Suc k) position = do {
     r \<leftarrow> read_dns_name packet position 256;
     (case r of
        None \<Rightarrow> Some False
      | Some (p, receiver) \<Rightarrow>
          if p + 4 > length packet then Some False
          else if own_name s receiver then Some True
          else question_loop s packet k (p + 4))
   }"

definition query_matches :: "mdns_module \<Rightarrow> byte list \<Rightarrow> bool option" where
  "query_matches s packet =
     (if length packet < 12 then Some False
      else do {
        flags \<leftarrow> rd packet 2;
        if flags AND 0xf8 \<noteq> 0 then Some False
        else do {
          c1 \<leftarrow> rd packet 4; c0 \<leftarrow> rd packet 5;
          let count = be16 c1 c0;
          if count = 0 \<or> count > 16 then Some False else question_loop s packet count 12
        }
      })"

section \<open>The responder loop\<close>

text \<open>What a turn of \<open>select\<close> brings: an interruption, another error, the stop pipe, the timeout, or a
  datagram (\<open>recv\<close> into a buffer of 1400 bytes).\<close>

datatype wakeup = Interrupted | SelectFailed | StopRequested | TimedOut | Datagram "byte list"

text \<open>The loop with the packets sent so far; \<open>None\<close> when the events end without a reason to leave.\<close>

fun loop_turns :: "mdns_module \<Rightarrow> wakeup list \<Rightarrow> byte list list \<Rightarrow> byte list list option" where
  "loop_turns s [] sent = None"
| "loop_turns s (Interrupted # es) sent = loop_turns s es sent"
| "loop_turns s (SelectFailed # es) sent = Some sent"
| "loop_turns s (StopRequested # es) sent = Some sent"
| "loop_turns s (TimedOut # es) sent = do { p \<leftarrow> announce s; loop_turns s es (sent @ [p]) }"
| "loop_turns s (Datagram d # es) sent = do {
     let query = take AIRTIZEN_MDNS_MAX d;
     m \<leftarrow> (if length query \<ge> 12 then query_matches s query else Some False);
     if m then do { p \<leftarrow> announce s; loop_turns s es (sent @ [p]) } else loop_turns s es sent
   }"

definition mdns_loop :: "mdns_module \<Rightarrow> wakeup list \<Rightarrow> (byte list list \<times> mdns_module) option" where
  "mdns_loop s es = do {
     p \<leftarrow> announce s;
     sent \<leftarrow> loop_turns s es [p];
     bye \<leftarrow> announce (s\<lparr>g_ttl := 0\<rparr>);
     Some (sent @ [bye], s\<lparr>g_ttl := 120\<rparr>)
   }"

section \<open>Start and stop\<close>

text \<open>An interface of the host: an IPv4 address if it has one, its flags, whether the probing socket
  opens, and its hardware address (by its elements) if the ioctl succeeds.\<close>

record iface =
  if_inet :: "u32 option"
  if_up :: bool
  if_loopback :: bool
  if_socket :: bool
  if_mac :: "(nat \<Rightarrow> byte) option"

definition HEX2 :: "byte \<Rightarrow> cstring" where
  "HEX2 b = map (\<lambda>c. if 97 \<le> c then c - 32 else c) (hex2 b)"

fun probe :: "iface list \<Rightarrow> mdns_module \<Rightarrow> bool \<times> mdns_module" where
  "probe [] s = (False, s)"
| "probe (i # is) s =
     (case if_inet i of
        None \<Rightarrow> probe is s
      | Some a \<Rightarrow>
          if \<not> if_up i \<or> if_loopback i then probe is s
          else let s1 = s\<lparr>g_address := enc_u32 a\<rparr> in
            if \<not> if_socket i then probe is s1
            else (case if_mac i of
                    None \<Rightarrow> probe is s1
                  | Some mac \<Rightarrow> (True, s1\<lparr>g_id := fit 32 (concat (map (\<lambda>i. HEX2 (mac i)) [0..<6]))\<rparr>)))"

text \<open>\<open>None\<close> is a failing \<open>getifaddrs\<close>.\<close>

definition discover_local_address :: "iface list option \<Rightarrow> mdns_module \<Rightarrow> bool \<times> mdns_module" where
  "discover_local_address ifs s =
     (if g_network_override s then (True, s) else case ifs of None \<Rightarrow> (False, s) | Some is \<Rightarrow> probe is s)"

text \<open>The stages of the start after the identity is known, in order, with the name each failure is
  reported under; \<open>outcome\<close> gives the error number of a failing stage.\<close>

definition start_stages :: "cstring list" where
  "start_stages = [str ''udp_socket'', str ''reuseaddr'', str ''ttl'', str ''bind_5353'', str ''join_group'', str ''interface'',
     str ''stop_pipe'', str ''worker'']"

definition valid_id :: "cstring \<Rightarrow> bool" where
  "valid_id i \<longleftrightarrow> length i = 12 \<and> list_all hex_upper i"

definition airtizen_mdns_start ::
  "iface list option \<Rightarrow> nat \<Rightarrow> (cstring \<Rightarrow> nat option) \<Rightarrow> cstring option \<Rightarrow> cstring option \<Rightarrow> u16 \<Rightarrow>
     mdns_module \<Rightarrow> int \<times> mdns_module" where
  "airtizen_mdns_start ifs errno outcome device_name device_id raop_port s =
     (if g_running s then (0, s)
      else let s1 = s\<lparr>g_start_error := []\<rparr> in
        case device_name of
          None \<Rightarrow> (-1, s1)
        | Some nm \<Rightarrow>
            if nm = [] \<or> length nm > 48 then (-1, s1)
            else if (case device_id of None \<Rightarrow> False | Some i \<Rightarrow> \<not> valid_id i) then (-1, s1)
            else (case discover_local_address ifs s1 of
                    (False, s2) \<Rightarrow> (-1, start_error (str ''network'') errno s2)
                  | (True, s2) \<Rightarrow>
                      let s3 = s2\<lparr>g_id := (case device_id of None \<Rightarrow> g_id s2 | Some i \<Rightarrow> fit 32 i), g_name := fit 96 nm,
                                  g_port := (if raop_port \<noteq> 0 then raop_port else 5000)\<rparr>
                      in (case find (\<lambda>st. outcome st \<noteq> None) start_stages of
                            Some st \<Rightarrow> (-1, start_error st (the (outcome st)) (s3\<lparr>g_sock := False, g_stop := False\<rparr>))
                          | None \<Rightarrow> (0, s3\<lparr>g_sock := True, g_stop := True, g_running := True\<rparr>))))"

definition airtizen_mdns_stop :: "mdns_module \<Rightarrow> mdns_module" where
  "airtizen_mdns_stop s = (if \<not> g_running s then s else s\<lparr>g_sock := False, g_stop := False, g_running := False, g_ttl := 120\<rparr>)"

definition airtizen_mdns_is_running :: "mdns_module \<Rightarrow> bool" where
  "airtizen_mdns_is_running s = g_running s"

definition airtizen_mdns_identity :: "nat \<Rightarrow> nat \<Rightarrow> mdns_module \<Rightarrow> cstring \<times> cstring" where
  "airtizen_mdns_identity receiver_size id_size s = (fit receiver_size (g_name s), fit id_size (colon_id (g_id s)))"

section \<open>The invariant of the service\<close>

definition mdns_inv :: "mdns_module \<Rightarrow> bool" where
  "mdns_inv s \<longleftrightarrow> g_name s \<noteq> [] \<and> length (g_name s) \<le> 48 \<and> valid_id (g_id s) \<and> length (g_public_key s) \<le> 64 \<and>
     length (g_address s) = 4 \<and> g_ttl s = 120 \<and> g_sock s = g_running s \<and> g_stop s = g_running s \<and> length (g_start_error s) < 80"

datatype mdns_op =
    SetProfile "cstring option"
  | SetKey "(nat \<Rightarrow> byte) option"
  | SetNetwork "cstring option" "cstring option"
  | Start "iface list option" nat "cstring \<Rightarrow> nat option" "cstring option" "cstring option" u16
  | Stop

definition mdns_step :: "mdns_op \<Rightarrow> mdns_module \<Rightarrow> mdns_module" where
  "mdns_step op s = (case op of
       SetProfile p \<Rightarrow> snd (airtizen_discovery_set_profile p s)
     | SetKey k \<Rightarrow> snd (airtizen_mdns_set_public_key k s)
     | SetNetwork ip i \<Rightarrow> snd (airtizen_mdns_set_network ip i s)
     | Start ifs errno outcome nm i port \<Rightarrow> snd (airtizen_mdns_start ifs errno outcome nm i port s)
     | Stop \<Rightarrow> airtizen_mdns_stop s)"

lemma hex_upper_digit: "n < 16 \<Longrightarrow> hex_upper (let c = hexdigit n in if 97 \<le> c then c - 32 else c)"
proof -
  have "list_all (\<lambda>n. hex_upper (let c = hexdigit n in if 97 \<le> c then c - 32 else c)) [0..<16]" by code_simp
  moreover assume "n < 16"
  ultimately show ?thesis unfolding list_all_iff by simp
qed

lemma HEX2_upper: "list_all hex_upper (HEX2 b)"
proof -
  have "unat b div 16 < 16" "unat b mod 16 < 16" using unat_byte_lt [of b] by (simp_all add: less_mult_imp_div_less)
  then show ?thesis using hex_upper_digit [of "unat b div 16"] hex_upper_digit [of "unat b mod 16"]
    by (simp add: HEX2_def hex2_def Let_def)
qed

lemma mac_id: "valid_id (fit 32 (concat (map (\<lambda>i. HEX2 (mac i)) [0..<6])))"
proof -
  have l: "length (HEX2 b) = 2" for b by (simp add: HEX2_def hex2_def)
  have "length (concat (map (\<lambda>i. HEX2 (mac i)) [0..<6])) = 12" by (simp add: upt_rec l)
  moreover have "list_all hex_upper (concat (map (\<lambda>i. HEX2 (mac i)) [0..<6]))"
    using HEX2_upper by (auto simp: list_all_iff)
  ultimately show ?thesis by (simp add: fit_id valid_id_def)
qed

lemma probe_inv:
  "probe is s = (ok, s') \<Longrightarrow> mdns_inv s \<Longrightarrow>
     mdns_inv s' \<and> g_running s' = g_running s"
proof (induction "is" arbitrary: s)
  case (Cons i "is")
  have a: "mdns_inv (s\<lparr>g_address := enc_u32 a\<rparr>)" for a using Cons.prems by (simp add: mdns_inv_def enc_u32_def)
  have b: "mdns_inv (s\<lparr>g_address := enc_u32 a, g_id := fit 32 (concat (map (\<lambda>i. HEX2 (mac i)) [0..<6]))\<rparr>)" for a mac
    using a [of a] mac_id by (simp add: mdns_inv_def)
  from Cons.prems show ?case using Cons.IH [of s] Cons.IH [of "s\<lparr>g_address := enc_u32 a\<rparr>" for a] a b
    by (force simp: Let_def split: option.splits if_splits)
qed simp

lemma discover_inv: "discover_local_address ifs s = (ok, s') \<Longrightarrow> mdns_inv s \<Longrightarrow> mdns_inv s' \<and> g_running s' = g_running s"
  by (auto simp: discover_local_address_def probe_inv split: if_splits option.splits)

lemma start_error_inv: "mdns_inv s \<Longrightarrow> mdns_inv (start_error st e s)"
  by (simp add: mdns_inv_def start_error_def length_fit)

lemma inet_pton_length: "inet_pton s = Some a \<Longrightarrow> length a = 4"
  by (auto simp: inet_pton_def Let_def split: if_splits)

lemma valid_id_fit: "valid_id i \<Longrightarrow> fit 32 i = i"
  by (simp add: valid_id_def fit_id)

lemma start_inv:
  assumes "mdns_inv s"
  shows "mdns_inv (snd (airtizen_mdns_start ifs errno outcome nm i port s))"
proof (cases "g_running s")
  case True then show ?thesis using assms by (simp add: airtizen_mdns_start_def)
next
  case run: False
  let ?s1 = "s\<lparr>g_start_error := []\<rparr>"
  have s1: "mdns_inv ?s1" using assms by (simp add: mdns_inv_def)
  show ?thesis
  proof (cases "\<exists>n. nm = Some n \<and> n \<noteq> [] \<and> length n \<le> 48 \<and> (case i of None \<Rightarrow> True | Some x \<Rightarrow> valid_id x)")
    case False
    then show ?thesis using run s1 by (cases nm) (auto simp: airtizen_mdns_start_def Let_def split: option.splits)
  next
    case True
    then obtain n where n: "nm = Some n" "n \<noteq> []" "length n \<le> 48" "case i of None \<Rightarrow> True | Some x \<Rightarrow> valid_id x" by blast
    obtain ok s2 where d: "discover_local_address ifs ?s1 = (ok, s2)" by (cases "discover_local_address ifs ?s1")
    have s2: "mdns_inv s2" "g_running s2 = False" using discover_inv [OF d s1] run by auto
    let ?s3 = "s2\<lparr>g_id := (case i of None \<Rightarrow> g_id s2 | Some x \<Rightarrow> fit 32 x), g_name := fit 96 n, g_port := (if port \<noteq> 0 then port else 5000)\<rparr>"
    have s3: "mdns_inv ?s3" using s2 n by (auto simp: mdns_inv_def fit_id valid_id_fit split: option.splits)
    then have "mdns_inv (?s3\<lparr>g_sock := False, g_stop := False\<rparr>)" "mdns_inv (?s3\<lparr>g_sock := True, g_stop := True, g_running := True\<rparr>)"
      using s2(2) by (simp_all add: mdns_inv_def)
    then show ?thesis using run n d s2 s3
      by (cases ok) (auto simp: airtizen_mdns_start_def Let_def start_error_inv split: option.splits)
  qed
qed

lemma mdns_step_inv:
  assumes "mdns_inv s"
  shows "mdns_inv (mdns_step op s)"
proof (cases op)
  case (SetProfile p)
  then show ?thesis using assms by (simp add: mdns_step_def airtizen_discovery_set_profile_def Let_def mdns_inv_def)
next
  case (SetKey k)
  have "length (concat (map (\<lambda>i. hex2 (key i)) [0..<32])) = 64" for key :: "nat \<Rightarrow> byte"
    by (simp add: length_concat o_def sum_list_triv)
  then show ?thesis using assms SetKey by (auto simp: mdns_step_def airtizen_mdns_set_public_key_def mdns_inv_def split: option.split)
next
  case (SetNetwork ip i)
  then show ?thesis using assms inet_pton_length
    by (auto simp: mdns_step_def airtizen_mdns_set_network_def mdns_inv_def valid_id_def Let_def split: option.split)
next
  case (Start ifs errno outcome nm i port)
  then show ?thesis using start_inv [OF assms] by (simp add: mdns_step_def)
next
  case Stop
  then show ?thesis using assms by (simp add: mdns_step_def airtizen_mdns_stop_def mdns_inv_def)
qed

interpretation mdns: guarded_component mdns_init mdns_step mdns_inv
proof
  have "valid_id (str ''A1B2C3D4E5F6'')" by code_simp
  then show "mdns_inv mdns_init" by (simp add: mdns_inv_def mdns_init_def)
qed (rule mdns_step_inv)

section \<open>The packet fits its buffer\<close>

text \<open>The label loop with the string split at its first dot.\<close>

lemma name_labels_Nil [simp]: "name_labels [] = []"
  by (subst name_labels.simps) simp

lemma name_labels_last: "s \<noteq> [] \<Longrightarrow> 46 \<notin> set s \<Longrightarrow> name_labels s = of_nat (min (length s) 63) # take (min (length s) 63) s"
proof -
  assume "s \<noteq> []" "46 \<notin> set s"
  moreover from this have "takeWhile (\<lambda>c. c \<noteq> 46) s = s" "dropWhile (\<lambda>c. c \<noteq> 46) s = []"
    by (auto simp: takeWhile_eq_all_conv dropWhile_eq_Nil_conv)
  ultimately show ?thesis by (subst name_labels.simps) (simp only: Let_def if_False if_True append_Nil2 refl)
qed

lemma name_labels_dot: "46 \<notin> set l \<Longrightarrow>
    name_labels (l @ 46 # r) = (of_nat (min (length l) 63) # take (min (length l) 63) l) @ name_labels r"
proof -
  assume "46 \<notin> set l"
  then have "\<forall>c \<in> set l. c \<noteq> 46" by auto
  then have "takeWhile (\<lambda>c. c \<noteq> 46) (l @ 46 # r) = l" "dropWhile (\<lambda>c. c \<noteq> 46) (l @ 46 # r) = 46 # r"
    by (simp_all add: takeWhile_append2 dropWhile_append2)
  moreover have "l @ 46 # r \<noteq> []" by simp
  ultimately show ?thesis by (subst name_labels.simps) (simp only: Let_def if_False list.sel list.distinct)
qed

text \<open>A string is a last part or a part, a dot and the rest.\<close>

lemma dot_induct [case_names last dot]:
  fixes P :: "cstring \<Rightarrow> bool"
  assumes "\<And>s. 46 \<notin> set s \<Longrightarrow> P s" "\<And>l r. 46 \<notin> set l \<Longrightarrow> P r \<Longrightarrow> P (l @ 46 # r)"
  shows "P s"
proof (induction "length s" arbitrary: s rule: less_induct)
  case less
  show ?case
  proof (cases "46 \<in> set s")
    case True
    then obtain l r where "s = l @ 46 # r" "46 \<notin> set l" using split_list_first by metis
    then show ?thesis using assms(2) less by simp
  qed (rule assms(1))
qed

lemma name_labels_length: "length (name_labels s) \<le> length s + 1"
proof (induction s rule: dot_induct)
  case (last s)
  then show ?case by (cases "s = []") (simp_all add: name_labels_last)
next
  case (dot l r)
  then show ?case by (simp add: name_labels_dot)
qed

lemma dns_name_length: "length (dns_name s) \<le> length s + 2"
  using name_labels_length [of s] by (simp add: dns_name_def)

lemma txt_length: "length (txt_entry t) \<le> length t + 1"
  by (simp add: txt_entry_def Let_def)

lemma txt_data_length:
  assumes "mdns_inv s"
  shows "length (txt_raop_data s) \<le> 300" "length (txt_airplay_data s) \<le> 320"
proof -
  have [simp]: "length (txt_entry t) = 1 + min (length t) 255" for t by (simp add: txt_entry_def Let_def)
  note defs = AIRTIZEN_SOURCE_VERSION_def selected_features_txt_def selected_model_def AIRTIZEN_UXPLAY_TEST_FEATURES_TXT_def
    AIRTIZEN_NATIVE_FEATURES_TXT_def fit_def
  have pk: "length (txt_entry (fit 68 (str ''pk='' @ g_public_key s))) \<le> 68" using assms
    by (simp add: mdns_inv_def fit_def)
  show "length (txt_raop_data s) \<le> 300"
    unfolding txt_raop_data_def using pk by (auto simp: defs min_def)
  have "length (colon_id (g_id s)) \<le> 17" using assms by (simp add: colon_id_def mdns_inv_def valid_id_def)
  then show "length (txt_airplay_data s) \<le> 320"
    unfolding txt_airplay_data_def using pk by (auto simp: defs min_def)
qed

lemma own_names_length:
  assumes "mdns_inv s"
  shows "length (raop_name s) \<le> 78" "length (air_name s) \<le> 68" "length (host_name c s) \<le> 54"
  using assms by (auto simp: mdns_inv_def valid_id_def raop_name_def air_name_def host_name_def fit_def)

lemma packet_length:
  assumes "mdns_inv s"
  shows "length (build_packet s) \<le> AIRTIZEN_MDNS_MAX"
proof -
  note n = own_names_length [OF assms] txt_data_length [OF assms]
  have "length (dns_name (raop_name s)) \<le> 80" "length (dns_name (air_name s)) \<le> 70" "length (dns_name (host_name 140 s)) \<le> 56"
    "length (dns_name (str ''_raop._tcp.local'')) \<le> 18" "length (dns_name (str ''_airplay._tcp.local'')) \<le> 21"
    using n by (intro order_trans [OF dns_name_length], simp)+
  moreover have "length (enc_u16 v) = 2" "length (enc_u32 w) = 4" "length (rdata d) = 2 + length d" for v w d
    by (simp_all add: enc_u16_def enc_u32_def rdata_def)
  ultimately show ?thesis using n(4,5) unfolding build_packet_def Let_def ptr_def srv_def txt_record_def address_record_def
    by (simp add: AIRTIZEN_MDNS_MAX_def)
qed

section \<open>The question parser\<close>

text \<open>One turn with its reads resolved.\<close>

lemma read_name_step:
  assumes "length out < capacity"
  shows "read_name packet capacity cursor resume jumps out =
     (if length packet \<le> cursor then Some None
      else let label = packet ! cursor in
        if label = 0 then Some (Some (if resume \<noteq> 0 then resume else cursor + 1, out))
        else if label AND 0xc0 = 0xc0 then
          if length packet \<le> cursor + 1 \<or> jumps + 1 > 8 then Some None
          else read_name packet capacity (be16 (label AND 0x3f) (packet ! (cursor + 1)))
              (if resume = 0 then cursor + 2 else resume) (jumps + 1) out
        else if label > 63 \<or> length packet < cursor + 1 + unat label \<or> capacity < length out + unat label + 2 then Some None
        else read_name packet capacity (cursor + 1 + unat label) resume jumps
               (out @ (if out \<noteq> [] then [46] else []) @ take (unat label) (drop (cursor + 1) packet)))"
proof (cases "cursor < length packet")
  case False then show ?thesis by (subst read_name.simps) simp
next
  case True
  then have r: "rd packet cursor = Some (packet ! cursor)" by (simp add: rd_def)
  show ?thesis
  proof (cases "packet ! cursor = 0")
    case True
    then show ?thesis using assms \<open>cursor < length packet\<close> r by (subst read_name.simps) (simp add: put_def)
  next
    case nz: False
    show ?thesis
    proof (cases "packet ! cursor AND 0xc0 = 0xc0")
      case c: True
      then show ?thesis using True r nz
        by (subst read_name.simps) (auto simp: rd_def Let_def simp del: One_nat_def)
    next
      case c: False
      show ?thesis
      proof (cases "packet ! cursor > 63 \<or> length packet < cursor + 1 + unat (packet ! cursor) \<or> capacity < length out + unat (packet ! cursor) + 2")
        case big: True
        then show ?thesis using True r nz c by (subst read_name.simps) (auto simp: Let_def)
      next
        case ok: False
        let ?n = "unat (packet ! cursor)"
        have b: "rdn packet (cursor + 1) ?n = Some (take ?n (drop (cursor + 1) packet))" using ok by (simp add: rdn_def)
        have p: "put capacity out (if out \<noteq> [] then [46] else []) = Some (out @ (if out \<noteq> [] then [46] else []))"
          using ok by (simp add: put_def)
        have q: "put capacity (out @ (if out \<noteq> [] then [46] else [])) (take ?n (drop (cursor + 1) packet)) =
            Some ((out @ (if out \<noteq> [] then [46] else [])) @ take ?n (drop (cursor + 1) packet))"
          using ok by (auto simp: put_def)
        have n: "\<not> (packet ! cursor > 63 \<or> cursor + 1 + ?n > length packet \<or> length out + ?n + 2 > capacity)" using ok by simp
        have l: "\<not> length packet \<le> cursor" using True by simp
        show ?thesis
          by (subst read_name.simps)
            (simp only: True l r nz c n b p q bind.bind_lunit Let_def if_True if_False simp_thms append_assoc)
      qed
    qed
  qed
qed

lemma read_name_safe:
  "length out < capacity \<Longrightarrow> \<exists>r. read_name packet capacity cursor resume jumps out = Some r \<and>
     (case r of None \<Rightarrow> True | Some (p, o') \<Rightarrow> length o' < capacity)"
proof (induction "(9 - jumps, length packet - cursor)" arbitrary: cursor resume jumps out rule: wf_induct [OF wf_lex_prod [OF wf_less wf_less]])
  case 1
  let ?label = "packet ! cursor"
  have jump: "\<exists>r. read_name packet capacity c' r' (jumps + 1) out = Some r \<and> (case r of None \<Rightarrow> True | Some (p, o') \<Rightarrow> length o' < capacity)"
    if "jumps + 1 \<le> 8" for c' r'
    by (rule 1(1) [rule_format]) (use that 1(2) in auto)
  have next_label: "\<exists>r. read_name packet capacity (cursor + 1 + n) resume jumps out' = Some r \<and>
      (case r of None \<Rightarrow> True | Some (p, o') \<Rightarrow> length o' < capacity)" if "cursor < length packet" "length out' < capacity" for n out'
    by (rule 1(1) [rule_format]) (use that in auto)
  have grow: "length (out @ (if out \<noteq> [] then [46] else []) @ take n (drop (cursor + 1) packet)) < capacity"
    if "\<not> capacity < length out + n + 2" for n using that by (auto split: if_split)
  show ?case
    by (subst read_name_step [OF 1(2)])
      (use 1(2) jump next_label [OF _ grow] in \<open>auto simp: Let_def simp del: One_nat_def\<close>)
qed

lemma read_dns_name_safe: "0 < capacity \<Longrightarrow> \<exists>r. read_dns_name packet position capacity = Some r \<and>
    (case r of None \<Rightarrow> True | Some (p, nm) \<Rightarrow> length nm < capacity \<and> no_nul nm)"
  using read_name_safe [of "[]" capacity packet position 0 0]
  by (auto simp: read_dns_name_def split: option.splits prod.splits)
    (rule le_less_trans [OF length_cstr], assumption)+

lemma query_matches_safe: "\<exists>b. query_matches s packet = Some b"
proof -
  have "\<exists>b. question_loop s packet k p = Some b" for k p
  proof (induction k arbitrary: p)
    case (Suc k)
    obtain r where "read_dns_name packet p 256 = Some r" using read_dns_name_safe [of 256 packet p] by auto
    then show ?case using Suc by (cases r) auto
  qed auto
  then show ?thesis by (auto simp: query_matches_def rd_def Let_def)
qed

section \<open>The parser reads what the encoder writes\<close>

text \<open>A name as DNS can carry it: non-empty labels of at most 63 bytes, no NUL, at most 253 bytes.\<close>

definition wf_name :: "cstring \<Rightarrow> bool" where
  "wf_name nm \<longleftrightarrow> length nm \<le> 253 \<and> no_nul nm \<and> list_all (\<lambda>l. l \<noteq> [] \<and> length l \<le> 63) (split_dot nm)"

lemma split_dot_last: "46 \<notin> set s \<Longrightarrow> split_dot s = [s]"
proof -
  assume "46 \<notin> set s"
  then have "takeWhile (\<lambda>c. c \<noteq> 46) s = s" "dropWhile (\<lambda>c. c \<noteq> 46) s = []"
    by (auto simp: takeWhile_eq_all_conv dropWhile_eq_Nil_conv)
  then show ?thesis by (subst split_dot.simps) (simp only: Let_def if_True refl)
qed

lemma split_dot_dot: "46 \<notin> set l \<Longrightarrow> split_dot (l @ 46 # r) = l # split_dot r"
proof -
  assume "46 \<notin> set l"
  then have "\<forall>c \<in> set l. c \<noteq> 46" by auto
  then have "takeWhile (\<lambda>c. c \<noteq> 46) (l @ 46 # r) = l" "dropWhile (\<lambda>c. c \<noteq> 46) (l @ 46 # r) = 46 # r"
    by (simp_all add: takeWhile_append2 dropWhile_append2)
  then show ?thesis by (subst split_dot.simps) (simp only: Let_def if_False list.sel list.distinct)
qed

lemma label_byte:
  assumes "0 < n" "n \<le> 63"
  shows "(of_nat n :: byte) \<noteq> 0" "(of_nat n :: byte) AND 0xc0 \<noteq> 0xc0" "\<not> (of_nat n :: byte) > 63" "unat (of_nat n :: byte) = n"
proof -
  have all: "list_all (\<lambda>n. (of_nat n :: byte) AND 0xc0 \<noteq> 0xc0) [0..<64]" by code_simp
  show u: "unat (of_nat n :: byte) = n" using assms by (simp add: unat_of_nat_byte)
  then show "(of_nat n :: byte) \<noteq> 0" "\<not> (of_nat n :: byte) > 63" using assms by (auto simp: word_less_nat_alt)
  show "(of_nat n :: byte) AND 0xc0 \<noteq> 0xc0" using all assms unfolding list_all_iff by simp
qed

lemma read_label:
  assumes l: "l \<noteq> []" "length l \<le> 63" and cap: "length out + length l + 2 \<le> capacity"
  shows "read_name (pre @ (of_nat (length l) # l) @ post) capacity (length pre) resume jumps out =
    read_name ((pre @ of_nat (length l) # l) @ post) capacity (length (pre @ (of_nat (length l) :: byte) # l)) resume jumps
      (out @ (if out \<noteq> [] then [46] else []) @ l)"
proof -
  have n: "0 < length l" using l by simp
  note b = label_byte [OF n l(2)]
  define p where "p = pre @ (of_nat (length l) # l) @ post"
  have at_p: "p ! length pre = of_nat (length l)" "length p = length pre + 1 + length l + length post"
    "take (length l) (drop (length pre + 1) p) = l" by (simp_all add: p_def)
  have "read_name p capacity (length pre) resume jumps out =
      read_name p capacity (length pre + 1 + length l) resume jumps (out @ (if out \<noteq> [] then [46] else []) @ l)"
    by (subst read_name_step) (use cap b at_p in \<open>simp_all add: Let_def\<close>)
  then show ?thesis by (simp add: p_def)
qed

lemma read_name_labels:
  assumes "list_all (\<lambda>l. l \<noteq> [] \<and> length l \<le> 63) (split_dot nm)" "length out + length nm + 2 \<le> capacity"
  shows "read_name (pre @ name_labels nm @ 0 # post) capacity (length pre) resume jumps out =
    Some (Some (if resume \<noteq> 0 then resume else length pre + length (name_labels nm) + 1, out @ (if out \<noteq> [] then [46] else []) @ nm))"
  using assms
proof (induction nm arbitrary: pre out rule: dot_induct)
  case (last s)
  then have s: "s \<noteq> []" "length s \<le> 63" by (simp_all add: split_dot_last)
  have e: "name_labels s = of_nat (length s) # s" using s last(1) by (simp add: name_labels_last)
  have stop: "read_name (q @ 0 # post) capacity (length q) resume jumps o' = Some (Some (if resume \<noteq> 0 then resume else length q + 1, o'))" if "length o' < capacity" for q o'
    by (subst read_name_step [OF that]) (simp add: Let_def)
  show ?case using read_label [OF s, of out capacity pre "0 # post" resume jumps] last(3)
      stop [of "out @ (if out \<noteq> [] then [46] else []) @ s" "pre @ of_nat (length s) # s"]
    by (simp add: e)
next
  case (dot l r)
  then have l: "l \<noteq> []" "length l \<le> 63" by (simp_all add: split_dot_dot)
  have e: "name_labels (l @ 46 # r) = (of_nat (length l) # l) @ name_labels r" using l dot(1) by (simp add: name_labels_dot)
  have ne: "out @ (if out \<noteq> [] then [46] else []) @ l \<noteq> []" using l by simp
  have IH: "read_name ((pre @ of_nat (length l) # l) @ name_labels r @ 0 # post) capacity (length (pre @ (of_nat (length l) :: byte) # l)) resume jumps
      (out @ (if out \<noteq> [] then [46] else []) @ l) =
    Some (Some (if resume \<noteq> 0 then resume else length (pre @ (of_nat (length l) :: byte) # l) + length (name_labels r) + 1,
      (out @ (if out \<noteq> [] then [46] else []) @ l) @ [46] @ r))"
    using dot.IH [of "out @ (if out \<noteq> [] then [46] else []) @ l" "pre @ of_nat (length l) # l"] dot.prems ne
    by (simp add: split_dot_dot [OF dot(1)])
  show ?case
    using IH read_label [OF l, of out capacity pre "name_labels r @ 0 # post" resume jumps] dot.prems(2) by (simp add: e)
qed

lemma cstr_no_nul: "no_nul p \<Longrightarrow> cstr p = p"
  by (simp add: cstr_def no_nul_def list_all_iff takeWhile_eq_all_conv)

lemma read_dns_name_encoded:
  assumes "wf_name nm"
  shows "read_dns_name (pre @ dns_name nm @ post) (length pre) 256 = Some (Some (length pre + length (dns_name nm), nm))"
  using read_name_labels [where nm = nm and out = "[]" and capacity = 256 and resume = 0 and pre = pre and post = post and jumps = 0] assms
  by (simp add: wf_name_def read_dns_name_def dns_name_def cstr_no_nul)

text \<open>A question about a name: the header with one question, the encoded name, type and class.\<close>

definition question :: "u16 \<Rightarrow> cstring \<Rightarrow> byte list \<Rightarrow> byte list" where
  "question ident nm tail = enc_u16 ident @ [0, 0, 0, 1, 0, 0, 0, 0, 0, 0] @ dns_name nm @ tail"

lemma question_matches:
  assumes "wf_name nm" "length tail = 4"
  shows "query_matches s (question ident nm tail) = Some (own_name s nm)"
proof -
  let ?pre = "enc_u16 ident @ [0, 0, 0, 1, 0, 0, 0, 0, 0, 0]" and ?q = "question ident nm tail"
  have q: "?q = ?pre @ dns_name nm @ tail" by (simp add: question_def)
  have l: "length ?pre = 12" by (simp add: enc_u16_def)
  have n: "read_dns_name ?q 12 256 = Some (Some (12 + length (dns_name nm), nm))"
    using read_dns_name_encoded [OF assms(1), of ?pre tail] unfolding q l .
  have "length ?q = 12 + length (dns_name nm) + 4" using assms(2) l by (simp add: question_def)
  moreover have "rd ?q 2 = Some 0" "rd ?q 4 = Some 0" "rd ?q 5 = Some 1" by (simp_all add: question_def rd_def enc_u16_def)
  moreover have "be16 0 1 = 1" by (simp add: be16_eq)
  ultimately show ?thesis using n by (simp add: query_matches_def)
qed

text \<open>A compression pointer to a name already in the packet.\<close>

definition pointer :: "nat \<Rightarrow> byte list" where
  "pointer offset = [of_nat (192 + offset div 256), of_nat (offset mod 256)]"

lemma pointer_bytes:
  assumes "offset < 16384"
  shows "(of_nat (192 + offset div 256) :: byte) \<noteq> 0" "(of_nat (192 + offset div 256) :: byte) AND 0xc0 = 0xc0"
    "be16 (of_nat (192 + offset div 256) AND 0x3f) (of_nat (offset mod 256)) = offset"
proof -
  have q: "offset div 256 < 64" using assms by (simp add: less_mult_imp_div_less)
  have all: "list_all (\<lambda>n. (of_nat (192 + n) :: byte) AND 0xc0 = 0xc0 \<and> unat ((of_nat (192 + n) :: byte) AND 0x3f) = n \<and>
      (of_nat (192 + n) :: byte) \<noteq> 0) [0..<64]" by code_simp
  then have a: "(of_nat (192 + offset div 256) :: byte) AND 0xc0 = 0xc0 \<and>
      unat ((of_nat (192 + offset div 256) :: byte) AND 0x3f) = offset div 256 \<and> (of_nat (192 + offset div 256) :: byte) \<noteq> 0"
    using q unfolding list_all_iff by (metis atLeastLessThan_iff set_upt zero_le)
  then show "(of_nat (192 + offset div 256) :: byte) \<noteq> 0" "(of_nat (192 + offset div 256) :: byte) AND 0xc0 = 0xc0" by blast+
  show "be16 (of_nat (192 + offset div 256) AND 0x3f) (of_nat (offset mod 256)) = offset"
    unfolding be16_eq using a by (simp only: unat_of_nat_byte mod_less_divisor zero_less_numeral div_mult_mod_eq)
qed

lemma read_dns_name_pointer:
  assumes nm: "wf_name nm" and off: "length pre < 16384"
  shows "read_dns_name (pre @ dns_name nm @ mid @ pointer (length pre) @ post) (length (pre @ dns_name nm @ mid)) 256 =
    Some (Some (length (pre @ dns_name nm @ mid) + 2, nm))"
proof -
  define p where "p = pre @ dns_name nm @ mid @ pointer (length pre) @ post"
  define c where "c = length (pre @ dns_name nm @ mid)"
  have at_p: "p ! c = of_nat (192 + length pre div 256)" "p ! (c + 1) = of_nat (length pre mod 256)" "c + 1 < length p"
    by (simp_all add: p_def c_def pointer_def nth_append)
  note b = pointer_bytes [OF off]
  have "read_name p 256 c 0 0 [] = read_name p 256 (length pre) (c + 2) 1 []"
    by (subst read_name_step) (use at_p b in \<open>simp_all add: Let_def del: of_nat_add\<close>)
  also have "\<dots> = Some (Some (c + 2, nm))"
    using read_name_labels [where nm = nm and out = "[]" and capacity = 256 and resume = "c + 2" and pre = pre
        and post = "mid @ pointer (length pre) @ post" and jumps = 1] nm
    by (simp add: p_def dns_name_def wf_name_def)
  finally show ?thesis using nm by (simp add: read_dns_name_def p_def c_def wf_name_def cstr_no_nul)
qed

text \<open>The names of a receiver whose own name has no empty part are names DNS can carry.\<close>

lemma split_dot_append: "split_dot (x @ 46 # y) = split_dot x @ split_dot y"
  by (induction x rule: dot_induct) (simp_all add: split_dot_last split_dot_dot)

lemma split_dot_prefix: "46 \<notin> set a \<Longrightarrow> split_dot (a @ y) = (a @ hd (split_dot y)) # tl (split_dot y)"
proof (induction y rule: dot_induct)
  case (dot l r)
  then have "46 \<notin> set (a @ l)" by simp
  from split_dot_dot [OF this, of r] show ?case using dot by (simp add: split_dot_dot)
qed (simp add: split_dot_last)

lemma split_dot_lengths: "l \<in> set (split_dot s) \<Longrightarrow> length l \<le> length s"
  by (induction s rule: dot_induct) (auto simp: split_dot_last split_dot_dot)

lemma split_dot_nonempty: "split_dot s \<noteq> []"
  by (subst split_dot.simps) (simp add: Let_def)

definition name_ok :: "mdns_module \<Rightarrow> bool" where
  "name_ok s \<longleftrightarrow> no_nul (g_name s) \<and> list_all (\<lambda>l. l \<noteq> []) (split_dot (g_name s))"

lemma hex_upper_plain: "hex_upper c \<Longrightarrow> c \<noteq> 46 \<and> c \<noteq> 0"
  by (auto simp: hex_upper_def)

lemma own_names_wf:
  assumes inv: "mdns_inv s" and ok: "name_ok s"
  shows "wf_name (host_name 160 s)" "wf_name (air_name s)" "wf_name (raop_name s)"
proof -
  let ?n = "g_name s" and ?i = "g_id s @ str ''@''"
  have dots: "str ''.local'' = 46 # str ''local''" "str ''._airplay._tcp.local'' = 46 # str ''_airplay._tcp.local''"
    "str ''._raop._tcp.local'' = 46 # str ''_raop._tcp.local''" by (simp_all add: str_def)
  have suffix: "list_all (\<lambda>l. l \<noteq> [] \<and> length l \<le> 63) (split_dot (str ''local'')) \<and> no_nul (str ''local'')"
    "list_all (\<lambda>l. l \<noteq> [] \<and> length l \<le> 63) (split_dot (str ''_airplay._tcp.local'')) \<and> no_nul (str ''_airplay._tcp.local'')"
    "list_all (\<lambda>l. l \<noteq> [] \<and> length l \<le> 63) (split_dot (str ''_raop._tcp.local'')) \<and> no_nul (str ''_raop._tcp.local'')"
    by code_simp+
  have len: "length ?n \<le> 48" "length (g_id s) = 12" and idc: "list_all hex_upper (g_id s)"
    using inv by (auto simp: mdns_inv_def valid_id_def)
  have i: "46 \<notin> set ?i" "no_nul ?i" "length ?i = 13"
    using idc len(2) hex_upper_plain by (auto simp: list_all_iff no_nul_def str_def)
  have n: "list_all (\<lambda>l. l \<noteq> [] \<and> length l \<le> 48) (split_dot ?n)" "no_nul ?n"
    using ok len(1) split_dot_lengths [of _ ?n, THEN order_trans] by (auto simp: name_ok_def list_all_iff)
  have n63: "list_all (\<lambda>l. l \<noteq> [] \<and> length l \<le> 63) (split_dot ?n)" using n(1) by (auto simp: list_all_iff)
  have r: "list_all (\<lambda>l. l \<noteq> [] \<and> length l \<le> 63) (split_dot (?i @ ?n))"
    unfolding split_dot_prefix [OF i(1)] using n(1) split_dot_nonempty [of ?n] i(3)
    by (cases "split_dot ?n") (auto simp: list_all_iff)
  show "wf_name (host_name 160 s)" "wf_name (air_name s)"
    using len n n63 suffix by (simp_all add: wf_name_def host_name_def air_name_def fit_id dots split_dot_append)
  have "raop_name s = (?i @ ?n) @ 46 # str ''_raop._tcp.local''"
    using len by (simp add: raop_name_def fit_id dots)
  then show "wf_name (raop_name s)" using r n(2) i(2,3) suffix(3) len
    by (simp only: wf_name_def split_dot_append) (simp add: list_all_append)
qed

section \<open>Properties\<close>


text \<open>C8: a datagram of any bytes is parsed without reading outside it or writing
  outside the 256-byte name buffer, and parsing ends despite compression pointers that loop.\<close>

theorem mdns_question_safe:
  "(\<exists>b. query_matches s packet = Some b) \<and>
   (case read_dns_name packet position 256 of None \<Rightarrow> False | Some None \<Rightarrow> True | Some (Some (p, nm)) \<Rightarrow> length nm < 256 \<and> no_nul nm)"
  using query_matches_safe [of s packet] read_dns_name_safe [of 256 packet position] by auto

text \<open>The question parser reads back every name the encoder writes, wherever it
  stands in a packet and whatever surrounds it, and reads the same name through a compression
  pointer to it; the position it leaves is the byte after the name, or after the pointer.\<close>

theorem mdns_name_roundtrip:
  assumes "wf_name nm" and "length pre < 16384"
  shows "read_dns_name (pre @ dns_name nm @ post) (length pre) 256 = Some (Some (length pre + length (dns_name nm), nm)) \<and>
    read_dns_name (pre @ dns_name nm @ mid @ pointer (length pre) @ post) (length (pre @ dns_name nm @ mid)) 256 =
      Some (Some (length (pre @ dns_name nm @ mid) + 2, nm))"
  using read_dns_name_encoded [OF assms(1)] read_dns_name_pointer [OF assms] by blast

theorem mdns_name_roundtrip_witness:
  "read_dns_name ([7] @ dns_name (str ''tv.local'') @ []) 1 256 = Some (Some (11, str ''tv.local''))"
proof -
  have "wf_name (str ''tv.local'')" "length (dns_name (str ''tv.local'')) = 10" by code_simp+
  then show ?thesis using mdns_name_roundtrip [of "str ''tv.local''" "[7]" "[]"] by simp
qed



text \<open>While the service runs, no attempt to set the profile, the key or the
  network and no second start changes anything of its state, so what is announced stays what was
  announced; only the stop does.\<close>

theorem mdns_identity_frozen:
  assumes "g_running s" and "op \<noteq> Stop"
  shows "mdns_step op s = s"
  using assms
  by (cases op) (auto simp: mdns_step_def airtizen_discovery_set_profile_def airtizen_mdns_set_public_key_def
      airtizen_mdns_set_network_def airtizen_mdns_start_def Let_def split: option.split)

theorem mdns_identity_frozen_witness:
  "mdns_step (SetProfile (Some (str ''uxplay-test''))) (mdns_init\<lparr>g_running := True\<rparr>) = mdns_init\<lparr>g_running := True\<rparr>"
  using mdns_identity_frozen [of "mdns_init\<lparr>g_running := True\<rparr>" "SetProfile (Some (str ''uxplay-test''))"] by simp

lemma loop_turns_packets:
  assumes "announce s = Some (build_packet s)" and "\<exists>e \<in> set es. e = StopRequested \<or> e = SelectFailed"
  shows "\<exists>n. loop_turns s es sent = Some (sent @ replicate n (build_packet s))"
  using assms(2)
proof (induction es arbitrary: sent)
  case (Cons e es)
  show ?case
  proof (cases e)
    case TimedOut
    then have "\<exists>e \<in> set es. e = StopRequested \<or> e = SelectFailed" using Cons.prems by auto
    from Cons.IH [OF this] obtain n where "loop_turns s es (sent @ [build_packet s]) = Some ((sent @ [build_packet s]) @ replicate n (build_packet s))"
      by blast
    then show ?thesis using TimedOut assms(1) by (intro exI [of _ "Suc n"]) simp
  next
    case (Datagram d)
    obtain m where m: "(if length (take AIRTIZEN_MDNS_MAX d) \<ge> 12 then query_matches s (take AIRTIZEN_MDNS_MAX d) else Some False) = Some m"
      using query_matches_safe by (metis (full_types))
    show ?thesis
    proof (cases m)
      case True
      have "\<exists>e \<in> set es. e = StopRequested \<or> e = SelectFailed" using Cons.prems Datagram by auto
      from Cons.IH [OF this] obtain n where "loop_turns s es (sent @ [build_packet s]) = Some ((sent @ [build_packet s]) @ replicate n (build_packet s))"
        by blast
      then show ?thesis using Datagram assms(1) m True by (intro exI [of _ "Suc n"]) (simp add: Let_def)
    next
      case False
      then show ?thesis using Cons Datagram m by (simp add: Let_def)
    qed
  qed (use Cons in \<open>auto intro: exI [of _ 0]\<close>)
qed simp

text \<open>C16: whatever datagrams, timeouts and interruptions come in, once the stop is
  requested (or \<open>select\<close> fails) the responder leaves its loop; every packet it sent is the announcement,
  the first one sent at once, and the last one is the goodbye, the same announcement with TTL 0. The TTL
  is then 120 again.\<close>

theorem mdns_loop_goodbye:
  assumes "mdns_inv s" and "\<exists>e \<in> set es. e = StopRequested \<or> e = SelectFailed"
  shows "\<exists>n. mdns_loop s es = Some (replicate (Suc n) (build_packet s) @ [build_packet (s\<lparr>g_ttl := 0\<rparr>)], s)"
proof -
  have a: "announce s = Some (build_packet s)" using packet_length [OF assms(1)] by (simp add: announce_def put_def)
  have "length (build_packet (s\<lparr>g_ttl := 0\<rparr>)) = length (build_packet s)"
    by (simp add: build_packet_def Let_def ptr_def srv_def txt_record_def address_record_def enc_u32_def raop_name_def air_name_def
        host_name_def rdata_def txt_raop_data_def txt_airplay_data_def selected_features_txt_def selected_model_def)
  then have b: "announce (s\<lparr>g_ttl := 0\<rparr>) = Some (build_packet (s\<lparr>g_ttl := 0\<rparr>))"
    using packet_length [OF assms(1)] by (simp add: announce_def put_def)
  obtain n where n: "loop_turns s es [build_packet s] = Some ([build_packet s] @ replicate n (build_packet s))"
    using loop_turns_packets [OF a assms(2)] by blast
  have "s\<lparr>g_ttl := 120\<rparr> = s" using assms(1) by (simp add: mdns_inv_def)
  then show ?thesis using a b n by (intro exI [of _ n]) (simp add: mdns_loop_def)
qed

theorem mdns_loop_goodbye_witness:
  "\<exists>n. mdns_loop mdns_init [TimedOut, Datagram [1, 2], StopRequested] =
     Some (replicate (Suc n) (build_packet mdns_init) @ [build_packet (mdns_init\<lparr>g_ttl := 0\<rparr>)], mdns_init)"
  using mdns_loop_goodbye [OF mdns.init_inv, of "[TimedOut, Datagram [1, 2], StopRequested]"] by simp

end
