(* ===== verification/Core.thy ===== *)
theory Core
  imports Json Metadata Photo Playback Video Mdns
begin

text \<open>
  The receiver core (\<open>native/src/airtizen_core.c\<close>): the callbacks the RAOP server invokes, which feed
  the metadata, photo, playback and video components and the audio device, and the bounded operational
  log. The state of all these components together is the record \<open>receiver\<close>; every callback takes its
  locks around each access, so a history of the receiver is a sequence of callbacks.

  Parameters of the model: the RAOP server (whether it initialises and starts, its key, and the
  callbacks it still delivers while it is joined), the audio device, and the two pieces of floating
  point arithmetic the core uses (the power of ten of the volume and the scaled sample). The theory
  shows that every history of callbacks keeps the invariants of all components together, that no audio
  byte is lost, repeated or reordered however the device splits its writes, that the log shows exactly
  the most recent 32 entries in order and that its JSON form stays within the caller's buffer, and that
  the end of the last session clears what was known of the sender.
\<close>

section \<open>State\<close>

definition RAOP_LOG_ERR :: nat where "RAOP_LOG_ERR = 3"
definition RAOP_LOG_WARNING :: nat where "RAOP_LOG_WARNING = 4"
definition RAOP_LOG_INFO :: nat where "RAOP_LOG_INFO = 6"
definition LOG_COUNT :: nat where "LOG_COUNT = 32"
definition LOG_LENGTH :: nat where "LOG_LENGTH = 180"

record airtizen_core_state =
  cs_running :: bool
  cs_connected :: bool
  cs_paired :: bool
  cs_sample_rate :: u32
  cs_audio_bytes :: u64
  cs_video_frames :: u64
  cs_device :: cstring
  cs_audio :: cstring
  cs_codec :: cstring
  cs_last_error :: cstring

text \<open>The static variables; \<open>g_raop\<close> tells whether the server handle is set.\<close>

record core_module =
  g_raop :: bool
  g_state :: airtizen_core_state
  g_gain :: rat
  g_sessions :: u32
  g_logs :: "cstring list"
  g_log_next :: nat
  g_log_count :: nat

definition core_zero :: airtizen_core_state where
  "core_zero = \<lparr>cs_running = False, cs_connected = False, cs_paired = False, cs_sample_rate = 0, cs_audio_bytes = 0,
     cs_video_frames = 0, cs_device = [], cs_audio = [], cs_codec = [], cs_last_error = []\<rparr>"

definition core_init :: core_module where
  "core_init = \<lparr>g_raop = False, g_state = core_zero, g_gain = 1, g_sessions = 0, g_logs = replicate LOG_COUNT [],
     g_log_next = 0, g_log_count = 0\<rparr>"

text \<open>The receiver: all components the core drives.\<close>

record 'm receiver =
  rc_core :: core_module
  rc_metadata :: metadata_module
  rc_video :: "'m video_module"
  rc_photo :: photo_module
  rc_playback :: airtizen_playback_state
  rc_mdns :: mdns_module

definition receiver_init :: "'m receiver" where
  "receiver_init = \<lparr>rc_core = core_init, rc_metadata = metadata_init, rc_video = video_init, rc_photo = photo_init,
     rc_playback = playback_zero, rc_mdns = mdns_init\<rparr>"

text \<open>The audio device and the floating point arithmetic: the result of opening the device, the count it
  returns for an offered buffer after what it has taken so far, the sample scaled by the gain, and
  the gain for a volume in decibel.\<close>

record audio_env =
  dev_open :: "u32 \<Rightarrow> nat \<Rightarrow> int"
  dev_write :: "byte list \<Rightarrow> byte list \<Rightarrow> int"
  dev_scale :: "rat \<Rightarrow> u16 \<Rightarrow> u16"
  dev_gain :: "rat \<Rightarrow> rat"

section \<open>The log\<close>

definition log_entry :: "nat \<Rightarrow> nat \<Rightarrow> cstring \<Rightarrow> cstring" where
  "log_entry now level msg = fit LOG_LENGTH (dec_nat now @ str '' ['' @ dec_nat level @ str ''] '' @ take 145 msg)"

definition log_cb :: "nat \<Rightarrow> nat \<Rightarrow> cstring option \<Rightarrow> core_module \<Rightarrow> core_module" where
  "log_cb now level msg_ptr c =
     (case msg_ptr of
        None \<Rightarrow> c
      | Some msg \<Rightarrow>
          if level > RAOP_LOG_INFO then c
          else c\<lparr>g_logs := (g_logs c)[g_log_next c := log_entry now level msg],
                 g_log_next := (g_log_next c + 1) mod LOG_COUNT,
                 g_log_count := (if g_log_count c < LOG_COUNT then g_log_count c + 1 else g_log_count c)\<rparr>)"

definition airtizen_core_note :: "nat \<Rightarrow> cstring option \<Rightarrow> core_module \<Rightarrow> core_module" where
  "airtizen_core_note now message c = (case message of None \<Rightarrow> c | Some m \<Rightarrow> log_cb now RAOP_LOG_INFO (Some m) c)"

definition set_state :: "(airtizen_core_state \<Rightarrow> airtizen_core_state) \<Rightarrow> core_module \<Rightarrow> core_module" where
  "set_state f c = c\<lparr>g_state := f (g_state c)\<rparr>"

definition core_fail :: "nat \<Rightarrow> cstring \<Rightarrow> core_module \<Rightarrow> core_module" where
  "core_fail now err c =
     log_cb now RAOP_LOG_ERR (Some err)
       (set_state (\<lambda>st. st\<lparr>cs_last_error := fit 128 err, cs_audio := fit 32 (str ''failed'')\<rparr>) c)"

section \<open>Callbacks\<close>

definition on_core :: "(core_module \<Rightarrow> core_module) \<Rightarrow> 'm receiver \<Rightarrow> 'm receiver" where
  "on_core f r = r\<lparr>rc_core := f (rc_core r)\<rparr>"

text \<open>A payload is a pointer with a size; a non-positive size is the empty list.\<close>

definition cb_metadata :: "nat \<Rightarrow> byte list option \<Rightarrow> 'm receiver \<Rightarrow> 'm receiver option" where
  "cb_metadata now data r =
     (if (case data of None \<Rightarrow> False | Some d \<Rightarrow> d = []) then Some r
      else do {
        (rc, m) \<leftarrow> airtizen_metadata_parse (rc_metadata r) data;
        let r1 = r\<lparr>rc_metadata := m\<rparr>;
        Some (if rc < 0 then on_core (log_cb now RAOP_LOG_WARNING (Some (str ''Rejected malformed music metadata''))) r1 else r1)
      })"

definition cb_artwork :: "nat \<Rightarrow> bool \<Rightarrow> byte list option \<Rightarrow> 'm receiver \<Rightarrow> 'm receiver" where
  "cb_artwork now alloc data r =
     (if (case data of None \<Rightarrow> False | Some d \<Rightarrow> d = []) then r
      else (case airtizen_metadata_artwork alloc (rc_metadata r) data of
              (rc, m) \<Rightarrow>
                let r1 = r\<lparr>rc_metadata := m\<rparr> in
                if rc < 0 then on_core (log_cb now RAOP_LOG_WARNING (Some (str ''Rejected invalid/oversized artwork''))) r1 else r1))"

definition cb_progress :: "u32 \<Rightarrow> u32 \<Rightarrow> u32 \<Rightarrow> 'm receiver \<Rightarrow> 'm receiver" where
  "cb_progress start current end_ts r =
     r\<lparr>rc_metadata := airtizen_metadata_progress (rc_metadata r) start current end_ts\<rparr>"

definition cb_audio_format :: "nat \<Rightarrow> u32 \<Rightarrow> 'm receiver \<Rightarrow> 'm receiver" where
  "cb_audio_format now ct r =
     on_core (\<lambda>c. log_cb now RAOP_LOG_INFO
         (Some (if ct = 2 then str ''Negotiated lossless ALAC'' else if ct = 4 then str ''Negotiated AAC-LC'' else str ''Negotiated AAC-ELD''))
         (set_state (\<lambda>st. st\<lparr>cs_codec := fit 16 (if ct = 2 then str ''ALAC'' else if ct = 4 then str ''AAC-LC'' else str ''AAC-ELD'')\<rparr>) c)) r"

definition cb_pairing_verified :: "nat \<Rightarrow> 'm receiver \<Rightarrow> 'm receiver" where
  "cb_pairing_verified now r =
     on_core (\<lambda>c. log_cb now RAOP_LOG_INFO (Some (str ''Pair-verify signature verified''))
                    (set_state (\<lambda>st. st\<lparr>cs_paired := True\<rparr>) c)) r"

definition device_name :: "cstring option \<Rightarrow> cstring" where
  "device_name nm = fit 128 (case nm of None \<Rightarrow> str ''AirPlay device'' | Some n \<Rightarrow> n)"

definition cb_connected :: "nat \<Rightarrow> cstring option \<Rightarrow> 'm receiver \<Rightarrow> 'm receiver" where
  "cb_connected now nm r =
     on_core (\<lambda>c. log_cb now RAOP_LOG_INFO (Some (str ''Client connected''))
       (set_state (\<lambda>st. st\<lparr>cs_connected := True, cs_device := device_name nm\<rparr>) (c\<lparr>g_sessions := g_sessions c + 1\<rparr>))) r"

definition cb_audio_flush :: "'m receiver \<Rightarrow> 'm receiver" where
  "cb_audio_flush r = on_core (set_state (\<lambda>st. st\<lparr>cs_audio := fit 32 (str ''idle'')\<rparr>)) r"

definition cb_disconnected :: "nat \<Rightarrow> 'm receiver \<Rightarrow> 'm receiver" where
  "cb_disconnected now r =
     (let c = rc_core r; n = (if g_sessions c \<noteq> 0 then g_sessions c - 1 else g_sessions c); c1 = c\<lparr>g_sessions := n\<rparr>;
          r1 = (if n = 0 then
                  (let r2 = cb_audio_flush (r\<lparr>rc_core := set_state (\<lambda>st. st\<lparr>cs_connected := False, cs_paired := False, cs_device := []\<rparr>) c1\<rparr>)
                   in r2\<lparr>rc_metadata := airtizen_metadata_reset (rc_metadata r2)\<rparr>)
                else r\<lparr>rc_core := c1\<rparr>)
      in on_core (log_cb now RAOP_LOG_INFO (Some (str ''Client stream disconnected''))) r1)"

definition cb_video_flush :: "'m receiver \<Rightarrow> 'm receiver" where
  "cb_video_flush r = r\<lparr>rc_video := airtizen_video_reset (rc_video r)\<rparr>"

section \<open>Audio\<close>

text \<open>The samples of a chunk, read and written in the machine's little-endian order; a chunk with half a
  sample would leave a byte of the stack buffer unset.\<close>

fun scale_chunk :: "(u16 \<Rightarrow> u16) \<Rightarrow> byte list \<Rightarrow> byte list option" where
  "scale_chunk f [] = Some []"
| "scale_chunk f [a] = None"
| "scale_chunk f (a # b # rest) = do {
     more \<leftarrow> scale_chunk f rest;
     let v = f (push_bit 8 (ucast b) OR ucast a);
     Some (ucast v # ucast (drop_bit 8 v) # more)
   }"

text \<open>The inner loop: offer what is left until the device has taken it all.\<close>

function write_all :: "audio_env \<Rightarrow> byte list \<Rightarrow> byte list \<Rightarrow> bool \<times> byte list" where
  "write_all dev taken left =
     (if left = [] then (True, taken)
      else let rc = dev_write dev taken left in
        if rc \<le> 0 \<or> nat rc > length left then (False, taken)
        else write_all dev (taken @ take (nat rc) left) (drop (nat rc) left))"
  by pat_completeness auto
termination by (relation "measure (\<lambda>(dev, taken, left). length left)") auto

declare write_all.simps [simp del]

text \<open>The outer loop over chunks of 4096 samples.\<close>

function chunk_loop :: "audio_env \<Rightarrow> rat \<Rightarrow> byte list \<Rightarrow> byte list \<Rightarrow> (bool \<times> byte list) option" where
  "chunk_loop dev gain data taken =
     (if data = [] then Some (True, taken)
      else do {
        scaled \<leftarrow> scale_chunk (dev_scale dev gain) (take 8192 data);
        (case write_all dev taken scaled of
           (False, t) \<Rightarrow> Some (False, t)
         | (True, t) \<Rightarrow> chunk_loop dev gain (drop 8192 data) t)
      })"
  by pat_completeness auto
termination by (relation "measure (\<lambda>(dev, gain, data, taken). length data)") auto

declare chunk_loop.simps [simp del]

record pcm_data_struct =
  pcm_data :: "byte list option"
  pcm_sample_rate :: u32
  pcm_channels :: u16
  pcm_bits_per_sample :: u16

definition pcm_valid :: "pcm_data_struct \<Rightarrow> byte list \<Rightarrow> bool" where
  "pcm_valid p data \<longleftrightarrow> pcm_bits_per_sample p = 16 \<and> pcm_channels p \<ge> 1 \<and> pcm_channels p \<le> 2 \<and>
     pcm_sample_rate p \<ge> 8000 \<and> pcm_sample_rate p \<le> 192000 \<and> length data mod (2 * unat (pcm_channels p)) = 0"

text \<open>The receiver and what the device has taken; the mode names the platform's audio state.\<close>

definition cb_audio_process ::
  "audio_env \<Rightarrow> cstring \<Rightarrow> nat \<Rightarrow> pcm_data_struct option \<Rightarrow> cstring option \<Rightarrow> 'm receiver \<Rightarrow> ('m receiver \<times> byte list) option" where
  "cb_audio_process dev mode now data_ptr nm r =
     (case data_ptr of
        None \<Rightarrow> Some (r, [])
      | Some p \<Rightarrow>
          (case pcm_data p of
             None \<Rightarrow> Some (r, [])
           | Some data \<Rightarrow>
               if data = [] then Some (r, [])
               else if \<not> pcm_valid p data then Some (on_core (core_fail now (str ''invalid_pcm_format'')) r, [])
               else if dev_open dev (pcm_sample_rate p) (unat (pcm_channels p)) \<noteq> 0
               then Some (on_core (core_fail now (str ''audio_open_failed'')) r, [])
               else do {
                 (ok, taken) \<leftarrow> chunk_loop dev (g_gain (rc_core r)) data [];
                 Some (if ok
                       then (on_core (set_state (\<lambda>st. st\<lparr>cs_connected := True, cs_device := device_name nm,
                               cs_sample_rate := pcm_sample_rate p, cs_audio_bytes := cs_audio_bytes st + of_nat (length data),
                               cs_audio := fit 32 mode, cs_last_error := []\<rparr>)) r, taken)
                       else (on_core (core_fail now (str ''audio_write_failed'')) r, taken))
               }))"

section \<open>Video and volume\<close>

record h264_decode_struct =
  hd_frame_type :: int
  hd_data :: "byte list option"
  hd_pts :: u64

definition cb_video_process ::
  "'m ffmpeg \<Rightarrow> bool \<Rightarrow> nat \<Rightarrow> h264_decode_struct option \<Rightarrow> cstring option \<Rightarrow> 'm receiver \<Rightarrow> 'm receiver option" where
  "cb_video_process ff alloc now data_ptr nm r =
     (case data_ptr of
        None \<Rightarrow> Some r
      | Some v \<Rightarrow>
          (case hd_data v of
             None \<Rightarrow> Some r
           | Some data \<Rightarrow>
               if data = [] then Some r
               else do {
                 (result, vm) \<leftarrow> (if hd_frame_type v = 0 then airtizen_video_configure alloc (Some data) (rc_video r)
                                  else airtizen_video_frame ff (Some data) (unat (hd_pts v)) (rc_video r));
                 let r1 = r\<lparr>rc_video := vm\<rparr>;
                 let r2 = (if hd_frame_type v = 0 \<and> result = 0
                           then r1\<lparr>rc_photo := airtizen_photo_reset (rc_photo r1), rc_playback := airtizen_playback_stop (rc_playback r1)\<rparr>
                           else r1);
                 let r3 = on_core (set_state (\<lambda>st.
                     let st1 = (if hd_frame_type v \<noteq> 0 then st\<lparr>cs_video_frames := cs_video_frames st + 1\<rparr> else st)
                     in if result < 0 then st1\<lparr>cs_last_error := fit 128 (str ''invalid_video_stream'')\<rparr>
                        else st1\<lparr>cs_connected := True, cs_device := device_name nm\<rparr>)) r2;
                 Some (if result < 0 then on_core (log_cb now RAOP_LOG_ERR (Some (str ''Video input or MP4 packaging failed''))) r3 else r3)
               }))"

definition cb_audio_set_volume :: "audio_env \<Rightarrow> cdouble \<Rightarrow> 'm receiver \<Rightarrow> 'm receiver" where
  "cb_audio_set_volume dev volume r =
     (case volume of
        Fin v0 \<Rightarrow> let v = (if v0 > 0 then 0 else v0)
                 in on_core (\<lambda>c. c\<lparr>g_gain := (if v \<le> -144 then 0 else dev_gain dev (v / 20))\<rparr>) r
      | _ \<Rightarrow> r)"

section \<open>Start and stop\<close>

text \<open>The callbacks as the RAOP server delivers them.\<close>

datatype core_event =
    Log nat "cstring option"
  | MetadataData "byte list option"
  | Coverart bool "byte list option"
  | ProgressTimes u32 u32 u32
  | AudioFormat u32
  | PairingVerified
  | Connected "cstring option"
  | AudioFlush
  | Disconnected
  | VideoFlush
  | AudioProcess "pcm_data_struct option" "cstring option"
  | VideoProcess bool "h264_decode_struct option" "cstring option"
  | SetVolume cdouble

definition deliver :: "'m ffmpeg \<Rightarrow> audio_env \<Rightarrow> cstring \<Rightarrow> nat \<times> core_event \<Rightarrow> 'm receiver \<Rightarrow> 'm receiver option" where
  "deliver ff dev mode e r = (case e of (now, ev) \<Rightarrow> (case ev of
       Log level msg \<Rightarrow> Some (on_core (log_cb now level msg) r)
     | MetadataData d \<Rightarrow> cb_metadata now d r
     | Coverart alloc d \<Rightarrow> Some (cb_artwork now alloc d r)
     | ProgressTimes a b c \<Rightarrow> Some (cb_progress a b c r)
     | AudioFormat ct \<Rightarrow> Some (cb_audio_format now ct r)
     | PairingVerified \<Rightarrow> Some (cb_pairing_verified now r)
     | Connected nm \<Rightarrow> Some (cb_connected now nm r)
     | AudioFlush \<Rightarrow> Some (cb_audio_flush r)
     | Disconnected \<Rightarrow> Some (cb_disconnected now r)
     | VideoFlush \<Rightarrow> Some (cb_video_flush r)
     | AudioProcess d nm \<Rightarrow> map_option fst (cb_audio_process dev mode now d nm r)
     | VideoProcess alloc d nm \<Rightarrow> cb_video_process ff alloc now d nm r
     | SetVolume v \<Rightarrow> Some (cb_audio_set_volume dev v r)))"

fun deliver_all :: "'m ffmpeg \<Rightarrow> audio_env \<Rightarrow> cstring \<Rightarrow> (nat \<times> core_event) list \<Rightarrow> 'm receiver \<Rightarrow> 'm receiver option" where
  "deliver_all ff dev mode [] r = Some r"
| "deliver_all ff dev mode (e # es) r = do { r1 \<leftarrow> deliver ff dev mode e r; deliver_all ff dev mode es r1 }"

text \<open>The RAOP server at start: whether it initialises, its public key, and the result of its start.\<close>

record raop_env =
  raop_init_ok :: bool
  raop_key :: "nat \<Rightarrow> byte"
  raop_start_rc :: int

definition airtizen_core_start :: "raop_env \<Rightarrow> nat \<Rightarrow> 'm receiver \<Rightarrow> int \<times> 'm receiver" where
  "airtizen_core_start raop now r =
     (if g_raop (rc_core r) then (0, r)
      else
        let r1 = on_core (\<lambda>c. c\<lparr>g_state := core_zero\<lparr>cs_audio := fit 32 (str ''idle''), cs_codec := fit 16 (str ''AAC-ELD'')\<rparr>,
                                g_gain := 1, g_sessions := 0\<rparr>) r
        in if \<not> raop_init_ok raop then (-1, on_core (core_fail now (str ''raop_init_failed'')) r1)
           else (case airtizen_mdns_set_public_key (Some (raop_key raop)) (rc_mdns r1) of
             (rc, md) \<Rightarrow>
               let r2 = r1\<lparr>rc_mdns := md\<rparr> in
               if rc \<noteq> 0 then (-1, on_core (core_fail now (str ''discovery_identity_failed'')) r2)
               else if raop_start_rc raop < 0
               then (raop_start_rc raop, on_core (core_fail now (str ''raop_start_failed'')) r2)
               else (0, on_core (\<lambda>c. log_cb now RAOP_LOG_INFO (Some (str ''RAOP listener started''))
                      (set_state (\<lambda>st. st\<lparr>cs_running := True\<rparr>) (c\<lparr>g_raop := True\<rparr>))) r2)))"

text \<open>\<open>late\<close> are the callbacks the server still delivers before its threads are joined.\<close>

definition airtizen_core_stop ::
  "'m ffmpeg \<Rightarrow> audio_env \<Rightarrow> cstring \<Rightarrow> (nat \<times> core_event) list \<Rightarrow> nat \<Rightarrow> 'm receiver \<Rightarrow> 'm receiver option" where
  "airtizen_core_stop ff dev mode late now r = do {
     r1 \<leftarrow> (if g_raop (rc_core r) then
              map_option (on_core (\<lambda>c. c\<lparr>g_raop := False\<rparr>)) (deliver_all ff dev mode late r)
            else Some r);
     let r2 = cb_disconnected now r1;
     let r3 = r2\<lparr>rc_video := airtizen_video_reset (rc_video r2), rc_metadata := airtizen_metadata_reset (rc_metadata r2)\<rparr>;
     Some (on_core (\<lambda>c. log_cb now RAOP_LOG_INFO (Some (str ''RAOP listener stopped''))
             (set_state (\<lambda>st. st\<lparr>cs_running := False\<rparr>) c)) r3)
   }"

definition airtizen_core_snapshot :: "core_module \<Rightarrow> airtizen_core_state" where
  "airtizen_core_snapshot c = g_state c"

text \<open>The loop of \<open>airtizen_core_logs_json\<close>; \<open>out\<close> is what is written, in a buffer of \<open>capacity\<close> bytes.\<close>

fun logs_loop :: "nat \<Rightarrow> bool \<Rightarrow> cstring list \<Rightarrow> cstring \<Rightarrow> cstring option" where
  "logs_loop capacity first [] out = Some out"
| "logs_loop capacity first (l # ls) out = do {
     (n, quoted) \<leftarrow> airtizen_json_quote (LOG_LENGTH * 6 + 3) (Some l);
     if n < 0 \<or> length out + nat n + 3 > capacity then Some out
     else do {
       out1 \<leftarrow> put capacity out (if first then [] else str '','');
       out2 \<leftarrow> put capacity out1 (take (nat n) quoted);
       logs_loop capacity False ls out2
     }
   }"

definition log_lines :: "core_module \<Rightarrow> cstring list" where
  "log_lines c = map (\<lambda>i. g_logs c ! ((g_log_next c + LOG_COUNT - g_log_count c + i) mod LOG_COUNT)) [0..<g_log_count c]"

text \<open>The string left in the buffer; \<open>Some None\<close> when the buffer is too small to be touched.\<close>

definition airtizen_core_logs_json :: "nat \<Rightarrow> core_module \<Rightarrow> cstring option option" where
  "airtizen_core_logs_json capacity c =
     (if capacity < 3 then Some None
      else do {
        out0 \<leftarrow> put capacity [] (str ''['');
        out1 \<leftarrow> logs_loop capacity True (log_lines c) out0;
        out2 \<leftarrow> put capacity out1 (str '']'');
        _ \<leftarrow> put capacity out2 [0];
        Some (Some out2)
      })"

section \<open>The log ring\<close>

definition core_inv :: "core_module \<Rightarrow> bool" where
  "core_inv c \<longleftrightarrow> length (g_logs c) = LOG_COUNT \<and> g_log_next c < LOG_COUNT \<and> g_log_count c \<le> LOG_COUNT \<and>
     list_all (\<lambda>l. length l < LOG_LENGTH) (g_logs c) \<and>
     length (cs_device (g_state c)) < 128 \<and> length (cs_audio (g_state c)) < 32 \<and> length (cs_codec (g_state c)) < 16 \<and>
     length (cs_last_error (g_state c)) < 128"

lemma LOG_COUNT_pos [simp]: "0 < LOG_COUNT"
  by (simp add: LOG_COUNT_def)

lemma log_cb_inv: "core_inv c \<Longrightarrow> core_inv (log_cb now level msg c)"
  by (auto simp: core_inv_def log_cb_def log_entry_def length_fit LOG_LENGTH_def list_all_iff LOG_COUNT_def
      split: option.splits dest!: set_update_subset_insert [THEN subsetD])

lemma log_lines_cb:
  assumes "core_inv c" and "level \<le> RAOP_LOG_INFO"
  shows "log_lines (log_cb now level (Some msg) c) =
    (if length (log_lines c) = LOG_COUNT then tl (log_lines c) else log_lines c) @ [log_entry now level msg]"
proof -
  define n k where "n = g_log_next c" and "k = g_log_count c"
  have b: "n < 32" "k \<le> 32" "length (g_logs c) = 32" using assms by (simp_all add: core_inv_def n_def k_def LOG_COUNT_def)
  let ?e = "log_entry now level msg"
  let ?l = "\<lambda>i. g_logs c ! ((n + 32 - k + i) mod 32)"
  have old: "log_lines c = map ?l [0..<k]" by (simp add: log_lines_def n_def k_def LOG_COUNT_def)
  show ?thesis
  proof (cases "k < 32")
    case True
    then have new: "log_lines (log_cb now level (Some msg) c) =
        map (\<lambda>i. (g_logs c)[n := ?e] ! (((n + 1) mod 32 + 32 - (k + 1) + i) mod 32)) [0..<k + 1]"
      using assms(2) by (simp add: log_lines_def log_cb_def n_def k_def LOG_COUNT_def del: upt_Suc)
    have idx: "((n + 1) mod 32 + 32 - (k + 1) + i) mod 32 = (n + 32 - k + i) mod 32" for i
    proof -
      have "(n + 1) mod 32 + 32 - (k + 1) + i = (n + 1) mod 32 + (31 - k + i)" using True by simp
      then have "((n + 1) mod 32 + 32 - (k + 1) + i) mod 32 = (n + 1 + (31 - k + i)) mod 32" by (simp only: mod_add_left_eq)
      also have "n + 1 + (31 - k + i) = n + 32 - k + i" using True by simp
      finally show ?thesis .
    qed
    have end_i: "(n + 32 - k + k) mod 32 = n" using b True by simp
    have ne: "(n + 32 - k + i) mod 32 \<noteq> n" if "i < k" for i
    proof
      assume "(n + 32 - k + i) mod 32 = n"
      then have "(n + 32 - k + i) mod 32 = (n + 32 - k + k) mod 32" using end_i by simp
      then have "32 dvd (n + 32 - k + k) - (n + 32 - k + i)" using that mod_eq_dvd_iff_nat [of "n + 32 - k + i" "n + 32 - k + k" 32] by simp
      then have "32 dvd k - i" by simp
      then have "32 \<le> k - i" using that by (intro dvd_imp_le) auto
      then show False using True by simp
    qed
    have keep: "map (\<lambda>i. (g_logs c)[n := ?e] ! ((n + 32 - k + i) mod 32)) [0..<k] = map ?l [0..<k]"
    proof (rule map_cong [OF refl])
      fix i assume "i \<in> set [0..<k]"
      then have "n \<noteq> (n + 32 - k + i) mod 32" using ne [of i] by auto
      then show "(g_logs c)[n := ?e] ! ((n + 32 - k + i) mod 32) = ?l i" by (rule nth_list_update_neq)
    qed
    have "(g_logs c)[n := ?e] ! ((n + 32 - k + k) mod 32) = ?e" unfolding end_i using b by simp
    moreover have u: "[0..<k + 1] = [0..<k] @ [k]" by simp
    ultimately have "log_lines (log_cb now level (Some msg) c) = map ?l [0..<k] @ [?e]"
      unfolding new idx u map_append keep by simp
    then show ?thesis using True by (simp add: old LOG_COUNT_def)
  next
    case False
    then have k: "k = 32" using b by simp
    have new: "log_lines (log_cb now level (Some msg) c) = map (\<lambda>i. (g_logs c)[n := ?e] ! (((n + 1) mod 32 + i) mod 32)) [0..<32]"
      using assms(2) k by (simp add: log_lines_def log_cb_def n_def k_def LOG_COUNT_def del: upt_Suc)
    have ne: "(n + 1 + i) mod 32 \<noteq> n" if "i < 31" for i
    proof
      assume "(n + 1 + i) mod 32 = n"
      then have "n mod 32 = (n + 1 + i) mod 32" using b by simp
      then have "32 dvd 1 + i" using mod_eq_dvd_iff_nat [of n "n + 1 + i" 32] by simp
      then have "32 \<le> 1 + i" by (intro dvd_imp_le) auto
      then show False using that by simp
    qed
    have keep: "map (\<lambda>i. (g_logs c)[n := ?e] ! (((n + 1) mod 32 + i) mod 32)) [0..<31] =
        map (\<lambda>i. g_logs c ! ((n + 1 + i) mod 32)) [0..<31]"
    proof (rule map_cong [OF refl])
      fix i assume "i \<in> set [0..<31::nat]"
      then have "n \<noteq> (n + 1 + i) mod 32" using ne [of i] by auto
      then show "(g_logs c)[n := ?e] ! (((n + 1) mod 32 + i) mod 32) = g_logs c ! ((n + 1 + i) mod 32)"
        unfolding mod_add_left_eq by (rule nth_list_update_neq)
    qed
    have "((n + 1) mod 32 + 31) mod 32 = n" unfolding mod_add_left_eq using b by simp
    then have last: "(g_logs c)[n := ?e] ! (((n + 1) mod 32 + 31) mod 32) = ?e" using b by simp
    have u: "[0..<32] = [0..<31] @ [31::nat]" by (simp add: upt_rec)
    have "map (\<lambda>i. (g_logs c)[n := ?e] ! (((n + 1) mod 32 + i) mod 32)) [0..<32] =
        map (\<lambda>i. g_logs c ! ((n + 1 + i) mod 32)) [0..<31] @ [?e]"
      unfolding u map_append keep using last by simp
    moreover have "tl (map ?l [0..<32]) = map (\<lambda>i. g_logs c ! ((n + 1 + i) mod 32)) [0..<31]"
      unfolding k by (rule nth_equalityI) (simp_all add: nth_tl del: upt_Suc)
    ultimately show ?thesis using new by (simp add: old k LOG_COUNT_def del: upt_Suc)
  qed
qed

section \<open>The JSON form of the log\<close>

definition quoted_line :: "cstring \<Rightarrow> cstring" where
  "quoted_line l = snd (the (airtizen_json_quote (LOG_LENGTH * 6 + 3) (Some l)))"

definition joined :: "bool \<Rightarrow> cstring list \<Rightarrow> cstring" where
  "joined first qs = (case qs of [] \<Rightarrow> [] | q # qs' \<Rightarrow> (if first then [] else str '','') @ q @ concat (map (\<lambda>x. str '','' @ x) qs'))"

lemma quoted_line_ok:
  assumes "length l < LOG_LENGTH"
  shows "airtizen_json_quote (LOG_LENGTH * 6 + 3) (Some l) = Some (int (length (quoted_line l)), quoted_line l)"
    "json_value (quoted_line l) = Some (sanitize l)"
proof -
  have "6 * length l + 3 \<le> LOG_LENGTH * 6 + 3" using assms by simp
  from json_quote_fits [OF this] obtain q where
    q: "airtizen_json_quote (LOG_LENGTH * 6 + 3) (Some l) = Some (int (length q), q)" "json_value q = Some (sanitize l)" by blast
  then have "quoted_line l = q" by (simp add: quoted_line_def)
  then show "airtizen_json_quote (LOG_LENGTH * 6 + 3) (Some l) = Some (int (length (quoted_line l)), quoted_line l)"
    "json_value (quoted_line l) = Some (sanitize l)" using q by simp_all
qed

lemma logs_loop_prefix:
  assumes "list_all (\<lambda>l. length l < LOG_LENGTH) ls" and "length out + 2 \<le> capacity"
  shows "\<exists>k. logs_loop capacity first ls out = Some (out @ joined first (map quoted_line (take k ls))) \<and>
    length (out @ joined first (map quoted_line (take k ls))) + 2 \<le> capacity \<and>
    (k = length ls \<or> length (out @ joined first (map quoted_line (take (k + 1) ls))) + 2 + (if first then 1 else 0) > capacity)"
  using assms
proof (induction ls arbitrary: first out)
  case Nil
  then show ?case by (simp add: joined_def)
next
  case (Cons l ls)
  let ?q = "quoted_line l"
  have q: "airtizen_json_quote (LOG_LENGTH * 6 + 3) (Some l) = Some (int (length ?q), ?q)" using Cons.prems quoted_line_ok by simp
  show ?case
  proof (cases "length out + length ?q + 3 > capacity")
    case True
    then have "logs_loop capacity first (l # ls) out = Some out" using q by simp
    then show ?thesis using Cons.prems True by (intro exI [of _ 0]) (auto simp: joined_def)
  next
    case False
    let ?o = "out @ (if first then [] else str '','') @ ?q"
    have step: "logs_loop capacity first (l # ls) out = logs_loop capacity False ls ?o"
      using q False by (simp add: put_def)
    have o: "length ?o + 2 \<le> capacity" using False by simp
    have j: "out @ joined first (map quoted_line (l # xs)) = ?o @ joined False (map quoted_line xs)" for xs
      by (cases xs) (simp_all add: joined_def)
    from Cons.IH [of ?o False] Cons.prems(1) o obtain k where
      k: "logs_loop capacity False ls ?o = Some (?o @ joined False (map quoted_line (take k ls)))"
        "length (?o @ joined False (map quoted_line (take k ls))) + 2 \<le> capacity"
        "k = length ls \<or> length (?o @ joined False (map quoted_line (take (k + 1) ls))) + 2 > capacity" by auto
    have "take (Suc k) (l # ls) = l # take k ls" "take (Suc k + 1) (l # ls) = l # take (k + 1) ls" by simp_all
    then show ?thesis unfolding step using k
      by (intro exI [of _ "Suc k"]) (auto simp only: j list.size add_Suc_right add_0_right)
  qed
qed

section \<open>Audio goes out complete and in order\<close>

lemma scale_chunk_length: "scale_chunk f xs = Some ys \<Longrightarrow> length ys = length xs"
  by (induction f xs arbitrary: ys rule: scale_chunk.induct) (auto simp: bind_eq_Some_conv Let_def)

lemma scale_chunk_even: "even (length xs) \<Longrightarrow> \<exists>ys. scale_chunk f xs = Some ys"
  by (induction f xs rule: scale_chunk.induct) (auto simp: Let_def)

lemma scale_chunk_append:
  "even (length xs) \<Longrightarrow> scale_chunk f (xs @ zs) = do { a \<leftarrow> scale_chunk f xs; b \<leftarrow> scale_chunk f zs; Some (a @ b) }"
proof (induction f xs rule: scale_chunk.induct)
  case (1 f)
  then show ?case by (cases "scale_chunk f zs") auto
next
  case (3 f a b rest)
  then show ?case by (cases "scale_chunk f rest"; cases "scale_chunk f zs") (auto simp: Let_def)
qed simp

text \<open>A device that takes something of every offer, and no more than was offered.\<close>

definition dev_ok :: "audio_env \<Rightarrow> bool" where
  "dev_ok dev \<longleftrightarrow> (\<forall>taken left. left \<noteq> [] \<longrightarrow> 0 < dev_write dev taken left \<and> dev_write dev taken left \<le> int (length left))"

lemma write_all_prefix:
  "\<exists>ok n. write_all dev taken left = (ok, taken @ take n left) \<and> (ok \<longrightarrow> take n left = left) \<and> (dev_ok dev \<longrightarrow> ok)"
proof (induction dev taken left rule: write_all.induct)
  case (1 dev taken left)
  let ?rc = "dev_write dev taken left"
  consider "left = []" | "left \<noteq> []" "?rc \<le> 0 \<or> nat ?rc > length left" | "left \<noteq> []" "\<not> (?rc \<le> 0 \<or> nat ?rc > length left)" by blast
  then show ?case
  proof cases
    case 1
    then show ?thesis by (subst write_all.simps) auto
  next
    case 2
    then have "write_all dev taken left = (False, taken @ take 0 left)" by (subst write_all.simps) (simp add: Let_def)
    moreover have "\<not> dev_ok dev"
    proof
      assume "dev_ok dev"
      then have "0 < ?rc \<and> ?rc \<le> int (length left)" using 2(1) by (simp add: dev_ok_def)
      then show False using 2(2) by auto
    qed
    ultimately show ?thesis by blast
  next
    case 3
    from "1" [OF 3(1) refl 3(2)] obtain ok n where
      n: "write_all dev (taken @ take (nat ?rc) left) (drop (nat ?rc) left) = (ok, (taken @ take (nat ?rc) left) @ take n (drop (nat ?rc) left))"
      "ok \<longrightarrow> take n (drop (nat ?rc) left) = drop (nat ?rc) left" "dev_ok dev \<longrightarrow> ok" by blast
    have "take (nat ?rc) left @ take n (drop (nat ?rc) left) = take (nat ?rc + n) left" by (simp add: take_add)
    moreover have "ok \<longrightarrow> take (nat ?rc + n) left = left" using n(2) by (metis append_take_drop_id take_add)
    moreover have "write_all dev taken left = write_all dev (taken @ take (nat ?rc) left) (drop (nat ?rc) left)"
      using 3 by (subst write_all.simps) (simp add: Let_def)
    ultimately show ?thesis using n by (intro exI [of _ ok] exI [of _ "nat ?rc + n"]) simp
  qed
qed

lemma chunk_loop_prefix:
  assumes "even (length data)"
  shows "\<exists>ok n scaled. chunk_loop dev gain data taken = Some (ok, taken @ take n scaled) \<and>
    scale_chunk (dev_scale dev gain) data = Some scaled \<and> (ok \<longrightarrow> take n scaled = scaled) \<and> (dev_ok dev \<longrightarrow> ok)"
  using assms
proof (induction dev gain data taken rule: chunk_loop.induct)
  case (1 dev gain data taken)
  show ?case
  proof (cases "data = []")
    case True then show ?thesis by (subst chunk_loop.simps) auto
  next
    case False
    let ?f = "dev_scale dev gain"
    have e: "even (length (take 8192 data))" "even (length (drop 8192 data))" using "1.prems" by (auto simp: min_def)
    obtain a where a: "scale_chunk ?f (take 8192 data) = Some a" using scale_chunk_even [OF e(1)] by blast
    obtain b where b: "scale_chunk ?f (drop 8192 data) = Some b" using scale_chunk_even [OF e(2)] by blast
    have all: "scale_chunk ?f data = Some (a @ b)"
      using scale_chunk_append [OF e(1), of ?f "drop 8192 data"] a b by simp
    obtain ok n where w: "write_all dev taken a = (ok, taken @ take n a)" "ok \<longrightarrow> take n a = a" "dev_ok dev \<longrightarrow> ok"
      using write_all_prefix [of dev taken a] by blast
    show ?thesis
    proof (cases ok)
      case False
      then have "chunk_loop dev gain data taken = Some (False, taken @ take n a)"
        using \<open>data \<noteq> []\<close> a w by (subst chunk_loop.simps) simp
      moreover have "take n a = take (min n (length a)) (a @ b)" by (simp add: min_def)
      ultimately show ?thesis using all w False by metis
    next
      case True
      then have step: "chunk_loop dev gain data taken = chunk_loop dev gain (drop 8192 data) (taken @ a)"
        using \<open>data \<noteq> []\<close> a w by (subst chunk_loop.simps) simp
      have w': "write_all dev taken a = (True, taken @ a)" using w True by simp
      have "\<exists>ok n scaled. chunk_loop dev gain (drop 8192 data) (taken @ a) = Some (ok, (taken @ a) @ take n scaled) \<and>
          scale_chunk ?f (drop 8192 data) = Some scaled \<and> (ok \<longrightarrow> take n scaled = scaled) \<and> (dev_ok dev \<longrightarrow> ok)"
        by (rule "1.IH" [OF False a w' [symmetric] refl e(2)])
      then obtain ok' m where "chunk_loop dev gain (drop 8192 data) (taken @ a) = Some (ok', (taken @ a) @ take m b)"
        "ok' \<longrightarrow> take m b = b" "dev_ok dev \<longrightarrow> ok'" using b by auto
      then show ?thesis using step all by (intro exI [of _ ok'] exI [of _ "length a + m"] exI [of _ "a @ b"]) simp
    qed
  qed
qed

lemma pcm_valid_even: "pcm_valid p data \<Longrightarrow> even (length data)"
  by (metis dvd_trans dvd_triv_left mod_0_imp_dvd pcm_valid_def)

section \<open>The receiver invariant\<close>

definition receiver_inv :: "'m receiver \<Rightarrow> bool" where
  "receiver_inv r \<longleftrightarrow> core_inv (rc_core r) \<and> metadata_inv (rc_metadata r) \<and> video_inv (rc_video r) \<and> photo_inv (rc_photo r) \<and>
     playback_inv (rc_playback r) \<and> mdns_inv (rc_mdns r)"

lemma core_init_inv: "core_inv core_init"
  by (simp add: core_inv_def core_init_def core_zero_def LOG_COUNT_def LOG_LENGTH_def list_all_iff)

lemma receiver_init_inv: "receiver_inv receiver_init"
  using core_init_inv metadata.init_inv video.init_inv photo.init_inv playback.init_inv mdns.init_inv
  by (simp add: receiver_inv_def receiver_init_def)

lemma on_core_inv: "receiver_inv r \<Longrightarrow> core_inv (f (rc_core r)) \<Longrightarrow> receiver_inv (on_core f r)"
  by (simp add: receiver_inv_def on_core_def)

lemma set_state_inv:
  "core_inv c \<Longrightarrow> length (cs_device (f (g_state c))) < 128 \<Longrightarrow> length (cs_audio (f (g_state c))) < 32 \<Longrightarrow>
   length (cs_codec (f (g_state c))) < 16 \<Longrightarrow> length (cs_last_error (f (g_state c))) < 128 \<Longrightarrow> core_inv (set_state f c)"
  by (simp add: core_inv_def set_state_def)

lemma core_inv_lengths:
  "core_inv c \<Longrightarrow> length (cs_device (g_state c)) < 128" "core_inv c \<Longrightarrow> length (cs_audio (g_state c)) < 32"
  "core_inv c \<Longrightarrow> length (cs_codec (g_state c)) < 16" "core_inv c \<Longrightarrow> length (cs_last_error (g_state c)) < 128"
  by (simp_all add: core_inv_def)

lemma core_inv_other:
  "core_inv c \<Longrightarrow> core_inv (c\<lparr>g_sessions := n\<rparr>)" "core_inv c \<Longrightarrow> core_inv (c\<lparr>g_gain := q\<rparr>)" "core_inv c \<Longrightarrow> core_inv (c\<lparr>g_raop := b\<rparr>)"
  by (simp_all add: core_inv_def)

lemmas core_intros = on_core_inv log_cb_inv set_state_inv core_inv_other

lemma length_device_name: "length (device_name nm) < 128"
  by (simp add: device_name_def length_fit)

lemma core_fail_inv: "core_inv c \<Longrightarrow> core_inv (core_fail now e c)"
  unfolding core_fail_def by (intro core_intros) (simp_all add: core_inv_lengths length_fit)

lemma receiver_parts:
  "receiver_inv r \<Longrightarrow> core_inv (rc_core r)" "receiver_inv r \<Longrightarrow> metadata_inv (rc_metadata r)" "receiver_inv r \<Longrightarrow> video_inv (rc_video r)"
  "receiver_inv r \<Longrightarrow> photo_inv (rc_photo r)" "receiver_inv r \<Longrightarrow> playback_inv (rc_playback r)" "receiver_inv r \<Longrightarrow> mdns_inv (rc_mdns r)"
  by (simp_all add: receiver_inv_def)

lemma receiver_updates:
  "receiver_inv r \<Longrightarrow> metadata_inv m \<Longrightarrow> receiver_inv (r\<lparr>rc_metadata := m\<rparr>)"
  "receiver_inv r \<Longrightarrow> video_inv v \<Longrightarrow> receiver_inv (r\<lparr>rc_video := v\<rparr>)"
  "receiver_inv r \<Longrightarrow> photo_inv p \<Longrightarrow> receiver_inv (r\<lparr>rc_photo := p\<rparr>)"
  "receiver_inv r \<Longrightarrow> playback_inv b \<Longrightarrow> receiver_inv (r\<lparr>rc_playback := b\<rparr>)"
  "receiver_inv r \<Longrightarrow> mdns_inv d \<Longrightarrow> receiver_inv (r\<lparr>rc_mdns := d\<rparr>)"
  "receiver_inv r \<Longrightarrow> core_inv c \<Longrightarrow> receiver_inv (r\<lparr>rc_core := c\<rparr>)"
  by (simp_all add: receiver_inv_def)

text \<open>What each component promises of the operations the core calls.\<close>

lemma metadata_ops_inv:
  "metadata_inv m \<Longrightarrow> metadata_inv (snd (airtizen_metadata_artwork alloc m d))"
  "metadata_inv m \<Longrightarrow> metadata_inv (airtizen_metadata_progress m a b c)"
  "metadata_inv m \<Longrightarrow> metadata_inv (airtizen_metadata_reset m)"
  using metadata.step_inv [of m "Metadata.Artwork alloc d"] metadata.step_inv [of m "Metadata.Progress a b c"]
    metadata.step_inv [of m "Metadata.Reset"] by (simp_all add: metadata_step_def)

lemma metadata_parse_inv: "metadata_inv m \<Longrightarrow> \<exists>rc m'. airtizen_metadata_parse m d = Some (rc, m') \<and> metadata_inv m'"
  using metadata.step_inv [of m "Metadata.Parse d"] metadata_parse_cases [of m d] by (auto simp: metadata_step_def)

lemma video_reset_inv: "video_inv v \<Longrightarrow> video_inv (airtizen_video_reset v)"
  using video.step_inv [of v undefined "Video.Reset"] by (simp add: video_step_def)

lemma photo_reset_inv: "photo_inv p \<Longrightarrow> photo_inv (airtizen_photo_reset p)"
  using photo.step_inv [of p "Photo.Reset"] by (simp add: photo_step_def)

lemma playback_stop_inv: "playback_inv b \<Longrightarrow> playback_inv (airtizen_playback_stop b)"
  using playback.step_inv [of b "Playback.Stop"] by (simp add: playback_step_def)

lemma cb_disconnected_inv:
  assumes "receiver_inv r"
  shows "receiver_inv (cb_disconnected now r)"
proof -
  have c: "core_inv (rc_core r)" using assms by (rule receiver_parts)
  define c1 where "c1 = (rc_core r)\<lparr>g_sessions := (if g_sessions (rc_core r) \<noteq> 0 then g_sessions (rc_core r) - 1 else g_sessions (rc_core r))\<rparr>"
  have c1: "core_inv c1" unfolding c1_def by (intro core_intros c)
  let ?c2 = "set_state (\<lambda>st. st\<lparr>cs_connected := False, cs_paired := False, cs_device := []\<rparr>) c1"
  have c2: "core_inv ?c2" by (intro core_intros c1) (simp_all add: core_inv_lengths [OF c1])
  let ?r2 = "cb_audio_flush (r\<lparr>rc_core := ?c2\<rparr>)"
  have "receiver_inv ?r2" unfolding cb_audio_flush_def
    by (intro core_intros receiver_updates(6) assms c2) (simp_all add: c2 core_inv_lengths [OF c2] length_fit)
  then have "receiver_inv (?r2\<lparr>rc_metadata := airtizen_metadata_reset (rc_metadata ?r2)\<rparr>)" "receiver_inv (r\<lparr>rc_core := c1\<rparr>)"
    by (intro receiver_updates metadata_ops_inv receiver_parts assms c1; assumption)+
  then have "receiver_inv (if P then ?r2\<lparr>rc_metadata := airtizen_metadata_reset (rc_metadata ?r2)\<rparr> else r\<lparr>rc_core := c1\<rparr>)" for P
    by simp
  then show ?thesis unfolding cb_disconnected_def Let_def c1_def [symmetric]
    by (intro on_core_inv log_cb_inv receiver_parts(1))
qed

lemma cb_video_process_inv:
  assumes inv: "receiver_inv r"
  shows "\<exists>r'. cb_video_process ff alloc now d nm r = Some r' \<and> receiver_inv r'"
proof (cases "\<exists>v data. d = Some v \<and> hd_data v = Some data \<and> data \<noteq> []")
  case False
  then show ?thesis using inv by (auto simp: cb_video_process_def split: option.splits)
next
  case True
  then obtain v data where v: "d = Some v" "hd_data v = Some data" "data \<noteq> []" by blast
  let ?call = "if hd_frame_type v = 0 then airtizen_video_configure alloc (Some data) (rc_video r)
     else airtizen_video_frame ff (Some data) (unat (hd_pts v)) (rc_video r)"
  have "\<exists>result vm. ?call = Some (result, vm) \<and> video_inv vm"
    using video_configure_total [OF receiver_parts(3) [OF inv], of alloc "Some data"]
      video_frame_total [OF receiver_parts(3) [OF inv], of ff "Some data" "unat (hd_pts v)"] by simp
  then obtain result vm where call: "?call = Some (result, vm)" and vm: "video_inv vm" by blast
  define r2 where "r2 = (if hd_frame_type v = 0 \<and> result = 0
     then r\<lparr>rc_video := vm, rc_photo := airtizen_photo_reset (rc_photo r), rc_playback := airtizen_playback_stop (rc_playback r)\<rparr>
     else r\<lparr>rc_video := vm\<rparr>)"
  have r2: "receiver_inv r2" unfolding r2_def
    using inv vm photo_reset_inv [OF receiver_parts(4) [OF inv]] playback_stop_inv [OF receiver_parts(5) [OF inv]]
    by (simp add: receiver_inv_def)
  define f where "f = (\<lambda>st::airtizen_core_state. let st1 = (if hd_frame_type v \<noteq> 0 then st\<lparr>cs_video_frames := cs_video_frames st + 1\<rparr> else st)
     in if result < 0 then st1\<lparr>cs_last_error := fit 128 (str ''invalid_video_stream'')\<rparr>
        else st1\<lparr>cs_connected := True, cs_device := device_name nm\<rparr>)"
  have "core_inv (set_state f (rc_core r2))"
    by (intro set_state_inv receiver_parts(1) [OF r2])
      (use core_inv_lengths [OF receiver_parts(1) [OF r2]] in \<open>simp_all add: f_def Let_def length_device_name length_fit\<close>)
  then have r3: "receiver_inv (on_core (set_state f) r2)" by (rule on_core_inv [OF r2])
  have "receiver_inv (on_core (log_cb now RAOP_LOG_ERR m) (on_core (set_state f) r2))" for m
    by (rule on_core_inv [OF r3]) (rule log_cb_inv [OF receiver_parts(1) [OF r3]])
  moreover have "cb_video_process ff alloc now d nm r =
      Some (if result < 0 then on_core (log_cb now RAOP_LOG_ERR (Some (str ''Video input or MP4 packaging failed''))) (on_core (set_state f) r2)
            else on_core (set_state f) r2)"
    unfolding cb_video_process_def r2_def f_def by (simp add: v call Let_def)
  ultimately show ?thesis using r3 by auto
qed

lemma cb_audio_process_inv:
  assumes inv: "receiver_inv r"
  shows "\<exists>r' t. cb_audio_process dev mode now d nm r = Some (r', t) \<and> receiver_inv r'"
proof -
  have c: "core_inv (rc_core r)" by (rule receiver_parts(1) [OF inv])
  have fail: "receiver_inv (on_core (core_fail now e) r)" for e by (intro on_core_inv inv core_fail_inv c)
  have ok: "receiver_inv (on_core (set_state (\<lambda>st. st\<lparr>cs_connected := True, cs_device := device_name nm,
      cs_sample_rate := a, cs_audio_bytes := cs_audio_bytes st + b, cs_audio := fit 32 mode, cs_last_error := []\<rparr>)) r)" for a b
    by (intro on_core_inv inv set_state_inv c) (simp_all add: length_device_name length_fit core_inv_lengths [OF c])
  have loop: "\<exists>b t. chunk_loop dev (g_gain (rc_core r)) data [] = Some (b, t)" if "pcm_valid p data" for p data
    using chunk_loop_prefix [OF pcm_valid_even [OF that], of dev "g_gain (rc_core r)" "[]"] by auto
  show ?thesis using inv fail ok loop
    by (force simp: cb_audio_process_def split: option.split)
qed

lemma deliver_inv:
  assumes inv: "receiver_inv r"
  shows "\<exists>r'. deliver ff dev mode e r = Some r' \<and> receiver_inv r'"
proof -
  obtain now ev where e: "e = (now, ev)" by (cases e)
  have c: "core_inv (rc_core r)" by (rule receiver_parts(1) [OF inv])
  note len = core_inv_lengths [OF c] length_device_name length_fit
  show ?thesis
  proof (cases ev)
    case (Log level msg)
    then show ?thesis by (auto simp: deliver_def e intro!: core_intros inv c)
  next
    case (MetadataData d)
    obtain rc m where m: "airtizen_metadata_parse (rc_metadata r) d = Some (rc, m)" "metadata_inv m"
      using metadata_parse_inv [OF receiver_parts(2) [OF inv]] by blast
    have "receiver_inv (r\<lparr>rc_metadata := m\<rparr>)" by (intro receiver_updates inv m)
    moreover from this have "receiver_inv (on_core (log_cb now l t) (r\<lparr>rc_metadata := m\<rparr>))" for l t
      by (intro on_core_inv log_cb_inv receiver_parts(1))
    ultimately show ?thesis using inv m(1) MetadataData by (auto simp: deliver_def e cb_metadata_def Let_def)
  next
    case (Coverart alloc d)
    obtain rc m where m: "airtizen_metadata_artwork alloc (rc_metadata r) d = (rc, m)" by fastforce
    then have "metadata_inv m" using metadata_ops_inv(1) [OF receiver_parts(2) [OF inv], of alloc d] by simp
    then have "receiver_inv (r\<lparr>rc_metadata := m\<rparr>)" by (intro receiver_updates inv)
    moreover from this have "receiver_inv (on_core (log_cb now l t) (r\<lparr>rc_metadata := m\<rparr>))" for l t
      by (intro on_core_inv log_cb_inv receiver_parts(1))
    ultimately show ?thesis using inv m Coverart by (auto simp: deliver_def e cb_artwork_def Let_def)
  next
    case (ProgressTimes a b d)
    then show ?thesis using inv by (auto simp: deliver_def e cb_progress_def intro!: receiver_updates metadata_ops_inv receiver_parts)
  next
    case (AudioFormat ct)
    then show ?thesis by (auto simp: deliver_def e cb_audio_format_def len intro!: core_intros inv c)
  next
    case PairingVerified
    then show ?thesis by (auto simp: deliver_def e cb_pairing_verified_def len intro!: core_intros inv c)
  next
    case (Connected nm)
    then show ?thesis by (auto simp: deliver_def e cb_connected_def len intro!: core_intros inv c)
  next
    case AudioFlush
    then show ?thesis by (auto simp: deliver_def e cb_audio_flush_def len intro!: core_intros inv c)
  next
    case Disconnected
    then show ?thesis using cb_disconnected_inv [OF inv] by (simp add: deliver_def e)
  next
    case VideoFlush
    then show ?thesis using video_reset_inv [OF receiver_parts(3) [OF inv]] inv
      by (simp add: deliver_def e cb_video_flush_def receiver_inv_def)
  next
    case (AudioProcess d nm)
    then show ?thesis using cb_audio_process_inv [OF inv, of dev mode now d nm] by (auto simp: deliver_def e)
  next
    case (VideoProcess alloc d nm)
    then show ?thesis using cb_video_process_inv [OF inv] by (simp add: deliver_def e)
  next
    case (SetVolume v)
    then show ?thesis using inv c
      by (cases v) (auto simp: deliver_def e cb_audio_set_volume_def Let_def intro!: core_intros)
  qed
qed

lemma deliver_all_inv: "receiver_inv r \<Longrightarrow> \<exists>r'. deliver_all ff dev mode es r = Some r' \<and> receiver_inv r'"
proof (induction es arbitrary: r)
  case (Cons e es)
  then show ?case using deliver_inv [OF Cons.prems, of ff dev mode e] by auto
qed simp

lemma core_start_inv:
  assumes inv: "receiver_inv r"
  shows "receiver_inv (snd (airtizen_core_start raop now r))"
proof (cases "g_raop (rc_core r)")
  case True then show ?thesis using inv by (simp add: airtizen_core_start_def)
next
  case False
  define r1 where "r1 = on_core (\<lambda>c. c\<lparr>g_state := core_zero\<lparr>cs_audio := fit 32 (str ''idle''), cs_codec := fit 16 (str ''AAC-ELD'')\<rparr>,
     g_gain := 1, g_sessions := 0\<rparr>) r"
  have r1: "receiver_inv r1" unfolding r1_def
    by (intro on_core_inv inv) (use receiver_parts(1) [OF inv] in \<open>simp add: core_inv_def core_zero_def length_fit\<close>)
  obtain rc md where k: "airtizen_mdns_set_public_key (Some (raop_key raop)) (rc_mdns r1) = (rc, md)" by fastforce
  have "mdns_inv md" using mdns.step_inv [OF receiver_parts(6) [OF r1], of "SetKey (Some (raop_key raop))"] k by (simp add: mdns_step_def)
  then have r2: "receiver_inv (r1\<lparr>rc_mdns := md\<rparr>)" by (intro receiver_updates r1)
  have fail: "receiver_inv (on_core (core_fail now e) q)" if "receiver_inv q" for e and q :: "'a receiver"
    by (intro on_core_inv that core_fail_inv receiver_parts(1))
  have upd: "core_inv (log_cb now RAOP_LOG_INFO m (set_state (\<lambda>st. st\<lparr>cs_running := True\<rparr>) (c\<lparr>g_raop := True\<rparr>)))" if "core_inv c" for m c
    by (intro log_cb_inv set_state_inv core_inv_other that) (use core_inv_lengths [OF that] in simp_all)
  have "receiver_inv (on_core (\<lambda>c. log_cb now RAOP_LOG_INFO m (set_state (\<lambda>st. st\<lparr>cs_running := True\<rparr>) (c\<lparr>g_raop := True\<rparr>))) (r1\<lparr>rc_mdns := md\<rparr>))" for m
    by (rule on_core_inv [OF r2]) (rule upd [OF receiver_parts(1) [OF r2]])
  then show ?thesis using False fail [OF r1] fail [OF r2] k
    by (simp add: airtizen_core_start_def r1_def [symmetric] Let_def)
qed

lemma core_stop_inv:
  assumes inv: "receiver_inv r"
  shows "\<exists>r'. airtizen_core_stop ff dev mode late now r = Some r' \<and> receiver_inv r'"
proof -
  have "\<exists>r1. (if g_raop (rc_core r) then map_option (on_core (\<lambda>c. c\<lparr>g_raop := False\<rparr>)) (deliver_all ff dev mode late r) else Some r) = Some r1 \<and>
      receiver_inv r1"
  proof (cases "g_raop (rc_core r)")
    case True
    obtain r0 where r0: "deliver_all ff dev mode late r = Some r0" "receiver_inv r0" using deliver_all_inv [OF inv] by blast
    have "receiver_inv (on_core (\<lambda>c. c\<lparr>g_raop := False\<rparr>) r0)" by (intro on_core_inv r0 core_inv_other receiver_parts(1))
    then show ?thesis using True r0 by simp
  qed (use inv in simp)
  then obtain r1 where r1: "(if g_raop (rc_core r) then map_option (on_core (\<lambda>c. c\<lparr>g_raop := False\<rparr>)) (deliver_all ff dev mode late r)
      else Some r) = Some r1" "receiver_inv r1" by blast
  let ?r2 = "cb_disconnected now r1"
  let ?r3 = "?r2\<lparr>rc_video := airtizen_video_reset (rc_video ?r2), rc_metadata := airtizen_metadata_reset (rc_metadata ?r2)\<rparr>"
  have r2: "receiver_inv ?r2" by (rule cb_disconnected_inv [OF r1(2)])
  have r3: "receiver_inv ?r3"
    using r2 video_reset_inv [OF receiver_parts(3) [OF r2]] metadata_ops_inv(3) [OF receiver_parts(2) [OF r2]]
    by (simp add: receiver_inv_def)
  have upd: "core_inv (log_cb now RAOP_LOG_INFO m (set_state (\<lambda>st. st\<lparr>cs_running := False\<rparr>) (rc_core ?r3)))" for m
    by (intro log_cb_inv set_state_inv receiver_parts(1) r3) (use core_inv_lengths [OF receiver_parts(1) [OF r3]] in simp_all)
  have "receiver_inv (on_core (\<lambda>c. log_cb now RAOP_LOG_INFO m (set_state (\<lambda>st. st\<lparr>cs_running := False\<rparr>) c)) ?r3)" for m
    by (rule on_core_inv [OF r3]) (rule upd)
  then show ?thesis using r1(1) by (simp add: airtizen_core_stop_def Let_def)
qed

lemma not_Some_pair: "\<forall>a b. x \<noteq> Some (a, b) \<Longrightarrow> x = None"
  by (cases x) auto

section \<open>Histories of the receiver\<close>

text \<open>The steps of the receiver: the callbacks, start and stop of the core, and the operations other
  threads (the RAOP handlers, the control server) perform on the components.\<close>

datatype receiver_op =
    Callback nat core_event
  | CoreStart raop_env nat
  | CoreStop "(nat \<times> core_event) list" nat
  | PhotoOp photo_op
  | PlaybackOp playback_op
  | MdnsOp mdns_op

definition receiver_step :: "'m ffmpeg \<Rightarrow> audio_env \<Rightarrow> cstring \<Rightarrow> receiver_op \<Rightarrow> 'm receiver \<Rightarrow> 'm receiver" where
  "receiver_step ff dev mode op r = (case op of
       Callback now ev \<Rightarrow> the (deliver ff dev mode (now, ev) r)
     | CoreStart raop now \<Rightarrow> snd (airtizen_core_start raop now r)
     | CoreStop late now \<Rightarrow> the (airtizen_core_stop ff dev mode late now r)
     | PhotoOp o' \<Rightarrow> r\<lparr>rc_photo := photo_step o' (rc_photo r)\<rparr>
     | PlaybackOp o' \<Rightarrow> r\<lparr>rc_playback := playback_step o' (rc_playback r)\<rparr>
     | MdnsOp o' \<Rightarrow> r\<lparr>rc_mdns := mdns_step o' (rc_mdns r)\<rparr>)"

lemma receiver_step_inv:
  assumes inv: "receiver_inv r"
  shows "receiver_inv (receiver_step ff dev mode op r)"
proof (cases op)
  case (Callback now ev)
  then show ?thesis using deliver_inv [OF inv, of ff dev mode "(now, ev)"] by (auto simp: receiver_step_def)
next
  case (CoreStart raop now)
  then show ?thesis using core_start_inv [OF inv] by (simp add: receiver_step_def)
next
  case (CoreStop late now)
  then show ?thesis using core_stop_inv [OF inv, of ff dev mode late now] by (auto simp: receiver_step_def)
next
  case (PhotoOp o')
  then show ?thesis using inv photo.step_inv [OF receiver_parts(4) [OF inv]] by (simp add: receiver_step_def receiver_updates)
next
  case (PlaybackOp o')
  then show ?thesis using inv playback.step_inv [OF receiver_parts(5) [OF inv]] by (simp add: receiver_step_def receiver_updates)
next
  case (MdnsOp o')
  then show ?thesis using inv mdns.step_inv [OF receiver_parts(6) [OF inv]] by (simp add: receiver_step_def receiver_updates)
qed

interpretation receiver: guarded_component receiver_init "receiver_step ff dev mode" receiver_inv
  by unfold_locales (rule receiver_init_inv, rule receiver_step_inv)

lemma logs_json_cases:
  assumes "core_inv c" and "3 \<le> capacity"
  shows "\<exists>k out. airtizen_core_logs_json capacity c = Some (Some out) \<and> length out + 1 \<le> capacity \<and>
    out = str ''['' @ joined True (map quoted_line (take k (log_lines c))) @ str '']'' \<and>
    (k = length (log_lines c) \<or>
      length (str ''['' @ joined True (map quoted_line (take (k + 1) (log_lines c))) @ str '']'') + 2 > capacity) \<and>
    (\<forall>l \<in> set (log_lines c). json_value (quoted_line l) = Some (sanitize l))"
proof -
  have "g_logs c ! (i mod LOG_COUNT) \<in> set (g_logs c)" for i using assms(1) by (simp add: core_inv_def)
  then have ls: "list_all (\<lambda>l. length l < LOG_LENGTH) (log_lines c)"
    using assms(1) by (auto simp: core_inv_def log_lines_def list_all_iff)
  from logs_loop_prefix [OF this, of "str ''[''" capacity True] assms(2) obtain k where
    k: "logs_loop capacity True (log_lines c) (str ''['') = Some (str ''['' @ joined True (map quoted_line (take k (log_lines c))))"
      "length (str ''['' @ joined True (map quoted_line (take k (log_lines c)))) + 2 \<le> capacity"
      "k = length (log_lines c) \<or> length (str ''['' @ joined True (map quoted_line (take (k + 1) (log_lines c)))) + 3 > capacity" by auto
  have "airtizen_core_logs_json capacity c = Some (Some (str ''['' @ joined True (map quoted_line (take k (log_lines c))) @ str '']''))"
    using assms(2) k(1,2) by (simp add: airtizen_core_logs_json_def put_def)
  then show ?thesis using k(2,3) ls quoted_line_ok(2)
    by (intro exI [of _ k] exI [of _ "str ''['' @ joined True (map quoted_line (take k (log_lines c))) @ str '']''"]) (auto simp: list_all_iff)
qed

section \<open>Properties\<close>


text \<open>C10: for a valid PCM packet and an open device, what the device has taken when
  the callback returns is an initial part of the scaled sample stream, of the packet's length; for a
  device that takes something of every offer it is all of it, however the writes are split, and the
  byte count grows by the packet's length.\<close>

theorem core_audio_complete:
  assumes "pcm_data p = Some data" and "data \<noteq> []" and "pcm_valid p data"
    and "dev_open dev (pcm_sample_rate p) (unat (pcm_channels p)) = 0"
  shows "\<exists>r' taken scaled. cb_audio_process dev mode now (Some p) nm r = Some (r', taken) \<and>
    scale_chunk (dev_scale dev (g_gain (rc_core r))) data = Some scaled \<and> length scaled = length data \<and>
    taken = take (length taken) scaled \<and>
    (dev_ok dev \<longrightarrow> taken = scaled \<and>
      cs_audio_bytes (g_state (rc_core r')) = cs_audio_bytes (g_state (rc_core r)) + of_nat (length data))"
proof -
  from chunk_loop_prefix [OF pcm_valid_even [OF assms(3)], of dev "g_gain (rc_core r)" "[]"]
  obtain ok n scaled where l: "chunk_loop dev (g_gain (rc_core r)) data [] = Some (ok, take n scaled)"
    "scale_chunk (dev_scale dev (g_gain (rc_core r))) data = Some scaled" "ok \<longrightarrow> take n scaled = scaled" "dev_ok dev \<longrightarrow> ok" by auto
  show ?thesis using assms l scale_chunk_length [OF l(2)]
    by (cases ok) (auto simp: cb_audio_process_def on_core_def set_state_def min_def)
qed

text \<open>A device that takes at most three bytes at a time.\<close>

definition sample_dev :: audio_env where
  "sample_dev = \<lparr>dev_open = (\<lambda>_ _. 0), dev_write = (\<lambda>_ left. min 3 (int (length left))), dev_scale = (\<lambda>_ x. x), dev_gain = (\<lambda>_. 1)\<rparr>"

theorem core_audio_complete_witness:
  "\<exists>r'. cb_audio_process sample_dev (str ''playing'') 7
      (Some \<lparr>pcm_data = Some [1, 2, 3, 4, 5, 6, 7, 8], pcm_sample_rate = 44100, pcm_channels = 2, pcm_bits_per_sample = 16\<rparr>) None
      (receiver_init :: unit receiver) = Some (r', [1, 2, 3, 4, 5, 6, 7, 8])"
proof -
  let ?p = "\<lparr>pcm_data = Some [1, 2, 3, 4, 5, 6, 7, 8], pcm_sample_rate = 44100, pcm_channels = 2, pcm_bits_per_sample = 16\<rparr>"
  have "dev_ok sample_dev" by (auto simp: dev_ok_def sample_dev_def)
  moreover have "pcm_valid ?p [1, 2, 3, 4, 5, 6, 7, 8]" by (simp add: pcm_valid_def)
  moreover have "scale_chunk (dev_scale sample_dev g) [1, 2, 3, 4, 5, 6, 7, 8] = Some [1, 2, 3, 4, 5, 6, 7, 8]" for g
    unfolding sample_dev_def by (simp add: Let_def)
  moreover have "dev_open sample_dev 44100 2 = 0" by (simp add: sample_dev_def)
  ultimately show ?thesis
    using core_audio_complete [of ?p "[1, 2, 3, 4, 5, 6, 7, 8]" sample_dev "str ''playing''" 7 None "receiver_init :: unit receiver"] by auto
qed

text \<open>The log ring keeps the most recent entries: a logged message becomes the last
  line, every other line keeps its place, and once 32 lines are held the oldest one goes. A message
  above the informational level changes nothing.\<close>

theorem core_log_recent:
  assumes "core_inv c"
  shows "log_lines (log_cb now level (Some msg) c) =
    (if level > RAOP_LOG_INFO then log_lines c
     else (if length (log_lines c) = 32 then tl (log_lines c) else log_lines c) @ [log_entry now level msg])"
  using log_lines_cb [OF assms, of level now msg] by (auto simp: LOG_COUNT_def log_cb_def)

theorem core_log_recent_witness:
  "log_lines (log_cb 5 6 (Some (str ''hi'')) core_init) = [log_entry 5 6 (str ''hi'')]"
proof -
  show ?thesis using core_init_inv core_log_recent [of core_init 5 6 "str ''hi''"] by (simp add: RAOP_LOG_INFO_def log_lines_def core_init_def)
qed

text \<open>The JSON form of the log never leaves the caller's buffer: for every
  capacity of at least 3 the result, with its terminator, fits, and it is a JSON array of the first
  lines in order, each a JSON string a reader turns back into the line (with replacement characters for
  bytes that are not UTF-8), as many lines as there is room for.\<close>

theorem core_logs_json_bounded:
  assumes "core_inv c" and "3 \<le> capacity"
  shows "\<exists>k out. airtizen_core_logs_json capacity c = Some (Some out) \<and> length out + 1 \<le> capacity \<and>
    out = str ''['' @ joined True (map quoted_line (take k (log_lines c))) @ str '']'' \<and>
    (k = length (log_lines c) \<or>
      length (str ''['' @ joined True (map quoted_line (take (k + 1) (log_lines c))) @ str '']'') + 2 > capacity) \<and>
    (\<forall>l \<in> set (log_lines c). json_value (quoted_line l) = Some (sanitize l))"
  by (rule logs_json_cases [OF assms])

theorem core_logs_json_bounded_witness:
  "\<exists>k out. airtizen_core_logs_json 100 core_init = Some (Some out) \<and> length out + 1 \<le> 100 \<and>
     out = str ''['' @ joined True (map quoted_line (take k (log_lines core_init))) @ str '']''"
proof -
  from core_logs_json_bounded [OF core_init_inv, of 100] show ?thesis by auto
qed

text \<open>Sessions are counted: after n connections (fewer than 2^32) from a state
  without sessions, the first n - 1 disconnections leave the sender connected, and the last one clears
  the connection, the pairing and the device name and retires the artwork of the session.\<close>

theorem core_last_disconnect:
  assumes "g_sessions (rc_core r) = of_nat n" and "0 < n" and "n < 2 ^ 32"
  shows "cs_connected (g_state (rc_core (cb_disconnected now r))) = (cs_connected (g_state (rc_core r)) \<and> n \<noteq> 1) \<and>
    g_sessions (rc_core (cb_disconnected now r)) = of_nat (n - 1) \<and>
    (n = 1 \<longrightarrow> cs_paired (g_state (rc_core (cb_disconnected now r))) = False \<and>
      cs_device (g_state (rc_core (cb_disconnected now r))) = [] \<and>
      airtizen_metadata_copy_artwork True (rc_metadata (cb_disconnected now r)) (artwork_version (md_state (rc_metadata r))) = None) \<and>
    g_sessions (rc_core (cb_connected now nm r)) = of_nat (n + 1) \<and> cs_connected (g_state (rc_core (cb_connected now nm r)))"
proof -
  have u: "unat (of_nat n :: u32) = n" "unat (of_nat (n - 1) :: u32) = n - 1"
    by (rule unat_of_nat_u32, use assms in simp)+
  have nz: "g_sessions (rc_core r) \<noteq> 0" using u assms by (metis unat_0 less_irrefl)
  have dec: "g_sessions (rc_core r) - 1 = of_nat (n - 1)" using assms by (simp add: of_nat_diff)
  have z: "(of_nat (n - 1) :: u32) = 0 \<longleftrightarrow> n = 1" 
    unfolding word_unat_eq_iff u(2) unat_0 using assms(2) by linarith
  have log: "g_state (log_cb now l m c) = g_state c" "g_sessions (log_cb now l m c) = g_sessions c" for l m c
    by (simp_all add: log_cb_def split: option.split)
  show ?thesis
    using nz dec z assms(1) metadata_generation.stale_refused [of "rc_metadata r"]
    by (auto simp: cb_disconnected_def cb_connected_def cb_audio_flush_def on_core_def set_state_def Let_def log intro: not_Some_pair)
qed

theorem core_last_disconnect_witness:
  "cs_connected (g_state (rc_core (cb_disconnected 1 (cb_connected 0 None (receiver_init :: unit receiver))))) = False"
proof -
  have "g_sessions (rc_core (cb_connected 0 None (receiver_init :: unit receiver))) = of_nat 1"
    by (simp add: cb_connected_def on_core_def set_state_def receiver_init_def core_init_def log_cb_def)
  from core_last_disconnect [OF this, of 1] show ?thesis by simp
qed

end
