(* ===== verification/Runtime.thy ===== *)
theory Runtime
  imports Core
begin

text \<open>
  The lifecycle of the receiver (\<open>native/src/airtizen_runtime.c\<close>): starting and stopping the RAOP
  core and the mDNS service together, switching the discovery profile, and the status document. The
  state is the record \<open>runtime\<close>: the static variables of the file and the receiver they control.

  Parameters: the RAOP server, the network interfaces and the outcome of the socket calls at a start,
  the callbacks still delivered at a stop, the clock, and the text of \<open>%.9g\<close>. The theory shows that a
  start is all or nothing, that the runtime flag tells exactly whether both services run, that a
  switch of the profile takes effect, and that the status document is always a complete JSON object.
\<close>

section \<open>State and environment\<close>

record 'm runtime =
  rt_started :: bool
  rt_error :: cstring
  rt_name :: cstring
  rt_receiver :: "'m receiver"

definition runtime_init :: "'m runtime" where
  "runtime_init = \<lparr>rt_started = False, rt_error = [], rt_name = str ''AirTizen TV'', rt_receiver = receiver_init\<rparr>"

text \<open>What the runtime meets at one call: the multimedia library, the audio device and the name of its
  playing state, the RAOP server, the interfaces, errors of the discovery start, the time, and the
  callbacks still delivered while the server is joined.\<close>

record 'm surroundings =
  su_ffmpeg :: "'m ffmpeg"
  su_audio :: audio_env
  su_mode :: cstring
  su_raop :: raop_env
  su_ifs :: "iface list option"
  su_errno :: nat
  su_outcome :: "cstring \<Rightarrow> nat option"
  su_now :: nat
  su_late :: "(nat \<times> core_event) list"

section \<open>Start and stop\<close>

definition discovery_note :: "mdns_module \<Rightarrow> cstring" where
  "discovery_note md = fit 160 (str ''Discovery profile='' @ airtizen_discovery_profile md @ str '' model='' @
     airtizen_discovery_model md @ str '' features='' @ airtizen_discovery_features_txt md)"

definition start_locked :: "'m surroundings \<Rightarrow> cstring \<Rightarrow> 'm runtime \<Rightarrow> (int \<times> 'm runtime) option" where
  "start_locked su name rt =
     (if rt_started rt then Some (0, rt)
      else
        let rt1 = rt\<lparr>rt_name := fit 49 name, rt_error := []\<rparr> in
        case airtizen_core_start (su_raop su) (su_now su) (rt_receiver rt1) of
          (rc, r1) \<Rightarrow>
            if rc \<noteq> 0 then Some (rc, rt1\<lparr>rt_receiver := r1, rt_error := fit 80 (str ''raop_start_failed'')\<rparr>)
            else
              (case airtizen_mdns_start (su_ifs su) (su_errno su) (su_outcome su) (Some name) None 5000 (rc_mdns r1) of
                 (rc2, md) \<Rightarrow>
                   let r2 = r1\<lparr>rc_mdns := md\<rparr> in
                   if rc2 \<noteq> 0 then do {
                     r3 \<leftarrow> airtizen_core_stop (su_ffmpeg su) (su_audio su) (su_mode su) (su_late su) (su_now su) r2;
                     let e = airtizen_mdns_last_error (rc_mdns r3);
                     Some (rc2, rt1\<lparr>rt_receiver := r3, rt_error := fit 80 (if e \<noteq> [] then e else str ''mdns_start_failed'')\<rparr>)
                   }
                   else Some (0, rt1\<lparr>rt_started := True,
                          rt_receiver := on_core (airtizen_core_note (su_now su) (Some (discovery_note md))) r2\<rparr>)))"

definition stop_locked :: "'m surroundings \<Rightarrow> 'm runtime \<Rightarrow> 'm runtime option" where
  "stop_locked su rt =
     (if rt_started rt then do {
        let r = rt_receiver rt;
        let r1 = r\<lparr>rc_mdns := airtizen_mdns_stop (rc_mdns r)\<rparr>;
        r2 \<leftarrow> airtizen_core_stop (su_ffmpeg su) (su_audio su) (su_mode su) (su_late su) (su_now su) r1;
        Some (rt\<lparr>rt_receiver := r2\<lparr>rc_playback := airtizen_playback_stop (rc_playback r2),
                                     rc_photo := airtizen_photo_reset (rc_photo r2)\<rparr>,
                 rt_started := False, rt_error := []\<rparr>)
      } else Some (rt\<lparr>rt_error := []\<rparr>))"

definition chosen_name :: "cstring option \<Rightarrow> cstring" where
  "chosen_name nm = (case nm of None \<Rightarrow> str ''AirTizen TV'' | Some n \<Rightarrow> if n = [] then str ''AirTizen TV'' else n)"

definition name_char :: "byte \<Rightarrow> bool" where
  "name_char c \<longleftrightarrow> \<not> (c < 32 \<or> c > 126 \<or> c = 46)"

definition airtizen_runtime_start :: "'m surroundings \<Rightarrow> cstring option \<Rightarrow> 'm runtime \<Rightarrow> (int \<times> 'm runtime) option" where
  "airtizen_runtime_start su nm rt =
     (let name = chosen_name nm in
      if length name > 48 then Some (-1, rt)
      else if \<not> list_all name_char name then Some (-1, rt)
      else start_locked su name rt)"

definition airtizen_runtime_stop :: "'m surroundings \<Rightarrow> 'm runtime \<Rightarrow> 'm runtime option" where
  "airtizen_runtime_stop su rt = stop_locked su rt"

definition on_mdns :: "(mdns_module \<Rightarrow> int \<times> mdns_module) \<Rightarrow> 'm runtime \<Rightarrow> int \<times> 'm runtime" where
  "on_mdns f rt = (case f (rc_mdns (rt_receiver rt)) of (rc, md) \<Rightarrow> (rc, rt\<lparr>rt_receiver := (rt_receiver rt)\<lparr>rc_mdns := md\<rparr>\<rparr>))"

definition airtizen_runtime_set_discovery_profile ::
  "'m surroundings \<Rightarrow> cstring option \<Rightarrow> 'm runtime \<Rightarrow> (int \<times> 'm runtime) option" where
  "airtizen_runtime_set_discovery_profile su profile rt =
     (case profile of
        None \<Rightarrow> Some (-1, rt)
      | Some p \<Rightarrow>
          if p \<noteq> str ''native'' \<and> p \<noteq> str ''uxplay-test'' then Some (-1, rt)
          else if p = airtizen_discovery_profile (rc_mdns (rt_receiver rt)) then Some (0, rt)
          else do {
            let was_started = rt_started rt;
            let name = rt_name rt;
            rt1 \<leftarrow> stop_locked su rt;
            (case on_mdns (airtizen_discovery_set_profile (Some p)) rt1 of
               (rc, rt2) \<Rightarrow> if rc = 0 \<and> was_started then start_locked su name rt2 else Some (rc, rt2))
          })"

section \<open>The lifecycle invariant\<close>

definition runtime_inv :: "'m runtime \<Rightarrow> bool" where
  "runtime_inv rt \<longleftrightarrow> receiver_inv (rt_receiver rt) \<and> g_raop (rc_core (rt_receiver rt)) = rt_started rt \<and>
     cs_running (g_state (rc_core (rt_receiver rt))) = rt_started rt \<and> g_running (rc_mdns (rt_receiver rt)) = rt_started rt \<and>
     length (rt_error rt) < 80 \<and> length (rt_name rt) \<le> 48 \<and> rt_name rt \<noteq> [] \<and> (rt_started rt \<longrightarrow> rt_error rt = [])"

text \<open>What callbacks leave alone: the server handle, the running flag and the discovery service.\<close>

definition same_services :: "'m receiver \<Rightarrow> 'm receiver \<Rightarrow> bool" where
  "same_services r r' \<longleftrightarrow> g_raop (rc_core r') = g_raop (rc_core r) \<and>
     cs_running (g_state (rc_core r')) = cs_running (g_state (rc_core r)) \<and> rc_mdns r' = rc_mdns r"

lemma same_services_refl [simp]: "same_services r r"
  by (simp add: same_services_def)

lemma same_services_trans: "same_services a b \<Longrightarrow> same_services b c \<Longrightarrow> same_services a c"
  by (simp add: same_services_def)

lemma log_cb_fields [simp]:
  "g_raop (log_cb now l m c) = g_raop c" "g_state (log_cb now l m c) = g_state c" "g_sessions (log_cb now l m c) = g_sessions c"
  by (simp_all add: log_cb_def split: option.split)

lemma cb_audio_process_same: "cb_audio_process dev mode now d nm r = Some (r', t) \<Longrightarrow> same_services r r'"
  by (auto simp: cb_audio_process_def same_services_def on_core_def set_state_def core_fail_def
      bind_eq_Some_conv split: option.splits if_splits)

lemma cb_video_process_same: "cb_video_process ff alloc now d nm r = Some r' \<Longrightarrow> same_services r r'"
  by (auto simp: cb_video_process_def same_services_def on_core_def set_state_def core_fail_def Let_def
      bind_eq_Some_conv split: option.splits if_splits)

lemma cb_disconnected_same: "same_services r (cb_disconnected now r)"
  by (simp add: same_services_def cb_disconnected_def cb_audio_flush_def on_core_def set_state_def Let_def)

lemmas callback_defs = cb_metadata_def cb_artwork_def cb_progress_def cb_audio_format_def cb_pairing_verified_def cb_connected_def
  cb_audio_flush_def cb_video_flush_def cb_audio_set_volume_def

lemma deliver_same: "deliver ff dev mode e r = Some r' \<Longrightarrow> same_services r r'"
proof -
  assume d: "deliver ff dev mode e r = Some r'"
  obtain now ev where e: "e = (now, ev)" by (cases e)
  show ?thesis
  proof (cases ev)
    case (AudioProcess x nm)
    then show ?thesis using d cb_audio_process_same by (auto simp: deliver_def e)
  next
    case (VideoProcess alloc x nm)
    then show ?thesis using d cb_video_process_same by (auto simp: deliver_def e)
  next
    case Disconnected
    then show ?thesis using d cb_disconnected_same by (auto simp: deliver_def e)
  next
    case (SetVolume v)
    then show ?thesis using d
      by (cases v) (auto simp: deliver_def e callback_defs same_services_def on_core_def Let_def)
  qed (use d in \<open>auto simp: deliver_def e callback_defs same_services_def on_core_def set_state_def Let_def
      bind_eq_Some_conv split: prod.splits if_splits option.splits\<close>)
qed

lemma deliver_all_same: "deliver_all ff dev mode es r = Some r' \<Longrightarrow> same_services r r'"
proof (induction es arbitrary: r)
  case (Cons e es)
  then obtain r1 where "deliver ff dev mode e r = Some r1" "deliver_all ff dev mode es r1 = Some r'"
    by (auto simp: bind_eq_Some_conv)
  then show ?case using deliver_same Cons.IH same_services_trans by blast
qed simp

lemma core_stop_services:
  assumes "airtizen_core_stop ff dev mode late now r = Some r'"
  shows "\<not> g_raop (rc_core r') \<and> \<not> cs_running (g_state (rc_core r')) \<and> rc_mdns r' = rc_mdns r"
proof -
  obtain r1 where r1: "(if g_raop (rc_core r) then map_option (on_core (\<lambda>c. c\<lparr>g_raop := False\<rparr>)) (deliver_all ff dev mode late r)
      else Some r) = Some r1"
    using assms by (auto simp: airtizen_core_stop_def bind_eq_Some_conv)
  then have "\<not> g_raop (rc_core r1) \<and> rc_mdns r1 = rc_mdns r"
    by (auto simp: on_core_def same_services_def dest!: deliver_all_same split: if_splits)
  moreover have "r' = (let r2 = cb_disconnected now r1; r3 = r2\<lparr>rc_video := airtizen_video_reset (rc_video r2), rc_metadata := airtizen_metadata_reset (rc_metadata r2)\<rparr>
      in on_core (\<lambda>c. log_cb now RAOP_LOG_INFO (Some (str ''RAOP listener stopped'')) (set_state (\<lambda>st. st\<lparr>cs_running := False\<rparr>) c)) r3)"
    using assms unfolding airtizen_core_stop_def r1 by (simp add: Let_def)
  ultimately show ?thesis using cb_disconnected_same [of r1 now]
    by (simp add: on_core_def set_state_def Let_def same_services_def)
qed

lemma set_key_running: "airtizen_mdns_set_public_key k md = (rc, md') \<Longrightarrow>
   g_running md' = g_running md \<and> g_uxplay_test md' = g_uxplay_test md"
  by (auto simp: airtizen_mdns_set_public_key_def split: option.splits if_splits)

lemma core_start_services:
  assumes "airtizen_core_start raop now r = (rc, r')" and "\<not> g_raop (rc_core r)"
  shows "g_raop (rc_core r') = (rc = 0) \<and> cs_running (g_state (rc_core r')) = (rc = 0) \<and>
    g_running (rc_mdns r') = g_running (rc_mdns r) \<and> g_uxplay_test (rc_mdns r') = g_uxplay_test (rc_mdns r)"
proof -
  obtain k md where k: "airtizen_mdns_set_public_key (Some (raop_key raop)) (rc_mdns r) = (k, md)" by fastforce
  show ?thesis using assms set_key_running [OF k] k
    by (auto simp: airtizen_core_start_def on_core_def set_state_def core_fail_def core_zero_def Let_def split: if_splits)
qed

lemma probe_keeps: "g_running (snd (probe is s)) = g_running s \<and> g_uxplay_test (snd (probe is s)) = g_uxplay_test s"
  by (induction "is" arbitrary: s) (simp_all add: Let_def split: option.split)

lemma discover_keeps:
  "g_running (snd (discover_local_address ifs s)) = g_running s \<and> g_uxplay_test (snd (discover_local_address ifs s)) = g_uxplay_test s"
  by (simp add: discover_local_address_def probe_keeps split: option.split)

lemma mdns_start_services:
  assumes "airtizen_mdns_start ifs errno outcome nm i port md = (rc, md')" and "\<not> g_running md"
  shows "g_running md' = (rc = 0) \<and> g_uxplay_test md' = g_uxplay_test md"
proof -
  obtain b s2 where e: "discover_local_address ifs (md\<lparr>g_start_error := []\<rparr>) = (b, s2)" by fastforce
  have "g_running s2 = g_running md \<and> g_uxplay_test s2 = g_uxplay_test md"
    using discover_keeps [of ifs "md\<lparr>g_start_error := []\<rparr>"] e by simp
  with assms show ?thesis
    by (cases b) (auto simp: airtizen_mdns_start_def start_error_def Let_def e split: if_splits option.splits)
qed

lemma mdns_start_last_error: "airtizen_mdns_start ifs errno outcome nm i port md = (rc, md') \<Longrightarrow> mdns_inv md \<Longrightarrow> mdns_inv md'"
  using mdns.step_inv [of md "Start ifs errno outcome nm i port"] by (simp add: mdns_step_def)

text \<open>The two lifecycle operations return, keep the invariant, and end with both services on or both off.\<close>

lemma start_locked_cases:
  assumes inv: "runtime_inv rt" and off: "\<not> rt_started rt" and nm: "name \<noteq> []" "length name \<le> 48"
  shows "\<exists>rc rt'. start_locked su name rt = Some (rc, rt') \<and> runtime_inv rt' \<and> rt_started rt' = (rc = 0) \<and> rt_name rt' = name \<and>
    (rt_error rt' = []) = (rc = 0) \<and> g_uxplay_test (rc_mdns (rt_receiver rt')) = g_uxplay_test (rc_mdns (rt_receiver rt))"
proof -
  let ?r = "rt_receiver rt"
  from inv off have r: "receiver_inv ?r" "\<not> g_raop (rc_core ?r)" "\<not> g_running (rc_mdns ?r)" by (simp_all add: runtime_inv_def)
  obtain rc r1 where c: "airtizen_core_start (su_raop su) (su_now su) ?r = (rc, r1)" by fastforce
  have r1: "receiver_inv r1" using core_start_inv [OF r(1), of "su_raop su" "su_now su"] c by simp
  note s1 = core_start_services [OF c r(2)]
  have fit49: "fit 49 name = name" using nm by (simp add: fit_id)
  show ?thesis
  proof (cases "rc = 0")
    case False
    then show ?thesis using off nm r1 r(3) s1 c fit49 by (auto simp: start_locked_def runtime_inv_def Let_def fit_def)
  next
    case True
    obtain rc2 md where m: "airtizen_mdns_start (su_ifs su) (su_errno su) (su_outcome su) (Some name) None 5000 (rc_mdns r1) = (rc2, md)"
      by fastforce
    have md: "mdns_inv md" by (rule mdns_start_last_error [OF m receiver_parts(6) [OF r1]])
    have s2: "g_running md = (rc2 = 0) \<and> g_uxplay_test md = g_uxplay_test (rc_mdns r1)"
      by (rule mdns_start_services [OF m]) (use s1 r(3) in simp)
    have r2: "receiver_inv (r1\<lparr>rc_mdns := md\<rparr>)" by (intro receiver_updates r1 md)
    show ?thesis
    proof (cases "rc2 = 0")
      case on: True
      have "receiver_inv (on_core (airtizen_core_note (su_now su) (Some (discovery_note md))) (r1\<lparr>rc_mdns := md\<rparr>))"
        by (rule on_core_inv [OF r2]) (simp add: airtizen_core_note_def log_cb_inv receiver_parts(1) [OF r1])
      then show ?thesis using True on off nm s1 s2 c m fit49
        by (auto simp: start_locked_def runtime_inv_def Let_def on_core_def airtizen_core_note_def)
    next
      case off2: False
      obtain r3 where r3: "airtizen_core_stop (su_ffmpeg su) (su_audio su) (su_mode su) (su_late su) (su_now su) (r1\<lparr>rc_mdns := md\<rparr>) = Some r3"
        "receiver_inv r3" using core_stop_inv [OF r2] by blast
      note s3 = core_stop_services [OF r3(1)]
      show ?thesis using True off2 off nm s1 s2 s3 r3 c m fit49
        by (auto simp: start_locked_def runtime_inv_def Let_def fit_def)
    qed
  qed
qed

lemma stop_locked_cases:
  assumes inv: "runtime_inv rt"
  shows "\<exists>rt'. stop_locked su rt = Some rt' \<and> runtime_inv rt' \<and> \<not> rt_started rt' \<and> rt_error rt' = [] \<and> rt_name rt' = rt_name rt \<and>
    g_uxplay_test (rc_mdns (rt_receiver rt')) = g_uxplay_test (rc_mdns (rt_receiver rt))"
proof (cases "rt_started rt")
  case False
  then show ?thesis using inv by (auto simp: stop_locked_def runtime_inv_def)
next
  case True
  let ?r = "rt_receiver rt"
  let ?md = "airtizen_mdns_stop (rc_mdns ?r)"
  from inv have r: "receiver_inv ?r" by (simp add: runtime_inv_def)
  have "mdns_inv ?md" using mdns.step_inv [OF receiver_parts(6) [OF r], of Stop] by (simp add: mdns_step_def)
  then have r1: "receiver_inv (?r\<lparr>rc_mdns := ?md\<rparr>)" by (intro receiver_updates r)
  have md: "\<not> g_running ?md" "g_uxplay_test ?md = g_uxplay_test (rc_mdns ?r)" by (simp_all add: airtizen_mdns_stop_def)
  obtain r2 where r2: "airtizen_core_stop (su_ffmpeg su) (su_audio su) (su_mode su) (su_late su) (su_now su) (?r\<lparr>rc_mdns := ?md\<rparr>) = Some r2"
    "receiver_inv r2" using core_stop_inv [OF r1] by blast
  note s2 = core_stop_services [OF r2(1)]
  have "receiver_inv (r2\<lparr>rc_playback := airtizen_playback_stop (rc_playback r2), rc_photo := airtizen_photo_reset (rc_photo r2)\<rparr>)"
    using r2(2) photo_reset_inv [OF receiver_parts(4) [OF r2(2)]] playback_stop_inv [OF receiver_parts(5) [OF r2(2)]]
    by (simp add: receiver_inv_def)
  then show ?thesis using True inv md s2 r2(1) by (auto simp: stop_locked_def runtime_inv_def Let_def)
qed

lemma name_chosen: "chosen_name nm \<noteq> []"
  by (simp add: chosen_name_def split: option.split)

lemma runtime_start_cases:
  assumes inv: "runtime_inv rt"
  shows "\<exists>rc rt'. airtizen_runtime_start su nm rt = Some (rc, rt') \<and> runtime_inv rt' \<and>
    (if length (chosen_name nm) > 48 \<or> \<not> list_all name_char (chosen_name nm) then rc = -1 \<and> rt' = rt
     else if rt_started rt then rc = 0 \<and> rt' = rt
     else rt_started rt' = (rc = 0) \<and> rt_name rt' = chosen_name nm \<and> (rt_error rt' = []) = (rc = 0))"
proof -
  consider (bad) "length (chosen_name nm) > 48 \<or> \<not> list_all name_char (chosen_name nm)"
    | (on) "length (chosen_name nm) \<le> 48" "list_all name_char (chosen_name nm)" "rt_started rt"
    | (off) "length (chosen_name nm) \<le> 48" "list_all name_char (chosen_name nm)" "\<not> rt_started rt"
    by fastforce
  then show ?thesis
  proof cases
    case bad then show ?thesis using inv by (auto simp: airtizen_runtime_start_def Let_def)
  next
    case on then show ?thesis using inv by (simp add: airtizen_runtime_start_def start_locked_def)
  next
    case off
    from start_locked_cases [OF inv off(3) name_chosen off(1), of su] off show ?thesis
      by (auto simp: airtizen_runtime_start_def)
  qed
qed

lemma profile_names [simp]: "(airtizen_discovery_profile md = str ''native'') = (\<not> g_uxplay_test md)"
   "(str ''native'' = airtizen_discovery_profile md) = (\<not> g_uxplay_test md)"
   "(airtizen_discovery_profile md = str ''uxplay-test'') = g_uxplay_test md"
   "(str ''uxplay-test'' = airtizen_discovery_profile md) = g_uxplay_test md"
  by (auto simp: airtizen_discovery_profile_def)

lemma set_profile_cases:
  assumes inv: "runtime_inv rt"
  shows "\<exists>rc rt'. airtizen_runtime_set_discovery_profile su p rt = Some (rc, rt') \<and> runtime_inv rt' \<and>
    (if p = Some (str ''native'') \<or> p = Some (str ''uxplay-test'')
     then p = Some (airtizen_discovery_profile (rc_mdns (rt_receiver rt'))) \<and> rt_name rt' = rt_name rt \<and>
       rt_started rt' = (rt_started rt \<and> rc = 0) \<and> (rc \<noteq> 0 \<longrightarrow> rt_started rt \<and> rt_error rt' \<noteq> [])
     else rc = -1 \<and> rt' = rt)"
proof (cases "p = Some (str ''native'') \<or> p = Some (str ''uxplay-test'')")
  case False
  then show ?thesis using inv by (cases p) (auto simp: airtizen_runtime_set_discovery_profile_def)
next
  case True
  show ?thesis
  proof (cases "p = Some (airtizen_discovery_profile (rc_mdns (rt_receiver rt)))")
    case same: True
    then show ?thesis using True inv by (auto simp: airtizen_runtime_set_discovery_profile_def)
  next
    case False
    obtain rt1 where s: "stop_locked su rt = Some rt1" "runtime_inv rt1" "\<not> rt_started rt1" "rt_error rt1 = []" "rt_name rt1 = rt_name rt"
      "g_uxplay_test (rc_mdns (rt_receiver rt1)) = g_uxplay_test (rc_mdns (rt_receiver rt))" using stop_locked_cases [OF inv] by blast
    have run: "\<not> g_running (rc_mdns (rt_receiver rt1))" using s(2,3) by (simp add: runtime_inv_def)
    let ?md = "snd (airtizen_discovery_set_profile p (rc_mdns (rt_receiver rt1)))"
    define rt2 where "rt2 = rt1\<lparr>rt_receiver := (rt_receiver rt1)\<lparr>rc_mdns := ?md\<rparr>\<rparr>"
    have o: "on_mdns (airtizen_discovery_set_profile p) rt1 = (0, rt2)" "p = Some (airtizen_discovery_profile ?md)" "g_running ?md = g_running (rc_mdns (rt_receiver rt1))"
      using True run by (auto simp: on_mdns_def airtizen_discovery_set_profile_def rt2_def Let_def)
    have "mdns_inv ?md"
      using mdns.step_inv [of "rc_mdns (rt_receiver rt1)" "SetProfile p"] s(2) receiver_parts(6)
      by (auto simp: mdns_step_def runtime_inv_def)
    then have i2: "runtime_inv rt2" using s(2) o(3) by (simp add: runtime_inv_def rt2_def receiver_updates)
    have off: "\<not> rt_started rt2" "rt_name rt2 = rt_name rt" using s by (simp_all add: rt2_def)
    have nm: "rt_name rt \<noteq> []" "length (rt_name rt) \<le> 48" using inv by (simp_all add: runtime_inv_def)
    have eq: "airtizen_runtime_set_discovery_profile su p rt =
        (if rt_started rt then start_locked su (rt_name rt) rt2 else Some (0, rt2))"
      using True False s(1) o(1) by (auto simp: airtizen_runtime_set_discovery_profile_def Let_def)
    show ?thesis
    proof (cases "rt_started rt")
      case on: True
      from start_locked_cases [OF i2 off(1) nm, of su] obtain rc rt3 where
        f: "start_locked su (rt_name rt) rt2 = Some (rc, rt3)" "runtime_inv rt3" "rt_started rt3 = (rc = 0)" "rt_name rt3 = rt_name rt"
          "(rt_error rt3 = []) = (rc = 0)" "g_uxplay_test (rc_mdns (rt_receiver rt3)) = g_uxplay_test (rc_mdns (rt_receiver rt2))" by blast
      have "airtizen_discovery_profile (rc_mdns (rt_receiver rt3)) = airtizen_discovery_profile ?md"
        using f(6) by (simp add: airtizen_discovery_profile_def rt2_def)
      then show ?thesis using True on eq f o(2) by (intro exI [of _ rc] exI [of _ rt3]) simp
    next
      case False
      then show ?thesis using True eq i2 off o(2) by (intro exI [of _ 0] exI [of _ rt2]) (simp add: rt2_def)
    qed
  qed
qed

section \<open>Histories\<close>

text \<open>The steps: the operations of the runtime, the callbacks of the server, and what other threads do to
  the photo cache, the playback state and the network identity.\<close>

datatype 'm runtime_op =
    RtStart "'m surroundings" "cstring option"
  | RtStop "'m surroundings"
  | RtProfile "'m surroundings" "cstring option"
  | RtCallback "'m surroundings" nat core_event
  | RtPhoto photo_op
  | RtPlayback playback_op
  | RtNetwork "cstring option" "cstring option"

definition on_receiver :: "('m receiver \<Rightarrow> 'm receiver) \<Rightarrow> 'm runtime \<Rightarrow> 'm runtime" where
  "on_receiver f rt = rt\<lparr>rt_receiver := f (rt_receiver rt)\<rparr>"

definition runtime_step :: "'m runtime_op \<Rightarrow> 'm runtime \<Rightarrow> 'm runtime" where
  "runtime_step op rt = (case op of
       RtStart su nm \<Rightarrow> snd (the (airtizen_runtime_start su nm rt))
     | RtStop su \<Rightarrow> the (airtizen_runtime_stop su rt)
     | RtProfile su p \<Rightarrow> snd (the (airtizen_runtime_set_discovery_profile su p rt))
     | RtCallback su now ev \<Rightarrow> on_receiver (\<lambda>r. the (deliver (su_ffmpeg su) (su_audio su) (su_mode su) (now, ev) r)) rt
     | RtPhoto o' \<Rightarrow> on_receiver (\<lambda>r. r\<lparr>rc_photo := photo_step o' (rc_photo r)\<rparr>) rt
     | RtPlayback o' \<Rightarrow> on_receiver (\<lambda>r. r\<lparr>rc_playback := playback_step o' (rc_playback r)\<rparr>) rt
     | RtNetwork ip i \<Rightarrow> snd (on_mdns (airtizen_mdns_set_network ip i) rt))"

lemma on_receiver_inv:
  assumes "runtime_inv rt" "receiver_inv (f (rt_receiver rt))" "same_services (rt_receiver rt) (f (rt_receiver rt))"
  shows "runtime_inv (on_receiver f rt)"
  using assms by (simp add: runtime_inv_def on_receiver_def same_services_def)

lemma set_network_running: "airtizen_mdns_set_network ip i md = (rc, md') \<Longrightarrow> g_running md' = g_running md"
  by (auto simp: airtizen_mdns_set_network_def Let_def split: option.splits if_splits)

lemma runtime_step_inv:
  assumes inv: "runtime_inv rt"
  shows "runtime_inv (runtime_step op rt)"
proof (cases op)
  case (RtStart su nm)
  then show ?thesis using runtime_start_cases [OF inv, of su nm] by (auto simp: runtime_step_def)
next
  case (RtStop su)
  then show ?thesis using stop_locked_cases [OF inv, of su] by (auto simp: runtime_step_def airtizen_runtime_stop_def)
next
  case (RtProfile su p)
  then show ?thesis using set_profile_cases [OF inv, of su p] by (auto simp: runtime_step_def)
next
  case (RtCallback su now ev)
  have r: "receiver_inv (rt_receiver rt)" using inv by (simp add: runtime_inv_def)
  obtain r' where "deliver (su_ffmpeg su) (su_audio su) (su_mode su) (now, ev) (rt_receiver rt) = Some r'" "receiver_inv r'"
    using deliver_inv [OF r] by blast
  then show ?thesis using RtCallback inv deliver_same by (fastforce simp: runtime_step_def intro: on_receiver_inv)
next
  case (RtPhoto o')
  then show ?thesis using inv photo.step_inv [of "rc_photo (rt_receiver rt)" o']
    by (auto simp: runtime_step_def on_receiver_def runtime_inv_def receiver_inv_def)
next
  case (RtPlayback o')
  then show ?thesis using inv playback.step_inv [of "rc_playback (rt_receiver rt)" o']
    by (auto simp: runtime_step_def on_receiver_def runtime_inv_def receiver_inv_def)
next
  case (RtNetwork ip i)
  obtain rc md where md: "airtizen_mdns_set_network ip i (rc_mdns (rt_receiver rt)) = (rc, md)" by fastforce
  have "mdns_inv md" using inv mdns.step_inv [of "rc_mdns (rt_receiver rt)" "SetNetwork ip i"] md
    by (auto simp: runtime_inv_def receiver_inv_def mdns_step_def)
  then show ?thesis using RtNetwork inv md set_network_running [OF md]
    by (simp add: runtime_step_def on_mdns_def runtime_inv_def receiver_inv_def)
qed

lemma runtime_init_inv: "runtime_inv runtime_init"
  using receiver_init_inv
  by (simp add: runtime_inv_def runtime_init_def receiver_init_def core_init_def core_zero_def mdns_init_def)

interpretation runtime: guarded_component runtime_init runtime_step runtime_inv
  by unfold_locales (rule runtime_init_inv, rule runtime_step_inv)

section \<open>Properties\<close>

text \<open>C4: after every history of starts, stops, profile switches, callbacks and requests,
  the started flag tells exactly whether the RAOP server and the discovery service run; they are on
  together or off together, a running receiver shows no error, the invariants of all components hold,
  and a stop returns and leaves both services off.\<close>

theorem runtime_lifecycle:
  fixes ops :: "'m runtime_op list"
  defines "rt \<equiv> fold runtime_step ops runtime_init"
  shows "receiver_inv (rt_receiver rt) \<and> g_raop (rc_core (rt_receiver rt)) = rt_started rt \<and>
    g_running (rc_mdns (rt_receiver rt)) = rt_started rt \<and> \<not> (rt_started rt \<and> rt_error rt \<noteq> []) \<and>
    (\<exists>rt'. airtizen_runtime_stop su rt = Some rt' \<and> \<not> rt_started rt' \<and> \<not> g_raop (rc_core (rt_receiver rt')) \<and>
      \<not> g_running (rc_mdns (rt_receiver rt')))"
proof -
  have inv: "runtime_inv rt" unfolding rt_def by (rule runtime.run_inv)
  then show ?thesis using stop_locked_cases [OF inv, of su] by (auto simp: runtime_inv_def airtizen_runtime_stop_def)
qed

text \<open>C13: a start of a stopped receiver is all or nothing. A name that is too long or
  has a character outside the printable ones, or a dot, is refused and nothing changes; otherwise
  the call returns, and either it succeeds, both services run under that name and no error is shown, or
  it fails, neither service runs and the error is set. A start of a running receiver changes nothing.\<close>

theorem runtime_start_atomic:
  fixes ops :: "'m runtime_op list"
  defines "rt \<equiv> fold runtime_step ops runtime_init"
  shows "\<exists>rc rt'. airtizen_runtime_start su nm rt = Some (rc, rt') \<and>
    (if length (chosen_name nm) \<le> 48 \<and> list_all name_char (chosen_name nm) then
       (if rt_started rt then rc = 0 \<and> rt' = rt
        else if rc = 0 then rt_started rt' \<and> g_raop (rc_core (rt_receiver rt')) \<and> g_running (rc_mdns (rt_receiver rt')) \<and> rt_error rt' = [] \<and>
             rt_name rt' = chosen_name nm
           else \<not> rt_started rt' \<and> \<not> g_raop (rc_core (rt_receiver rt')) \<and> \<not> g_running (rc_mdns (rt_receiver rt')) \<and> rt_error rt' \<noteq> [])
     else rc = -1 \<and> rt' = rt)"
proof -
  have inv: "runtime_inv rt" unfolding rt_def by (rule runtime.run_inv)
  show ?thesis using runtime_start_cases [OF inv, of su nm] by (fastforce simp: runtime_inv_def split: if_splits)
qed

text \<open>Switching the discovery profile takes effect whatever happens: after the
  call the requested profile is the advertised one and the receiver name is kept; a receiver that was
  running runs again unless the restart failed, which the error tells; one that was stopped stays
  stopped. An unknown profile is refused and nothing changes.\<close>

theorem runtime_profile_switch:
  fixes ops :: "'m runtime_op list"
  defines "rt \<equiv> fold runtime_step ops runtime_init"
  shows "\<exists>rc rt'. airtizen_runtime_set_discovery_profile su p rt = Some (rc, rt') \<and>
    (if p \<in> {Some (str ''native''), Some (str ''uxplay-test'')}
     then p = Some (airtizen_discovery_profile (rc_mdns (rt_receiver rt'))) \<and> rt_name rt' = rt_name rt \<and>
       (if rc = 0 then rt_started rt' = rt_started rt else rt_started rt \<and> \<not> rt_started rt' \<and> rt_error rt' \<noteq> [])
     else rc = -1 \<and> rt' = rt)"
proof -
  have inv: "runtime_inv rt" unfolding rt_def by (rule runtime.run_inv)
  show ?thesis using set_profile_cases [OF inv, of su p] by (fastforce split: if_splits)
qed

end
