(* ===== verification/Status.thy ===== *)
theory Status
  imports Runtime
begin

text \<open>
  The status document (\<open>airtizen_runtime_status_json\<close> in \<open>native/src/airtizen_runtime.c\<close>): one JSON
  object assembled by a single \<open>snprintf\<close> from the snapshots of all components. The format string is
  split here at its source lines. The theory gives the JSON grammar of RFC 8259 and shows that in
  every state the receiver can reach the document is a complete object of that grammar, with distinct
  member names, that fits the buffer.

  Parameters: the text of \<open>%.9g\<close>, of which only documented behaviour is used (for a finite number it
  is a decimal number of at most 16 characters), and the audio output named by the build.
\<close>

section \<open>The document\<close>

text \<open>The audio output the build names.\<close>

datatype build = NativeClient | Tizen | Host

definition audio_output_name :: "build \<Rightarrow> cstring" where
  "audio_output_name b = (case b of NativeClient \<Rightarrow> str ''nacl'' | Tizen \<Rightarrow> str ''tizen'' | Host \<Rightarrow> str ''host_stub'')"

definition c_bool :: "bool \<Rightarrow> cstring" where
  "c_bool b = (if b then str ''true'' else str ''false'')"

definition u_text :: "u32 \<Rightarrow> cstring" where
  "u_text x = dec_nat (unat x)"

definition llu_text :: "u64 \<Rightarrow> cstring" where
  "llu_text x = dec_nat (unat x)"

definition status_line1 :: "cstring \<Rightarrow> cstring \<Rightarrow> cstring" where
  \<open>status_line1 service receiver = str ''{"ok":true,"service":"'' @ service @ str ''","receiverName":'' @ receiver @ str '',''\<close>

definition status_line2 :: "cstring \<Rightarrow> cstring \<Rightarrow> cstring \<Rightarrow> cstring \<Rightarrow> cstring" where
  \<open>status_line2 profile model features experimental =
     str ''"discovery":{"profile":"'' @ profile @ str ''","model":"'' @ model @ str ''","features":"'' @ features @
     str ''","implementedFeatures":"'' @ AIRTIZEN_NATIVE_FEATURES_TXT @ str ''","sourceVersion":"'' @ AIRTIZEN_SOURCE_VERSION @
     str ''","experimental":'' @ experimental @ str ''},''\<close>

definition status_line3 :: "cstring \<Rightarrow> cstring" where
  \<open>status_line3 audio_output =
     str ''"capabilities":{"audio":true,"mirroring":true,"videoStreaming":true,"photos":true,"photoCaching":true,"slideshow":false,"drm":false,"productionReady":false,"audioOutput":"'' @
     audio_output @ str ''"},''\<close>

definition status_line4 :: "cstring \<Rightarrow> cstring \<Rightarrow> cstring \<Rightarrow> cstring \<Rightarrow> cstring \<Rightarrow> cstring" where
  \<open>status_line4 airplay discoverable conn device last_error =
     str ''"protocols":{"airplay":{"enabled":true,"state":"'' @ airplay @ str ''","discoverable":'' @ discoverable @
     str '',"connected":'' @ conn @ str '',"device":'' @ device @ str '',"lastError":'' @ last_error @ str ''}},''\<close>

definition status_line5 :: "cstring \<Rightarrow> cstring \<Rightarrow> cstring \<Rightarrow> cstring" where
  \<open>status_line5 audio srate bytes =
     str ''"audio":{"state":'' @ audio @ str '',"sampleRate":'' @ srate @ str '',"bytesReceived":'' @ bytes @ str ''},''\<close>

definition status_line6 ::
  "cstring \<Rightarrow> cstring \<Rightarrow> cstring \<Rightarrow> cstring \<Rightarrow> cstring \<Rightarrow> cstring \<Rightarrow> cstring \<Rightarrow> cstring \<Rightarrow> cstring" where
  \<open>status_line6 available gen start latest wd hgt mime frames =
     str ''"video":{"available":'' @ available @ str '',"generation":'' @ gen @ str '',"start":'' @ start @
     str '',"latest":'' @ latest @ str '',"width":'' @ wd @ str '',"height":'' @ hgt @ str '',"mime":'' @ mime @
     str '',"framesReceived":'' @ frames @ str ''},''\<close>

definition status_line7 :: "cstring \<Rightarrow> cstring \<Rightarrow> cstring \<Rightarrow> cstring \<Rightarrow> cstring \<Rightarrow> cstring \<Rightarrow> cstring" where
  \<open>status_line7 ttl art alb version pos dur =
     str ''"nowPlaying":{"title":'' @ ttl @ str '',"artist":'' @ art @ str '',"album":'' @ alb @ str '',"artwork":'' @ version @
     str '',"positionSamples":'' @ pos @ str '',"durationSamples":'' @ dur @ str ''},''\<close>

definition status_line8 :: "cstring \<Rightarrow> cstring \<Rightarrow> cstring \<Rightarrow> cstring \<Rightarrow> cstring \<Rightarrow> cstring \<Rightarrow> cstring \<Rightarrow> cstring" where
  \<open>status_line8 act gen wd hgt dissolve rdy fld =
     str ''"photo":{"active":'' @ act @ str '',"generation":'' @ gen @ str '',"width":'' @ wd @ str '',"height":'' @ hgt @
     str '',"dissolve":'' @ dissolve @ str '',"ready":'' @ rdy @ str '',"failed":'' @ fld @ str ''},''\<close>

definition status_line9 :: "cstring \<Rightarrow> cstring \<Rightarrow> cstring \<Rightarrow> cstring \<Rightarrow> cstring \<Rightarrow> cstring \<Rightarrow> cstring \<Rightarrow> cstring" where
  \<open>status_line9 act gen cmd share_url frc rte sk =
     str ''"playback":{"active":'' @ act @ str '',"generation":'' @ gen @ str '',"command":'' @ cmd @ str '',"url":'' @ share_url @
     str '',"fraction":'' @ frc @ str '',"rate":'' @ rte @ str '',"seek":'' @ sk @ str ''},''\<close>

definition status_line10 :: "cstring \<Rightarrow> cstring \<Rightarrow> cstring \<Rightarrow> cstring \<Rightarrow> cstring \<Rightarrow> cstring \<Rightarrow> cstring" where
  \<open>status_line10 mdns raop pair audio conn device =
     str ''"status":{"mdns":"'' @ mdns @ str ''","raop":"'' @ raop @ str ''","pair":"'' @ pair @ str ''","audio":'' @ audio @
     str '',"connected":'' @ conn @ str '',"device":'' @ device @ str '',''\<close>

definition status_line11 :: "cstring \<Rightarrow> cstring \<Rightarrow> cstring \<Rightarrow> cstring \<Rightarrow> cstring \<Rightarrow> cstring" where
  \<open>status_line11 codec srate detail last_error logs =
     str ''"codec":'' @ codec @ str '',"rate":"'' @ srate @ str ''","buffer":"adaptive","detail":"'' @ detail @ str ''","lastError":'' @ last_error @
     str ''},"logs":'' @ logs @ str ''}''\<close>

text \<open>A quoted field: what \<open>airtizen_json_quote\<close> leaves in its buffer.\<close>

definition quote_field :: "nat \<Rightarrow> cstring \<Rightarrow> cstring option" where
  "quote_field capacity text = map_option snd (airtizen_json_quote capacity (Some text))"

definition status_service :: "'m runtime \<Rightarrow> cstring" where
  "status_service rt = (if rt_started rt then str ''running'' else if rt_error rt \<noteq> [] then str ''failed'' else str ''offline'')"

definition status_audio :: "airtizen_core_state \<Rightarrow> cstring" where
  "status_audio st = (if cs_audio st \<noteq> [] then cs_audio st else str ''closed'')"

definition status_codec :: "airtizen_core_state \<Rightarrow> cstring" where
  "status_codec st = (if cs_codec st \<noteq> [] then cs_codec st else str ''AAC-ELD'')"

definition status_error :: "'m runtime \<Rightarrow> cstring" where
  "status_error rt = (if rt_error rt \<noteq> [] then rt_error rt else cs_last_error (g_state (rc_core (rt_receiver rt))))"

definition status_detail :: "'m runtime \<Rightarrow> cstring" where
  "status_detail rt = (if rt_error rt \<noteq> [] then str ''Receiver startup failed. Open diagnostics.''
     else if rt_started rt then str ''Receiver running. Open AirPlay on your Apple device.'' else str ''Receiver stopped.'')"

definition status_airplay :: "'m runtime \<Rightarrow> cstring" where
  "status_airplay rt = (if rt_error rt \<noteq> [] then str ''failed'' else if cs_connected (g_state (rc_core (rt_receiver rt))) then str ''connected''
     else if rt_started rt then str ''advertising'' else str ''offline'')"

definition airtizen_runtime_status_json :: "(cdouble \<Rightarrow> cstring) \<Rightarrow> build \<Rightarrow> 'm runtime \<Rightarrow> cstring option" where
  "airtizen_runtime_status_json g_text b rt = do {
     let r = rt_receiver rt;
     let st = airtizen_core_snapshot (rc_core r);
     let vs = airtizen_video_snapshot (rc_video r);
     let pb = airtizen_playback_snapshot (rc_playback r);
     let ph = airtizen_photo_snapshot (rc_photo r);
     let mt = airtizen_metadata_snapshot (rc_metadata r);
     ttl \<leftarrow> quote_field 1540 (title mt);
     art \<leftarrow> quote_field 1540 (artist mt);
     alb \<leftarrow> quote_field 1540 (album mt);
     share_url \<leftarrow> quote_field 12300 (url pb);
     mime \<leftarrow> quote_field 500 (vs_mime vs);
     let mdns = airtizen_mdns_is_running (rc_mdns r);
     receiver \<leftarrow> quote_field 300 (rt_name rt);
     device \<leftarrow> quote_field 800 (cs_device st);
     err \<leftarrow> quote_field 800 (status_error rt);
     audio \<leftarrow> quote_field 200 (status_audio st);
     codec \<leftarrow> quote_field 128 (status_codec st);
     logs \<leftarrow> airtizen_core_logs_json 10000 (rc_core r);
     let profile = airtizen_discovery_profile (rc_mdns r);
     Some (fit 32768 (
       status_line1 (status_service rt) receiver @
       status_line2 profile (airtizen_discovery_model (rc_mdns r)) (airtizen_discovery_features_txt (rc_mdns r))
         (c_bool (profile = str ''uxplay-test'')) @
       status_line3 (audio_output_name b) @
       status_line4 (status_airplay rt) (c_bool mdns) (c_bool (cs_connected st)) device err @
       status_line5 audio (u_text (cs_sample_rate st)) (llu_text (cs_audio_bytes st)) @
       status_line6 (c_bool (vs_available vs)) (u_text (vs_generation vs)) (llu_text (of_nat (vs_start vs))) (llu_text (of_nat (vs_latest vs)))
         (u_text (vs_width vs)) (u_text (vs_height vs)) mime (llu_text (cs_video_frames st)) @
       status_line7 ttl art alb (u_text (artwork_version mt)) (u_text (progress mt)) (u_text (total mt)) @
       status_line8 (c_bool (ps_active ph)) (u_text (ps_generation ph)) (u_text (ps_width ph)) (u_text (ps_height ph))
         (c_bool (ps_dissolve ph)) (c_bool (ps_ready ph)) (c_bool (ps_failed ph)) @
       status_line9 (c_bool (active pb)) (u_text (generation pb)) (u_text (command pb)) share_url
         (g_text (fraction pb)) (g_text (rate pb)) (g_text (seek pb)) @
       status_line10 (if mdns then str ''advertising'' else str ''offline'') (if cs_running st then str ''listening'' else str ''offline'')
         (if cs_paired st then str ''verified'' else str ''idle'') audio (c_bool (cs_connected st)) device @
       status_line11 codec (u_text (cs_sample_rate st)) (status_detail rt) err (case logs of None \<Rightarrow> [] | Some l \<Rightarrow> l)))
   }"

section \<open>JSON\<close>

text \<open>Numbers of RFC 8259: sign, integer part without leading zeros, fraction, exponent.\<close>

definition digits :: "cstring \<Rightarrow> bool" where
  "digits d \<longleftrightarrow> d \<noteq> [] \<and> list_all (\<lambda>c. 48 \<le> c \<and> c \<le> 57) d"

definition json_number :: "cstring \<Rightarrow> bool" where
  "json_number n \<longleftrightarrow> (\<exists>sign ip fp ep. n = sign @ ip @ fp @ ep \<and> sign \<in> {[], str ''-''} \<and>
     digits ip \<and> (length ip > 1 \<longrightarrow> hd ip \<noteq> 48) \<and> (fp = [] \<or> (\<exists>d. digits d \<and> fp = str ''.'' @ d)) \<and>
     (ep = [] \<or> (\<exists>e s d. e \<in> {str ''e'', str ''E''} \<and> s \<in> {[], str ''+'', str ''-''} \<and> digits d \<and> ep = e @ s @ d)))"

fun commas :: "cstring list \<Rightarrow> cstring" where
  "commas [] = []"
| "commas [x] = x"
| "commas (x # y # xs) = x @ str '','' @ commas (y # xs)"

definition quoted :: "cstring \<Rightarrow> cstring" where
  \<open>quoted s = str ''"'' @ s @ str ''"''\<close>

definition json_member :: "string \<times> cstring \<Rightarrow> cstring" where
  "json_member m = quoted (str (fst m)) @ str '':'' @ snd m"

definition json_object :: "(string \<times> cstring) list \<Rightarrow> cstring" where
  "json_object ms = str ''{'' @ commas (map json_member ms) @ str ''}''"

inductive json :: "cstring \<Rightarrow> bool" where
  json_string: "json_value q = Some v \<Longrightarrow> json q"
| json_num: "json_number n \<Longrightarrow> json n"
| json_lit: "l \<in> {str ''true'', str ''false'', str ''null''} \<Longrightarrow> json l"
| json_array: "(\<And>x. x \<in> set xs \<Longrightarrow> json x) \<Longrightarrow> json (str ''['' @ commas xs @ str '']'')"
| json_obj: "distinct (map fst ms) \<Longrightarrow> (\<And>m. m \<in> set ms \<Longrightarrow> json_value (quoted (str (fst m))) = Some (str (fst m))) \<Longrightarrow>
    (\<And>m. m \<in> set ms \<Longrightarrow> json (snd m)) \<Longrightarrow> json (json_object ms)"

section \<open>The document is JSON\<close>

lemmas json_text = json_object_def json_member_def quoted_def str_def

lemma status_objects:
  "status_line2 p m f e = json_member (''discovery'', json_object [(''profile'', quoted p), (''model'', quoted m), (''features'', quoted f),
     (''implementedFeatures'', quoted AIRTIZEN_NATIVE_FEATURES_TXT), (''sourceVersion'', quoted AIRTIZEN_SOURCE_VERSION), (''experimental'', e)]) @ str '',''"
  "status_line3 ao = json_member (''capabilities'', json_object [(''audio'', str ''true''), (''mirroring'', str ''true''),
     (''videoStreaming'', str ''true''), (''photos'', str ''true''), (''photoCaching'', str ''true''), (''slideshow'', str ''false''), (''drm'', str ''false''),
     (''productionReady'', str ''false''), (''audioOutput'', quoted ao)]) @ str '',''"
  "status_line4 ap d c dev le = json_member (''protocols'', json_object [(''airplay'', json_object [(''enabled'', str ''true''), (''state'', quoted ap),
     (''discoverable'', d), (''connected'', c), (''device'', dev), (''lastError'', le)])]) @ str '',''"
  "status_line5 au r b = json_member (''audio'', json_object [(''state'', au), (''sampleRate'', r), (''bytesReceived'', b)]) @ str '',''"
  "status_line6 v1 v2 v3 v4 v5 v6 v7 v8 = json_member (''video'', json_object [(''available'', v1), (''generation'', v2), (''start'', v3),
     (''latest'', v4), (''width'', v5), (''height'', v6), (''mime'', v7), (''framesReceived'', v8)]) @ str '',''"
  "status_line7 n1 n2 n3 n4 n5 n6 = json_member (''nowPlaying'', json_object [(''title'', n1), (''artist'', n2), (''album'', n3), (''artwork'', n4),
     (''positionSamples'', n5), (''durationSamples'', n6)]) @ str '',''"
  "status_line8 q1 q2 q3 q4 q5 q6 q7 = json_member (''photo'', json_object [(''active'', q1), (''generation'', q2), (''width'', q3), (''height'', q4),
     (''dissolve'', q5), (''ready'', q6), (''failed'', q7)]) @ str '',''"
  "status_line9 k1 k2 k3 k4 k5 k6 k7 = json_member (''playback'', json_object [(''active'', k1), (''generation'', k2), (''command'', k3), (''url'', k4),
     (''fraction'', k5), (''rate'', k6), (''seek'', k7)]) @ str '',''"
  by (simp_all add: json_text status_line2_def status_line3_def status_line4_def status_line5_def status_line6_def status_line7_def
      status_line8_def status_line9_def)

lemma status_ends:
  "status_line1 s rn @ rest = str ''{'' @ json_member (''ok'', str ''true'') @ str '','' @ json_member (''service'', quoted s) @ str '','' @
     json_member (''receiverName'', rn) @ str '','' @ rest"
  "status_line10 s1 s2 s3 s4 s5 s6 @ status_line11 s7 s8 s9 s10 lg = json_member (''status'', json_object [(''mdns'', quoted s1), (''raop'', quoted s2),
     (''pair'', quoted s3), (''audio'', s4), (''connected'', s5), (''device'', s6), (''codec'', s7), (''rate'', quoted s8),
     (''buffer'', quoted (str ''adaptive'')), (''detail'', quoted s9), (''lastError'', s10)]) @ str '','' @ json_member (''logs'', lg) @ str ''}''"
  by (simp_all add: json_text status_line1_def status_line10_def status_line11_def)

definition plain :: "cstring \<Rightarrow> bool" where
  "plain s = list_all (\<lambda>c. 32 \<le> c \<and> c \<noteq> 34 \<and> c \<noteq> 92) s"

lemma plain_value: "plain s \<Longrightarrow> json_value (quoted s) = Some s"
proof -
  assume "plain s"
  then have "decodes s s"
    by (induction s) (auto simp: plain_def intro: decodes_append [of "[_]" "[_]", simplified] decodes_plain)
  from json_value_quoted [OF this] show ?thesis by (simp add: quoted_def str_def)
qed

lemma json_plain: "plain s \<Longrightarrow> json (quoted s)"
  using plain_value json_string by blast

lemma json_bool: "json (c_bool b)"
  by (simp add: c_bool_def json_lit)

lemma dec_nat_digits: "digits (dec_nat n) \<and> (n \<ge> 1 \<longrightarrow> hd (dec_nat n) \<noteq> 48) \<and> (n < 10 \<longrightarrow> length (dec_nat n) = 1)"
proof (induction n rule: dec_nat.induct)
  case (1 n)
  have d: "(48::byte) \<le> of_nat (48 + k) \<and> (of_nat (48 + k) :: byte) \<le> 57 \<and> ((of_nat (48 + k) :: byte) = 48 \<longleftrightarrow> k = 0)" if "k < 10" for k
    using that by (simp add: word_le_nat_alt word_unat_eq_iff unat_of_nat_byte del: of_nat_add of_nat_numeral)
  show ?case
  proof (cases "n < 10")
    case True
    then show ?thesis using d [of n] by (subst (1 2 3) dec_nat.simps) (simp add: digits_def del: of_nat_add)
  next
    case False
    have "dec_nat (n div 10) \<noteq> []" by (rule dec_nat_nonempty)
    then show ?thesis using 1 [OF False] False d [of "n mod 10"]
      by (subst (1 2 3) dec_nat.simps) (simp add: digits_def del: of_nat_add)
  qed
qed

lemma json_dec_nat: "json (dec_nat n)"
proof -
  have "length (dec_nat n) > 1 \<longrightarrow> hd (dec_nat n) \<noteq> 48" using dec_nat_digits [of n] by (cases "n = 0") auto
  then have "json_number (dec_nat n)" unfolding json_number_def using dec_nat_digits [of n]
    by - (rule exI [of _ "[]"], rule exI [of _ "dec_nat n"], rule exI [of _ "[]"], rule exI [of _ "[]"], simp)
  then show ?thesis by (rule json_num)
qed

lemma json_numbers: "json (u_text x)" "json (llu_text y)"
  by (simp_all add: u_text_def llu_text_def json_dec_nat)

lemma quote_field_fits:
  assumes "6 * length s + 3 \<le> capacity"
  shows "\<exists>q. quote_field capacity s = Some q \<and> length q < capacity \<and> json q"
  using json_quote_fits [OF assms] by (auto simp: quote_field_def intro: json_string)

lemma quote_field_default:
  assumes "length s \<le> n" "length d \<le> n" "6 * n + 3 \<le> capacity"
  shows "\<exists>q. quote_field capacity (if s \<noteq> [] then s else d) = Some q \<and> length q < capacity \<and> json q"
  using quote_field_fits [of s capacity] quote_field_fits [of d capacity] assms by (cases "s = []") auto

text \<open>A URL needs no escape, so its quoted form is two bytes longer than the URL.\<close>

lemma quote_loop_url:
  "list_all url_char p \<Longrightarrow> length out + length p + 2 \<le> capacity \<Longrightarrow> quote_loop capacity p out = Some (Some (out @ p))"
proof (induction p arbitrary: out)
  case (Cons c p)
  then have "\<not> c < 33" "\<not> 126 < c" "c \<noteq> 34" "c \<noteq> 92" by (simp_all add: url_char_def)
  then have "\<not> c \<ge> 128" "encoded c = [c]" by (auto simp: encoded_def word_less_nat_alt word_le_nat_alt)
  then show ?case using Cons by (simp add: quote_loop.simps(2) put_def)
qed (simp add: quote_loop.simps(1))

lemma quote_field_url:
  assumes "list_all url_char u" "length u \<le> 2048"
  shows "\<exists>q. quote_field 12300 u = Some q \<and> length q \<le> 2050 \<and> json q"
proof -
  from assms have "quote_loop 12300 u [34] = Some (Some ([34] @ u))" by (intro quote_loop_url) simp_all
  then have "quote_field 12300 u = Some ([34] @ u @ [34])"
    using assms by (simp add: quote_field_def airtizen_json_quote_def put_def)
  moreover obtain q where "quote_field 12300 u = Some q" "json q" using quote_field_fits [of u 12300] assms(2) by auto
  ultimately show ?thesis using assms(2) by auto
qed

lemma joined_commas: "joined True qs = commas qs"
proof (induction qs rule: commas.induct)
  case (3 x y xs)
  then show ?case by (simp add: joined_def)
qed (simp_all add: joined_def)

lemma logs_json:
  assumes "core_inv c"
  shows "\<exists>l. airtizen_core_logs_json 10000 c = Some (Some l) \<and> length l < 10000 \<and> json l"
proof -
  obtain k out where o: "airtizen_core_logs_json 10000 c = Some (Some out)" "length out + 1 \<le> 10000"
    "out = str ''['' @ commas (map quoted_line (take k (log_lines c))) @ str '']''"
    "\<forall>l \<in> set (log_lines c). json_value (quoted_line l) = Some (sanitize l)"
    using logs_json_cases [OF assms, of 10000] by (auto simp: joined_commas)
  have "json (quoted_line l)" if "l \<in> set (take k (log_lines c))" for l
    using o(4) in_set_takeD [OF that] by (auto intro: json_string)
  then have "json out" unfolding o(3) by (intro json_array) auto
  then show ?thesis using o(1,2) by auto
qed

lemma plain_str: "list_all (\<lambda>c. (32::nat) \<le> of_char c \<and> of_char c \<noteq> (34::nat) \<and> of_char c \<noteq> (92::nat)) s \<Longrightarrow> plain (str s)"
  by (auto simp: plain_def str_def list_all_iff word_le_nat_alt word_unat_eq_iff)

lemma json_objectI:
  assumes "distinct (map fst ms)" "list_all (\<lambda>m. plain (str (fst m))) ms" "list_all (\<lambda>m. json (snd m)) ms"
  shows "json (json_object ms)"
  using assms by (intro json_obj) (auto simp: list_all_iff plain_value)

text \<open>The lengths of the lines, from the lengths of what they hold.\<close>

lemma status_lengths:
  "length (status_line1 a b) \<le> length a + length b + 200"
  "length (status_line2 a b c d) \<le> length a + length b + length c + length d + 200"
  "length (status_line3 a) \<le> length a + 200"
  "length (status_line4 a b c d e) \<le> length a + length b + length c + length d + length e + 200"
  "length (status_line5 a b c) \<le> length a + length b + length c + 200"
  "length (status_line6 a b c d e f g h) \<le> length a + length b + length c + length d + length e + length f + length g + length h + 200"
  "length (status_line7 a b c d e f) \<le> length a + length b + length c + length d + length e + length f + 200"
  "length (status_line8 a b c d e f g) \<le> length a + length b + length c + length d + length e + length f + length g + 200"
  "length (status_line9 a b c d e f g) \<le> length a + length b + length c + length d + length e + length f + length g + 200"
  "length (status_line10 a b c d e f) \<le> length a + length b + length c + length d + length e + length f + 200"
  "length (status_line11 a b c d e) \<le> length a + length b + length c + length d + length e + 200"
  by (simp_all add: status_line1_def status_line2_def status_line3_def status_line4_def status_line5_def status_line6_def
      status_line7_def status_line8_def status_line9_def status_line10_def status_line11_def
      AIRTIZEN_NATIVE_FEATURES_TXT_def AIRTIZEN_SOURCE_VERSION_def)

lemma number_lengths: "length (u_text x) \<le> 10" "length (llu_text y) \<le> 20" "length (c_bool b) \<le> 5"
proof -
  have "unat x < 10 ^ Suc 9" by (rule less_le_trans [OF unat_u32_lt]) simp
  then show "length (u_text x) \<le> 10" unfolding u_text_def using length_dec_nat [of _ 9] by simp
  have "unat y < 10 ^ Suc 19" by (rule less_le_trans [OF unat_u64_lt]) simp
  then show "length (llu_text y) \<le> 20" unfolding llu_text_def using length_dec_nat [of _ 19] by simp
  show "length (c_bool b) \<le> 5" by (simp add: c_bool_def)
qed

lemma discovery_texts:
  "plain (airtizen_discovery_profile md) \<and> length (airtizen_discovery_profile md) \<le> 20"
  "plain (airtizen_discovery_model md) \<and> length (airtizen_discovery_model md) \<le> 20"
  "plain (airtizen_discovery_features_txt md) \<and> length (airtizen_discovery_features_txt md) \<le> 20"
  by (auto simp: airtizen_discovery_profile_def airtizen_discovery_model_def selected_model_def airtizen_discovery_features_txt_def
      selected_features_txt_def AIRTIZEN_NATIVE_FEATURES_TXT_def AIRTIZEN_UXPLAY_TEST_FEATURES_TXT_def intro!: plain_str)

lemma status_texts:
  "plain (status_detail rt) \<and> length (status_detail rt) \<le> 60"
  "plain (status_airplay rt) \<and> length (status_airplay rt) \<le> 20"
  "plain (audio_output_name bd) \<and> length (audio_output_name bd) \<le> 20"
  "plain (u_text x)" "plain AIRTIZEN_NATIVE_FEATURES_TXT" "plain AIRTIZEN_SOURCE_VERSION"
proof -
  show "plain (u_text x)" using dec_nat_digits [of "unat x"]
    by (auto simp: u_text_def digits_def plain_def list_all_iff word_le_nat_alt) 
qed (auto simp: status_detail_def status_airplay_def audio_output_name_def AIRTIZEN_NATIVE_FEATURES_TXT_def AIRTIZEN_SOURCE_VERSION_def
      intro!: plain_str split: build.split)

section \<open>Every status is a complete document\<close>

text \<open>What is used of \<open>printf("%.9g")\<close>: a finite number gives a decimal number of at most 16 characters
  (sign, nine digits, point, and an exponent of up to five characters).\<close>

definition g_text_ok :: "(cdouble \<Rightarrow> cstring) \<Rightarrow> bool" where
  "g_text_ok g_text \<longleftrightarrow> (\<forall>x. isfinite x \<longrightarrow> json_number (g_text x) \<and> length (g_text x) \<le> 16)"

lemma playback_numbers:
  assumes "playback_inv pb"
  shows "isfinite (fraction pb)" "isfinite (rate pb)" "isfinite (seek pb)"
  using assms by (auto simp: playback_inv_def in_range_iff isfinite_def)

lemma g_text_json:
  assumes "g_text_ok g_text" "isfinite x"
  shows "json (g_text x)" "length (g_text x) \<le> 16"
  using assms by (auto simp: g_text_ok_def intro: json_num)

lemma status_service_ok: "plain (status_service rt) \<and> length (status_service rt) \<le> 20"
  by (auto simp: status_service_def intro!: plain_str)

definition status_members :: "string list" where
  "status_members = [''ok'', ''service'', ''receiverName'', ''discovery'', ''capabilities'', ''protocols'', ''audio'', ''video'',
     ''nowPlaying'', ''photo'', ''playback'', ''status'', ''logs'']"

lemma plain_keys: "plain (str k)" if "k \<in> set (status_members @ [''profile'', ''model'', ''features'', ''implementedFeatures'', ''sourceVersion'', ''experimental'',
   ''mirroring'', ''videoStreaming'', ''photos'', ''photoCaching'', ''slideshow'', ''drm'', ''productionReady'', ''audioOutput'',
   ''airplay'', ''enabled'', ''state'', ''discoverable'', ''connected'', ''device'', ''lastError'', ''sampleRate'', ''bytesReceived'',
   ''available'', ''generation'', ''start'', ''latest'', ''width'', ''height'', ''mime'', ''framesReceived'', ''title'', ''artist'', ''album'', ''artwork'',
   ''positionSamples'', ''durationSamples'', ''active'', ''dissolve'', ''ready'', ''failed'', ''command'', ''url'', ''fraction'', ''rate'', ''seek'',
   ''mdns'', ''raop'', ''pair'', ''codec'', ''buffer'', ''detail''])"
  using that by (auto simp: status_members_def intro!: plain_str)

lemma document_json:
  assumes j: "json rn" "json d" "json e" "json au" "json co" "json mi" "json t1" "json t2" "json t3" "json su" "json f1" "json f2" "json f3" "json lg"
    and p: "plain sv" "plain pr" "plain mo" "plain fe" "plain ao" "plain ap" "plain s1" "plain s2" "plain s3" "plain de"
  shows "\<exists>ms. json (json_object ms) \<and> map fst ms = status_members \<and> map_of ms ''service'' = Some (quoted sv) \<and>
    map_of ms ''receiverName'' = Some rn \<and> map_of ms ''logs'' = Some lg \<and> json_object ms =
      status_line1 sv rn @ status_line2 pr mo fe (c_bool b1) @ status_line3 ao @ status_line4 ap (c_bool b2) (c_bool b3) d e @
      status_line5 au (u_text n1) (llu_text n2) @ status_line6 (c_bool b4) (u_text v2) (llu_text v3) (llu_text v4) (u_text v5) (u_text v6) mi (llu_text v8) @
      status_line7 t1 t2 t3 (u_text m4) (u_text m5) (u_text m6) @
      status_line8 (c_bool b5) (u_text q2) (u_text q3) (u_text q4) (c_bool b6) (c_bool b7) (c_bool b8) @
      status_line9 (c_bool b9) (u_text k2) (u_text k3) su f1 f2 f3 @
      status_line10 s1 s2 s3 au (c_bool b10) d @ status_line11 co (u_text sr) de e lg"
proof -
  note atoms = j json_numbers json_plain p json_bool status_texts(4-6) json_lit
  have ad: "plain (str ''adaptive'')" by (rule plain_str) simp
  let ?discovery = "json_object [(''profile'', quoted pr), (''model'', quoted mo), (''features'', quoted fe),
     (''implementedFeatures'', quoted AIRTIZEN_NATIVE_FEATURES_TXT), (''sourceVersion'', quoted AIRTIZEN_SOURCE_VERSION), (''experimental'', c_bool b1)]"
  let ?capabilities = "json_object [(''audio'', str ''true''), (''mirroring'', str ''true''),
     (''videoStreaming'', str ''true''), (''photos'', str ''true''), (''photoCaching'', str ''true''), (''slideshow'', str ''false''), (''drm'', str ''false''),
     (''productionReady'', str ''false''), (''audioOutput'', quoted ao)]"
  let ?airplay = "json_object [(''enabled'', str ''true''), (''state'', quoted ap),
     (''discoverable'', c_bool b2), (''connected'', c_bool b3), (''device'', d), (''lastError'', e)]"
  let ?audio = "json_object [(''state'', au), (''sampleRate'', u_text n1), (''bytesReceived'', llu_text n2)]"
  let ?video = "json_object [(''available'', c_bool b4), (''generation'', u_text v2), (''start'', llu_text v3),
     (''latest'', llu_text v4), (''width'', u_text v5), (''height'', u_text v6), (''mime'', mi), (''framesReceived'', llu_text v8)]"
  let ?playing = "json_object [(''title'', t1), (''artist'', t2), (''album'', t3), (''artwork'', u_text m4), (''positionSamples'', u_text m5), (''durationSamples'', u_text m6)]"
  let ?photo = "json_object [(''active'', c_bool b5), (''generation'', u_text q2), (''width'', u_text q3), (''height'', u_text q4),
     (''dissolve'', c_bool b6), (''ready'', c_bool b7), (''failed'', c_bool b8)]"
  let ?playback = "json_object [(''active'', c_bool b9), (''generation'', u_text k2), (''command'', u_text k3), (''url'', su), (''fraction'', f1), (''rate'', f2), (''seek'', f3)]"
  let ?status = "json_object [(''mdns'', quoted s1), (''raop'', quoted s2),
     (''pair'', quoted s3), (''audio'', au), (''connected'', c_bool b10), (''device'', d), (''codec'', co), (''rate'', quoted (u_text sr)),
     (''buffer'', quoted (str ''adaptive'')), (''detail'', quoted de), (''lastError'', e)]"
  let ?ms = "[(''ok'', str ''true''), (''service'', quoted sv), (''receiverName'', rn), (''discovery'', ?discovery), (''capabilities'', ?capabilities),
     (''protocols'', json_object [(''airplay'', ?airplay)]), (''audio'', ?audio), (''video'', ?video), (''nowPlaying'', ?playing), (''photo'', ?photo),
     (''playback'', ?playback), (''status'', ?status), (''logs'', lg)]"
  note keys = plain_keys [unfolded status_members_def, simplified]
  have parts: "json ?discovery" "json ?capabilities" "json ?airplay" "json ?audio" "json ?video" "json ?playing" "json ?photo" "json ?playback" "json ?status"
    by (rule json_objectI; simp add: atoms ad keys)+
  have pr: "json (json_object [(''airplay'', ?airplay)])" by (rule json_objectI) (simp_all add: parts(3) keys)
  have "json (json_object ?ms)" by (rule json_objectI) (simp_all add: parts pr atoms keys)
  moreover have "json_object ?ms = status_line1 sv rn @ status_line2 pr mo fe (c_bool b1) @ status_line3 ao @ status_line4 ap (c_bool b2) (c_bool b3) d e @
      status_line5 au (u_text n1) (llu_text n2) @ status_line6 (c_bool b4) (u_text v2) (llu_text v3) (llu_text v4) (u_text v5) (u_text v6) mi (llu_text v8) @
      status_line7 t1 t2 t3 (u_text m4) (u_text m5) (u_text m6) @
      status_line8 (c_bool b5) (u_text q2) (u_text q3) (u_text q4) (c_bool b6) (c_bool b7) (c_bool b8) @
      status_line9 (c_bool b9) (u_text k2) (u_text k3) su f1 f2 f3 @
      status_line10 s1 s2 s3 au (c_bool b10) d @ status_line11 co (u_text sr) de e lg"
    unfolding status_ends status_objects json_object_def [of ?ms] by simp
  ultimately show ?thesis by (intro exI [of _ ?ms]) (simp add: status_members_def)
qed

lemma document_length:
  assumes "length rn < 300" "length d < 800" "length e < 800" "length au < 200" "length co < 128" "length mi < 500"
    "length t1 < 1540" "length t2 < 1540" "length t3 < 1540" "length su \<le> 2050" "length f1 \<le> 16" "length f2 \<le> 16" "length f3 \<le> 16"
    "length lg < 10000" "length sv \<le> 20" "length pr \<le> 20" "length mo \<le> 20" "length fe \<le> 20" "length ao \<le> 20" "length ap \<le> 20"
    "length s1 \<le> 20" "length s2 \<le> 20" "length s3 \<le> 20" "length de \<le> 60"
  shows "length (status_line1 sv rn @ status_line2 pr mo fe (c_bool b1) @ status_line3 ao @ status_line4 ap (c_bool b2) (c_bool b3) d e @
      status_line5 au (u_text n1) (llu_text n2) @ status_line6 (c_bool b4) (u_text v2) (llu_text v3) (llu_text v4) (u_text v5) (u_text v6) mi (llu_text v8) @
      status_line7 t1 t2 t3 (u_text m4) (u_text m5) (u_text m6) @
      status_line8 (c_bool b5) (u_text q2) (u_text q3) (u_text q4) (c_bool b6) (c_bool b7) (c_bool b8) @
      status_line9 (c_bool b9) (u_text k2) (u_text k3) su f1 f2 f3 @
      status_line10 s1 s2 s3 au (c_bool b10) d @ status_line11 co (u_text sr) de e lg) < 32768"
proof -
  note n = number_lengths(1) number_lengths(2) number_lengths(3)
  have "length (status_line1 sv rn) \<le> 520" using status_lengths(1) [of sv rn] assms by linarith
  moreover have "length (status_line2 pr mo fe (c_bool b1)) \<le> 300" using status_lengths(2) [of pr mo fe "c_bool b1"] n(3) [of b1] assms by linarith
  moreover have "length (status_line3 ao) \<le> 300" using status_lengths(3) [of ao] assms by linarith
  moreover have "length (status_line4 ap (c_bool b2) (c_bool b3) d e) \<le> 1900"
    using status_lengths(4) [of ap "c_bool b2" "c_bool b3" d e] n(3) [of b2] n(3) [of b3] assms by linarith
  moreover have "length (status_line5 au (u_text n1) (llu_text n2)) \<le> 500"
    using status_lengths(5) [of au "u_text n1" "llu_text n2"] n(1) [of n1] n(2) [of n2] assms by linarith
  moreover have "length (status_line6 (c_bool b4) (u_text v2) (llu_text v3) (llu_text v4) (u_text v5) (u_text v6) mi (llu_text v8)) \<le> 900"
    using status_lengths(6) [of "c_bool b4" "u_text v2" "llu_text v3" "llu_text v4" "u_text v5" "u_text v6" mi "llu_text v8"]
      n(3) [of b4] n(1) [of v2] n(2) [of v3] n(2) [of v4] n(1) [of v5] n(1) [of v6] n(2) [of v8] assms by linarith
  moreover have "length (status_line7 t1 t2 t3 (u_text m4) (u_text m5) (u_text m6)) \<le> 5000"
    using status_lengths(7) [of t1 t2 t3 "u_text m4" "u_text m5" "u_text m6"] n(1) [of m4] n(1) [of m5] n(1) [of m6] assms by linarith
  moreover have "length (status_line8 (c_bool b5) (u_text q2) (u_text q3) (u_text q4) (c_bool b6) (c_bool b7) (c_bool b8)) \<le> 300"
    using status_lengths(8) [of "c_bool b5" "u_text q2" "u_text q3" "u_text q4" "c_bool b6" "c_bool b7" "c_bool b8"]
      n(3) [of b5] n(1) [of q2] n(1) [of q3] n(1) [of q4] n(3) [of b6] n(3) [of b7] n(3) [of b8] by linarith
  moreover have "length (status_line9 (c_bool b9) (u_text k2) (u_text k3) su f1 f2 f3) \<le> 2400"
    using status_lengths(9) [of "c_bool b9" "u_text k2" "u_text k3" su f1 f2 f3] n(3) [of b9] n(1) [of k2] n(1) [of k3] assms by linarith
  moreover have "length (status_line10 s1 s2 s3 au (c_bool b10) d) \<le> 1300"
    using status_lengths(10) [of s1 s2 s3 au "c_bool b10" d] n(3) [of b10] assms by linarith
  moreover have "length (status_line11 co (u_text sr) de e lg) \<le> 11300"
    using status_lengths(11) [of co "u_text sr" de e lg] n(1) [of sr] assms by linarith
  ultimately show ?thesis unfolding length_append by linarith
qed

lemma status_document:
  assumes inv: "runtime_inv rt" and g: "g_text_ok g_text"
  shows "\<exists>ms rn. airtizen_runtime_status_json g_text bd rt = Some (json_object ms) \<and> json (json_object ms) \<and> length (json_object ms) < 32768 \<and>
    map fst ms = status_members \<and> map_of ms ''service'' = Some (quoted (status_service rt)) \<and>
    map_of ms ''receiverName'' = Some rn \<and> json_value rn = Some (sanitize (rt_name rt)) \<and>
    map_of ms ''logs'' = (case airtizen_core_logs_json 10000 (rc_core (rt_receiver rt)) of Some l \<Rightarrow> l | None \<Rightarrow> None)"
proof -
  let ?r = "rt_receiver rt"
  let ?st = "g_state (rc_core ?r)" and ?vs = "v_state (rc_video ?r)" and ?pb = "rc_playback ?r" and ?ph = "ph_state (rc_photo ?r)"
    and ?mt = "airtizen_metadata_snapshot (rc_metadata ?r)"
  from inv have r: "receiver_inv ?r" by (simp add: runtime_inv_def)
  note parts = receiver_parts [OF r]
  note len = core_inv_lengths [OF parts(1)]
  have mt: "length (title ?mt) \<le> 255" "length (artist ?mt) \<le> 255" "length (album ?mt) \<le> 255"
    using parts(2) by (simp_all add: metadata_inv_def metadata_fields_ok_def airtizen_metadata_snapshot_def)
  have vm: "length (vs_mime ?vs) < 80" using parts(3) by (simp add: video_inv_def)
  have ur: "list_all url_char (url ?pb)" "length (url ?pb) \<le> 2048" using parts(5) by (auto simp: playback_inv_def url_grammar_def)
  have nm: "length (rt_name rt) \<le> 48" "length (rt_error rt) < 80" using inv by (simp_all add: runtime_inv_def)
  obtain t1 where t1: "quote_field 1540 (title ?mt) = Some t1" "length t1 < 1540" "json t1" using quote_field_fits [of "title ?mt" 1540] mt by auto
  obtain t2 where t2: "quote_field 1540 (artist ?mt) = Some t2" "length t2 < 1540" "json t2" using quote_field_fits [of "artist ?mt" 1540] mt by auto
  obtain t3 where t3: "quote_field 1540 (album ?mt) = Some t3" "length t3 < 1540" "json t3" using quote_field_fits [of "album ?mt" 1540] mt by auto
  obtain su where su: "quote_field 12300 (url ?pb) = Some su" "length su \<le> 2050" "json su" using quote_field_url [OF ur] by auto
  obtain mi where mi: "quote_field 500 (vs_mime ?vs) = Some mi" "length mi < 500" "json mi" using quote_field_fits [of "vs_mime ?vs" 500] vm by auto
  have "6 * length (rt_name rt) + 3 \<le> 300" using nm by simp
  from json_quote_fits [OF this] obtain rn where rn: "quote_field 300 (rt_name rt) = Some rn" "length rn < 300" "json_value rn = Some (sanitize (rt_name rt))"
    by (auto simp: quote_field_def)
  obtain de where de: "quote_field 800 (cs_device ?st) = Some de" "length de < 800" "json de" using quote_field_fits [of "cs_device ?st" 800] len by auto
  have le: "length (status_error rt) \<le> 127" using len nm by (simp add: status_error_def)
  obtain er where er: "quote_field 800 (status_error rt) = Some er" "length er < 800" "json er"
    using quote_field_fits [of "status_error rt" 800] le by auto
  obtain au where au: "quote_field 200 (status_audio ?st) = Some au" "length au < 200" "json au"
    unfolding status_audio_def using quote_field_default [of "cs_audio ?st" 31 "str ''closed''" 200] len by auto
  obtain co where co: "quote_field 128 (status_codec ?st) = Some co" "length co < 128" "json co"
    unfolding status_codec_def using quote_field_default [of "cs_codec ?st" 15 "str ''AAC-ELD''" 128] len by auto
  obtain lg where lg: "airtizen_core_logs_json 10000 (rc_core ?r) = Some (Some lg)" "length lg < 10000" "json lg" using logs_json [OF parts(1)] by auto
  note nums = playback_numbers [OF parts(5)]
  note doubles = g_text_json [OF g nums(1)] g_text_json [OF g nums(2)] g_text_json [OF g nums(3)]
  let ?s1 = "if airtizen_mdns_is_running (rc_mdns ?r) then str ''advertising'' else str ''offline''"
  let ?s2 = "if cs_running ?st then str ''listening'' else str ''offline''" and ?s3 = "if cs_paired ?st then str ''verified'' else str ''idle''"
  have s: "plain ?s1" "plain ?s2" "plain ?s3" "length ?s1 \<le> 11" "length ?s2 \<le> 11" "length ?s3 \<le> 11" by (auto intro!: plain_str)
  define doc where "doc = status_line1 (status_service rt) rn @
       status_line2 (airtizen_discovery_profile (rc_mdns ?r)) (airtizen_discovery_model (rc_mdns ?r)) (airtizen_discovery_features_txt (rc_mdns ?r))
         (c_bool (airtizen_discovery_profile (rc_mdns ?r) = str ''uxplay-test'')) @
       status_line3 (audio_output_name bd) @
       status_line4 (status_airplay rt) (c_bool (airtizen_mdns_is_running (rc_mdns ?r))) (c_bool (cs_connected ?st)) de er @
       status_line5 au (u_text (cs_sample_rate ?st)) (llu_text (cs_audio_bytes ?st)) @
       status_line6 (c_bool (vs_available ?vs)) (u_text (vs_generation ?vs)) (llu_text (of_nat (vs_start ?vs))) (llu_text (of_nat (vs_latest ?vs)))
         (u_text (vs_width ?vs)) (u_text (vs_height ?vs)) mi (llu_text (cs_video_frames ?st)) @
       status_line7 t1 t2 t3 (u_text (artwork_version ?mt)) (u_text (progress ?mt)) (u_text (total ?mt)) @
       status_line8 (c_bool (ps_active ?ph)) (u_text (ps_generation ?ph)) (u_text (ps_width ?ph)) (u_text (ps_height ?ph))
         (c_bool (ps_dissolve ?ph)) (c_bool (ps_ready ?ph)) (c_bool (ps_failed ?ph)) @
       status_line9 (c_bool (active ?pb)) (u_text (generation ?pb)) (u_text (command ?pb)) su
         (g_text (fraction ?pb)) (g_text (rate ?pb)) (g_text (seek ?pb)) @
       status_line10 ?s1 ?s2 ?s3 au (c_bool (cs_connected ?st)) de @
       status_line11 co (u_text (cs_sample_rate ?st)) (status_detail rt) er lg"
  have eq: "airtizen_runtime_status_json g_text bd rt = Some (fit 32768 doc)"
    unfolding airtizen_runtime_status_json_def doc_def
    by (simp only: airtizen_core_snapshot_def airtizen_video_snapshot_def airtizen_playback_snapshot_def airtizen_photo_snapshot_def
        t1(1) t2(1) t3(1) su(1) mi(1) rn(1) de(1) er(1) au(1) co(1) lg(1) Let_def Option.bind.simps option.case)
  have "length doc < 32768" unfolding doc_def
    by (rule document_length) (use t1 t2 t3 su mi rn de er au co lg doubles s discovery_texts [of "rc_mdns ?r"] status_texts(1,2) [of rt] status_texts(3) [of bd]
        status_service_ok [of rt] in simp_all)
  then have "fit 32768 doc = doc" by (rule fit_id)
  moreover have "\<exists>ms. json (json_object ms) \<and> map fst ms = status_members \<and> map_of ms ''service'' = Some (quoted (status_service rt)) \<and>
    map_of ms ''receiverName'' = Some rn \<and> map_of ms ''logs'' = Some lg \<and> json_object ms = doc" unfolding doc_def
    by (rule document_json) (use t1 t2 t3 su mi json_string [OF rn(3)] de er au co lg doubles s discovery_texts [of "rc_mdns ?r"] status_texts(1,2) [of rt]
        status_texts(3) [of bd] status_service_ok [of rt] in simp_all)
  ultimately show ?thesis using \<open>length doc < 32768\<close> eq rn(3) lg(1) by auto
qed

section \<open>Properties\<close>

text \<open>C5: after every history of the receiver the status document is never cut
  off by its buffer: it is a JSON object with the documented members in order, all names distinct, for
  whatever bytes the network put into device names, titles and logs; its service member tells the
  state of the runtime, and a JSON reader finds the receiver name in it (with replacement characters
  for bytes that are not UTF-8).\<close>

theorem status_document_complete:
  fixes ops :: "'m runtime_op list"
  assumes "g_text_ok g_text"
  defines "rt \<equiv> fold runtime_step ops runtime_init"
  shows "\<exists>ms rn. airtizen_runtime_status_json g_text bd rt = Some (json_object ms) \<and> json (json_object ms) \<and>
    map fst ms = status_members \<and> map_of ms ''service'' = Some (quoted (status_service rt)) \<and>
    map_of ms ''receiverName'' = Some rn \<and> json_value rn = Some (sanitize (rt_name rt))"
  using status_document [OF runtime.run_inv [of ops] assms(1), of bd] unfolding rt_def by blast

text \<open>A printer of numbers that is exact on integers below a billion.\<close>

definition integer_text :: "cdouble \<Rightarrow> cstring" where
  "integer_text x = (case x of Fin q \<Rightarrow> (if q < 0 then str ''-'' else []) @ dec_nat (nat \<lfloor>\<bar>q\<bar>\<rfloor> mod 1000000000) | _ \<Rightarrow> str ''nan'')"

lemma integer_text_ok: "g_text_ok integer_text"
proof -
  have j: "json_number (sg @ dec_nat n)" if "sg \<in> {[], str ''-''}" for sg n
  proof -
    have "length (dec_nat n) > 1 \<longrightarrow> hd (dec_nat n) \<noteq> 48" using dec_nat_digits [of n] by (cases "n = 0") auto
    then show ?thesis unfolding json_number_def using that dec_nat_digits [of n]
      by - (rule exI [of _ sg], rule exI [of _ "dec_nat n"], rule exI [of _ "[]"], rule exI [of _ "[]"], simp)
  qed
  have "length (dec_nat (k mod 1000000000)) \<le> 15" "length (dec_nat (k mod 1000000000)) \<le> 16" for k
    using length_dec_nat [of "k mod 1000000000" 8] by simp_all
  then show ?thesis using j [of "[]"] j [of "str ''-''"]
    by (auto simp: g_text_ok_def isfinite_def integer_text_def intro: le_trans split: cdouble.splits)
qed

theorem status_document_complete_witness:
  "\<exists>ms rn. airtizen_runtime_status_json integer_text NativeClient (runtime_init :: unit runtime) = Some (json_object ms) \<and> json (json_object ms) \<and>
     map_of ms ''receiverName'' = Some rn \<and> json_value rn = Some (sanitize (str ''AirTizen TV''))"
  using status_document_complete [OF integer_text_ok, of NativeClient "[] :: unit runtime_op list"] by (auto simp: runtime_init_def)

end
