(* ===== verification/Control.thy ===== *)
theory Control
  imports Status "HOL-Library.Sublist"
begin

text \<open>
  The local control server (\<open>native/src/airtizen_control_http.c\<close>): reading one HTTP request from a
  socket, authenticating it, routing it to the components and answering it. The operations read and
  change the \<open>runtime\<close> of all components.

  Parameters: what the socket delivers and accepts, the time and the other surroundings of the
  runtime, whether \<open>malloc\<close> succeeds, the text of \<open>%.9g\<close>, and the conversions of \<open>sscanf\<close> that the C
  standard leaves open (numbers out of range) or that read a floating point number.

  The theory shows that every byte stream gets an answer without touching memory out of bounds,
  that the token comparison is equality, that without the token in the request nothing is
  changed and nothing but a fixed error body is sent, and that what is sent is always an initial part
  of one well-formed answer.
\<close>

section \<open>Pieces of the C library\<close>

fun strstr :: "cstring \<Rightarrow> cstring \<Rightarrow> nat option" where
  "strstr p [] = (if p = [] then Some 0 else None)"
| "strstr p (c # s) = (if strprefix p (c # s) then Some 0 else map_option Suc (strstr p s))"

definition isspace :: "byte \<Rightarrow> bool" where
  "isspace c \<longleftrightarrow> c = 32 \<or> (9 \<le> c \<and> c \<le> 13)"

text \<open>\<open>%\<close>\<open>n\<close>\<open>s\<close>: skip white space, then at most \<open>n\<close> other bytes, at least one.\<close>

definition scan_word :: "nat \<Rightarrow> cstring \<Rightarrow> (cstring \<times> cstring) option" where
  "scan_word n s = (let t = dropWhile isspace s; w = take n (takeWhile (\<lambda>c. \<not> isspace c) t)
     in if w = [] then None else Some (w, drop (length w) t))"

definition scan_lit :: "cstring \<Rightarrow> cstring \<Rightarrow> cstring option" where
  "scan_lit p s = (if strprefix p s then Some (drop (length p) s) else None)"

definition is_digit :: "byte \<Rightarrow> bool" where
  "is_digit c \<longleftrightarrow> 48 \<le> c \<and> c \<le> 57"

definition digits_value :: "cstring \<Rightarrow> nat" where
  "digits_value ds = fold (\<lambda>d n. 10 * n + (unat d - 48)) ds 0"

text \<open>An optionally signed decimal number: its text and what follows it.\<close>

definition scan_number :: "cstring \<Rightarrow> (cstring \<times> cstring) option" where
  "scan_number s =
     (let t = dropWhile isspace s; sign = (case t of c # _ \<Rightarrow> if c = 43 \<or> c = 45 then [c] else [] | [] \<Rightarrow> []);
          ds = takeWhile is_digit (drop (length sign) t)
      in if ds = [] then None else Some (sign @ ds, drop (length sign + length ds) t))"

text \<open>The conversions: a number in the range of its type has its value, for any other the standard says
  nothing and the library decides; \<open>lc_double\<close> is \<open>%lf\<close>.\<close>

record scan_lib =
  lc_uint :: "cstring \<Rightarrow> u32"
  lc_int :: "cstring \<Rightarrow> int"
  lc_ull :: "cstring \<Rightarrow> u64"
  lc_double :: "cstring \<Rightarrow> (cdouble \<times> cstring) option"

definition number_value :: "cstring \<Rightarrow> int" where
  "number_value t = (case t of c # ds \<Rightarrow> if c = 45 then - int (digits_value ds) else if c = 43 then int (digits_value ds) else int (digits_value t)
     | [] \<Rightarrow> 0)"

definition scan_u :: "scan_lib \<Rightarrow> cstring \<Rightarrow> (u32 \<times> cstring) option" where
  "scan_u lc s = map_option (\<lambda>(t, rest). (if 0 \<le> number_value t \<and> number_value t < 2 ^ 32 then of_int (number_value t) else lc_uint lc t, rest))
     (scan_number s)"

definition scan_d :: "scan_lib \<Rightarrow> cstring \<Rightarrow> (int \<times> cstring) option" where
  "scan_d lc s = map_option (\<lambda>(t, rest). (if - (2 ^ 31) \<le> number_value t \<and> number_value t < 2 ^ 31 then number_value t else lc_int lc t, rest))
     (scan_number s)"

definition scan_llu :: "scan_lib \<Rightarrow> cstring \<Rightarrow> (u64 \<times> cstring) option" where
  "scan_llu lc s = map_option (\<lambda>(t, rest). (if 0 \<le> number_value t \<and> number_value t < 2 ^ 64 then of_int (number_value t) else lc_ull lc t, rest))
     (scan_number s)"

section \<open>Token\<close>

definition token_char :: "byte \<Rightarrow> bool" where
  "token_char c \<longleftrightarrow> (48 \<le> c \<and> c \<le> 57) \<or> (97 \<le> c \<and> c \<le> 102)"

record control_module =
  ct_started :: bool
  ct_server_fd :: bool
  ct_stop :: bool
  ct_port :: u16
  ct_token :: cstring

definition control_init :: control_module where
  "control_init = \<lparr>ct_started = False, ct_server_fd = False, ct_stop = False, ct_port = 0, ct_token = []\<rparr>"

definition airtizen_control_http_set_token :: "cstring option \<Rightarrow> control_module \<Rightarrow> int \<times> control_module" where
  "airtizen_control_http_set_token token c =
     (case token of
        None \<Rightarrow> (-1, c)
      | Some t \<Rightarrow> if ct_started c \<or> length t \<noteq> 64 then (-1, c)
                 else if \<not> list_all token_char t then (-1, c)
                 else (0, c\<lparr>ct_token := t\<rparr>))"

text \<open>The comparison looks at every byte; the pointers are never null here.\<close>

definition token_equal :: "cstring \<Rightarrow> cstring \<Rightarrow> bool" where
  "token_equal token v =
     (if token = [] \<or> length v \<noteq> 64 then False
      else fold (\<lambda>i different. different OR (ucast (v ! i) XOR ucast (token ! i))) [0..<64] (0 :: u32) = 0)"

section \<open>Sending\<close>

text \<open>The outcome of one round of \<open>send_all\<close>: the socket does not become writable, \<open>send\<close> is interrupted,
  or it returns a count (which is never more than what it was offered).\<close>

datatype send_event = NotWritable | SendInterrupted | SendCount int

text \<open>Whether all was sent, and what was sent; a socket with no further outcome does not become writable.\<close>

fun send_all :: "send_event list \<Rightarrow> cstring \<Rightarrow> cstring \<Rightarrow> bool \<times> cstring \<times> send_event list" where
  "send_all es [] sent = (True, sent, es)"
| "send_all [] (b # bs) sent = (False, sent, [])"
| "send_all (e # es) (b # bs) sent =
     (case e of
        NotWritable \<Rightarrow> (False, sent, es)
      | SendInterrupted \<Rightarrow> send_all es (b # bs) sent
      | SendCount n \<Rightarrow>
          if n \<le> 0 then (False, sent, es)
          else let k = min (nat n) (min 16384 (length (b # bs)))
               in send_all es (drop k (b # bs)) (sent @ take k (b # bs)))"

record response =
  rs_status :: cstring
  rs_type :: cstring
  rs_origin :: cstring
  rs_generation :: u32
  rs_body :: cstring

abbreviation crlf :: cstring where "crlf \<equiv> [13, 10]"

definition response_head :: "response \<Rightarrow> cstring" where
  "response_head r =
     str ''HTTP/1.1 '' @ rs_status r @ crlf @ str ''Content-Type: '' @ rs_type r @ crlf @
     str ''Access-Control-Allow-Origin: '' @ rs_origin r @ crlf @ str ''Vary: Origin'' @ crlf @
     str ''Access-Control-Allow-Methods: GET, POST, OPTIONS'' @ crlf @
     str ''Access-Control-Allow-Headers: X-AirTizen-Control'' @ crlf @
     str ''Access-Control-Expose-Headers: X-AirTizen-Generation'' @ crlf @
     str ''X-AirTizen-Generation: '' @ dec_nat (unat (rs_generation r)) @ crlf @ str ''Cache-Control: no-store'' @ crlf @
     str ''X-Content-Type-Options: nosniff'' @ crlf @
     str ''Connection: close'' @ crlf @ str ''Content-Length: '' @ dec_nat (length (rs_body r)) @ crlf @ crlf"

text \<open>What the client receives.\<close>

definition respond_bytes :: "send_event list \<Rightarrow> response \<Rightarrow> cstring" where
  "respond_bytes es r =
     (let head = response_head r in
      if length head < 1024 then
        (case send_all es head [] of
           (True, sent, es1) \<Rightarrow> if rs_body r \<noteq> [] then fst (snd (send_all es1 (rs_body r) sent)) else sent
         | (False, sent, _) \<Rightarrow> sent)
      else [])"

definition respond :: "cstring \<Rightarrow> cstring \<Rightarrow> cstring \<Rightarrow> response" where
  "respond response_origin status body = \<lparr>rs_status = status, rs_type = str ''application/json; charset=utf-8'', rs_origin = response_origin,
     rs_generation = 0, rs_body = body\<rparr>"

section \<open>Reading the request\<close>

datatype recv_event = NotReadable | RecvFailed | Received "byte list"

text \<open>\<open>Inl\<close> is an answer that ends the connection, \<open>Inr\<close> the request with the position of its end.\<close>

definition failed_body :: cstring where
  \<open>failed_body = str ''{"ok":false}''\<close>

fun read_request :: "recv_event list \<Rightarrow> cstring \<Rightarrow> response + (cstring \<times> nat)" where
  "read_request es req =
     (case strstr (crlf @ crlf) req of
        Some e \<Rightarrow> Inr (req, e)
      | None \<Rightarrow>
          if length req = 4095 then Inl (respond (str ''null'') (str ''431 Request Header Fields Too Large'') failed_body)
          else (case es of
             Received bytes # es' \<Rightarrow>
               (let got = take (4095 - length req) bytes in
                if got = [] then Inl (respond (str ''null'') (str ''408 Request Timeout'') failed_body)
                else if 0 \<in> set got then Inl (respond (str ''null'') (str ''400 Bad Request'') failed_body)
                else read_request es' (req @ got))
           | _ \<Rightarrow> Inl (respond (str ''null'') (str ''408 Request Timeout'') failed_body)))"

declare read_request.simps [simp del]

definition request_line :: "cstring \<Rightarrow> (cstring \<times> cstring \<times> cstring) option" where
  "request_line s = do {
     (method, s1) \<leftarrow> scan_word 15 s;
     (path, s2) \<leftarrow> scan_word 255 s1;
     (version, s3) \<leftarrow> scan_word 15 s2;
     if dropWhile isspace s3 = [] \<and> (version = str ''HTTP/1.1'' \<or> version = str ''HTTP/1.0'') then Some (method, path, version) else None
   }"

text \<open>The token in the query: whether it is right, and the path without it.\<close>

definition query_token :: "cstring \<Rightarrow> cstring \<Rightarrow> bool \<times> cstring" where
  "query_token token path =
     (if token = [] then (False, path)
      else case (case strstr (str ''?token='') path of Some i \<Rightarrow> Some i | None \<Rightarrow> strstr (str ''&token='') path) of
             None \<Rightarrow> (False, path)
           | Some i \<Rightarrow> (token_equal token (drop (i + 7) path), take i path))"

section \<open>Routes\<close>

record routes =
  ro_playback_report :: "(u32 \<times> cdouble \<times> cdouble \<times> bool \<times> bool \<times> bool) option"
  ro_artwork :: "u32 option"
  ro_photo :: "u32 option"
  ro_photo_report :: "(u32 \<times> bool) option"
  ro_hls_manifest :: bool
  ro_hls_segment :: "(u32 \<times> u64 \<times> u64) option"
  ro_hls_init :: "u32 option"
  ro_media_init :: bool
  ro_media_segment :: "nat option"

definition flag :: "int \<Rightarrow> bool option" where
  "flag n = (if n = 0 then Some False else if n = 1 then Some True else None)"

definition route_playback_report :: "scan_lib \<Rightarrow> cstring \<Rightarrow> (u32 \<times> cdouble \<times> cdouble \<times> bool \<times> bool \<times> bool) option" where
  "route_playback_report lc path = do {
     s0 \<leftarrow> scan_lit (str ''/playback/report?generation='') path;
     (gen, s1) \<leftarrow> scan_u lc s0;
     s1' \<leftarrow> scan_lit (str ''&position='') s1;
     (pos, s2) \<leftarrow> lc_double lc s1';
     s2' \<leftarrow> scan_lit (str ''&duration='') s2;
     (dur, s3) \<leftarrow> lc_double lc s2';
     s3' \<leftarrow> scan_lit (str ''&ready='') s3;
     (rdy, s4) \<leftarrow> scan_d lc s3';
     s4' \<leftarrow> scan_lit (str ''&failed='') s4;
     (fld, s5) \<leftarrow> scan_d lc s4';
     ended \<leftarrow> (if s5 = [] then Some 0
               else do { s5' \<leftarrow> scan_lit (str ''&ended='') s5; (e, s6) \<leftarrow> scan_d lc s5'; if s6 = [] then Some e else None });
     r \<leftarrow> flag rdy; f \<leftarrow> flag fld; e \<leftarrow> flag ended;
     Some (gen, pos, dur, r, f, e)
   }"

definition route_number :: "scan_lib \<Rightarrow> cstring \<Rightarrow> cstring \<Rightarrow> cstring \<Rightarrow> u32 option" where
  "route_number lc before after path = do {
     s0 \<leftarrow> scan_lit before path; (n, s1) \<leftarrow> scan_u lc s0; s2 \<leftarrow> scan_lit after s1; if s2 = [] then Some n else None
   }"

definition route_photo_report :: "scan_lib \<Rightarrow> cstring \<Rightarrow> (u32 \<times> bool) option" where
  "route_photo_report lc path = do {
     s0 \<leftarrow> scan_lit (str ''/photo/report?generation='') path;
     (gen, s1) \<leftarrow> scan_u lc s0;
     s2 \<leftarrow> scan_lit (str ''&failed='') s1;
     (fld, s3) \<leftarrow> scan_d lc s2;
     f \<leftarrow> (if s3 = [] then flag fld else None);
     Some (gen, f)
   }"

definition route_hls_segment :: "scan_lib \<Rightarrow> cstring \<Rightarrow> (u32 \<times> u64 \<times> u64) option" where
  "route_hls_segment lc path = do {
     s0 \<leftarrow> scan_lit (str ''/video/hls/'') path;
     (gen, s1) \<leftarrow> scan_u lc s0;
     s2 \<leftarrow> scan_lit (str ''/'') s1;
     (first, s3) \<leftarrow> scan_llu lc s2;
     s4 \<leftarrow> scan_lit (str ''/'') s3;
     (last_seq, s5) \<leftarrow> scan_llu lc s4;
     if s5 = [] then Some (gen, first, last_seq) else None
   }"

text \<open>Digits only, and in range (\<open>strtoull\<close> reports an overflow).\<close>

definition route_media_segment :: "cstring \<Rightarrow> nat option" where
  "route_media_segment path = do {
     ds \<leftarrow> scan_lit (str ''/video/segment/'') path;
     if ds \<noteq> [] \<and> list_all is_digit ds \<and> digits_value ds < 2 ^ 64 then Some (digits_value ds) else None
   }"

definition parse_routes :: "scan_lib \<Rightarrow> cstring \<Rightarrow> routes" where
  "parse_routes lc path =
     \<lparr>ro_playback_report = route_playback_report lc path,
      ro_artwork = route_number lc (str ''/artwork/'') [] path,
      ro_photo = route_number lc (str ''/photo/'') [] path,
      ro_photo_report = route_photo_report lc path,
      ro_hls_manifest = (path = str ''/video/live.m3u8''),
      ro_hls_segment = route_hls_segment lc path,
      ro_hls_init = route_number lc (str ''/video/hls/'') (str ''/init'') path,
      ro_media_init = (path = str ''/video/init''),
      ro_media_segment = route_media_segment path\<rparr>"

section \<open>Headers\<close>

record headers =
  hd_control :: bool
  hd_control_seen :: bool
  hd_host :: bool
  hd_origin :: bool
  hd_length_seen :: bool
  hd_response_origin :: cstring

definition headers_init :: headers where
  "headers_init = \<lparr>hd_control = False, hd_control_seen = False, hd_host = False, hd_origin = False, hd_length_seen = False,
     hd_response_origin = str ''null''\<rparr>"

definition error_body :: "string \<Rightarrow> cstring" where
  \<open>error_body e = str (''{"ok":false,"error":"'' @ e @ ''"}'')\<close>

definition header_name :: "cstring \<Rightarrow> cstring" where
  "header_name line = takeWhile (\<lambda>c. c \<noteq> 58) line"

definition header_value :: "cstring \<Rightarrow> cstring" where
  "header_value line = dropWhile (\<lambda>c. c = 32 \<or> c = 9) (drop (length (header_name line) + 1) line)"

definition header_line :: "cstring \<Rightarrow> cstring \<Rightarrow> cstring \<Rightarrow> headers \<Rightarrow> response + headers" where
  "header_line token expected_host line h =
     (let answer = respond (hd_response_origin h);
          name = header_name line;
          v = header_value line
      in if 58 \<notin> set line then Inl (answer (str ''400 Bad Request'') failed_body)
         else if strcaseeq name (str ''Host'') then
           (if hd_host h \<or> v \<noteq> expected_host then Inl (answer (str ''403 Forbidden'') (error_body ''invalid_host''))
            else Inr (h\<lparr>hd_host := True\<rparr>))
         else if strcaseeq name (str ''Origin'') then
           (if hd_origin h \<or> (v \<noteq> str ''null'' \<and> \<not> (token \<noteq> [] \<and> v = str ''file://''))
            then Inl (answer (str ''403 Forbidden'') (error_body ''invalid_origin''))
            else Inr (h\<lparr>hd_response_origin := (if v = str ''file://'' then str ''file://'' else hd_response_origin h), hd_origin := True\<rparr>))
         else if strcaseeq name (str ''X-AirTizen-Control'') then
           (if hd_control_seen h then Inl (answer (str ''400 Bad Request'') failed_body)
            else Inr (h\<lparr>hd_control_seen := True, hd_control := (if token \<noteq> [] then token_equal token v else v = str ''1'')\<rparr>))
         else if strcaseeq name (str ''Content-Length'') then
           (if hd_length_seen h \<or> v \<noteq> str ''0'' then Inl (answer (str ''413 Content Too Large'') failed_body)
            else Inr (h\<lparr>hd_length_seen := True\<rparr>))
         else if strcaseeq name (str ''Transfer-Encoding'') then Inl (answer (str ''400 Bad Request'') failed_body)
         else Inr h)"

text \<open>\<open>rest\<close> is the request from \<open>line\<close> on, \<open>left\<close> the distance from \<open>line\<close> to \<open>end\<close>.\<close>

function header_loop :: "cstring \<Rightarrow> cstring \<Rightarrow> cstring \<Rightarrow> nat \<Rightarrow> headers \<Rightarrow> response + headers" where
  "header_loop token expected_host rest left h =
     (if left = 0 then Inr h
      else case strstr crlf rest of
             None \<Rightarrow> Inr h
           | Some n \<Rightarrow>
               (case header_line token expected_host (take n rest) h of
                  Inl r \<Rightarrow> Inl r
                | Inr h1 \<Rightarrow> header_loop token expected_host (drop (n + 2) rest) (left - (n + 2)) h1))"
  by pat_completeness auto
termination by (relation "measure (\<lambda>(token, expected_host, rest, left, h). left)") auto

declare header_loop.simps [simp del]

section \<open>Dispatch\<close>

record 'm control_env =
  ce_su :: "'m surroundings"
  ce_lib :: scan_lib
  ce_text :: "cdouble \<Rightarrow> cstring"
  ce_build :: build
  ce_alloc :: bool

definition discovery_path :: "cstring \<Rightarrow> bool" where
  "discovery_path path \<longleftrightarrow> path = str ''/discovery/native'' \<or> path = str ''/discovery/uxplay-test''"

definition known_path :: "routes \<Rightarrow> cstring \<Rightarrow> bool" where
  "known_path ro path \<longleftrightarrow> ro_photo ro \<noteq> None \<or> ro_photo_report ro \<noteq> None \<or> ro_artwork ro \<noteq> None \<or> ro_playback_report ro \<noteq> None \<or>
     ro_media_init ro \<or> ro_media_segment ro \<noteq> None \<or> ro_hls_manifest ro \<or> ro_hls_init ro \<noteq> None \<or> ro_hls_segment ro \<noteq> None \<or>
     discovery_path path \<or> path = str ''/status'' \<or> path = str ''/start'' \<or> path = str ''/stop''"

definition ok_body :: cstring where
  \<open>ok_body = str ''{"ok":true}''\<close>

definition media_response :: "headers \<Rightarrow> cstring \<Rightarrow> cstring \<Rightarrow> u32 \<Rightarrow> response" where
  "media_response h mime body gen = \<lparr>rs_status = str ''200 OK'', rs_type = mime, rs_origin = hd_response_origin h, rs_generation = gen, rs_body = body\<rparr>"

definition status_response :: "'m control_env \<Rightarrow> headers \<Rightarrow> int \<Rightarrow> 'm runtime \<Rightarrow> response option" where
  "status_response ce h rc rt =
     map_option (respond (hd_response_origin h) (if rc = 0 then str ''200 OK'' else str ''503 Service Unavailable''))
       (airtizen_runtime_status_json (ce_text ce) (ce_build ce) rt)"

text \<open>The requests that read: photos, artwork, manifest and fragments.\<close>

definition serve_photo :: "'m control_env \<Rightarrow> headers \<Rightarrow> u32 \<Rightarrow> 'm runtime \<Rightarrow> response option" where
  "serve_photo ce h gen rt = do {
     r \<leftarrow> airtizen_photo_copy (ce_alloc ce) gen (rc_photo (rt_receiver rt));
     Some (case r of
             Some (body, mime) \<Rightarrow> if body \<noteq> [] then media_response h mime body gen
                                 else respond (hd_response_origin h) (str ''404 Not Found'') failed_body
           | None \<Rightarrow> respond (hd_response_origin h) (str ''404 Not Found'') failed_body)
   }"

definition serve_artwork :: "'m control_env \<Rightarrow> headers \<Rightarrow> u32 \<Rightarrow> 'm runtime \<Rightarrow> response" where
  "serve_artwork ce h version rt =
     (case airtizen_metadata_copy_artwork (ce_alloc ce) (rc_metadata (rt_receiver rt)) version of
        Some (body, mime) \<Rightarrow> media_response h mime body version
      | None \<Rightarrow> respond (hd_response_origin h) (str ''404 Not Found'') failed_body)"

definition serve_manifest :: "'m control_env \<Rightarrow> cstring \<Rightarrow> headers \<Rightarrow> 'm runtime \<Rightarrow> response option" where
  "serve_manifest ce token h rt = do {
     body \<leftarrow> airtizen_video_hls_manifest (ce_alloc ce) (Some token) (rc_video (rt_receiver rt));
     Some (if body \<noteq> [] then media_response h (str ''application/vnd.apple.mpegurl'') body 0
           else respond (hd_response_origin h) (str ''503 Service Unavailable'') failed_body)
   }"

definition serve_segment :: "'m control_env \<Rightarrow> headers \<Rightarrow> u32 \<times> u64 \<times> u64 \<Rightarrow> 'm runtime \<Rightarrow> response option" where
  "serve_segment ce h q rt = (case q of (gen, first, last_seq) \<Rightarrow> do {
     body \<leftarrow> airtizen_video_hls_segment (ce_alloc ce) gen (unat first) (unat last_seq) (rc_video (rt_receiver rt));
     Some (if body \<noteq> [] then media_response h (str ''video/mp4'') body gen
           else respond (hd_response_origin h) (str ''410 Gone'') failed_body)
   })"

definition serve_media :: "'m control_env \<Rightarrow> headers \<Rightarrow> routes \<Rightarrow> 'm runtime \<Rightarrow> response option" where
  "serve_media ce h ro rt = do {
     (body, gen) \<leftarrow> airtizen_video_copy (ce_alloc ce) (ro_media_init ro \<or> ro_hls_init ro \<noteq> None)
                      (case ro_media_segment ro of Some q \<Rightarrow> q | None \<Rightarrow> 0) (rc_video (rt_receiver rt));
     let body = (case ro_hls_init ro of Some g \<Rightarrow> if gen \<noteq> g then [] else body | None \<Rightarrow> body);
     Some (if body \<noteq> [] then media_response h (str ''video/mp4'') body gen
           else respond (hd_response_origin h) (str ''410 Gone'') (error_body ''media_not_available''))
   }"

text \<open>The requests that report on the screen.\<close>

definition report_photo :: "headers \<Rightarrow> u32 \<times> bool \<Rightarrow> 'm runtime \<Rightarrow> response \<times> 'm runtime" where
  "report_photo h q rt =
     (if \<not> hd_control h then (respond (hd_response_origin h) (str ''403 Forbidden'') failed_body, rt)
      else case airtizen_photo_report (fst q) (snd q) (rc_photo (rt_receiver rt)) of
             (rc, ph) \<Rightarrow>
               (if rc = 0 then respond (hd_response_origin h) (str ''200 OK'') ok_body
                else respond (hd_response_origin h) (str ''409 Conflict'') failed_body,
                on_receiver (\<lambda>r. r\<lparr>rc_photo := ph\<rparr>) rt))"

definition report_playback :: "headers \<Rightarrow> u32 \<times> cdouble \<times> cdouble \<times> bool \<times> bool \<times> bool \<Rightarrow> 'm runtime \<Rightarrow> response \<times> 'm runtime" where
  "report_playback h q rt =
     (if \<not> hd_control h then (respond (hd_response_origin h) (str ''403 Forbidden'') failed_body, rt)
      else case q of (gen, pos, dur, rdy, fld, ended) \<Rightarrow>
        (case airtizen_playback_report gen pos dur rdy fld ended (rc_playback (rt_receiver rt)) of
           (rc, pb) \<Rightarrow>
             (if rc = 0 then respond (hd_response_origin h) (str ''200 OK'') ok_body
              else respond (hd_response_origin h) (str ''409 Conflict'') failed_body,
              on_receiver (\<lambda>r. r\<lparr>rc_playback := pb\<rparr>) rt)))"

definition control_required :: "headers \<Rightarrow> response" where
  "control_required h = respond (hd_response_origin h) (str ''403 Forbidden'') (error_body ''control_header_required'')"

definition switch_profile :: "'m control_env \<Rightarrow> headers \<Rightarrow> cstring \<Rightarrow> 'm runtime \<Rightarrow> (response \<times> 'm runtime) option" where
  "switch_profile ce h path rt =
     (if \<not> hd_control h then Some (control_required h, rt)
      else do {
        (rc, rt1) \<leftarrow> airtizen_runtime_set_discovery_profile (ce_su ce) (Some (drop 11 path)) rt;
        r \<leftarrow> status_response ce h rc rt1;
        Some (r, rt1)
      })"

definition start_stop :: "'m control_env \<Rightarrow> headers \<Rightarrow> cstring \<Rightarrow> 'm runtime \<Rightarrow> (response \<times> 'm runtime) option" where
  "start_stop ce h path rt =
     (if \<not> hd_control h then Some (control_required h, rt)
      else do {
        (rc, rt1) \<leftarrow> (if path = str ''/start'' then airtizen_runtime_start (ce_su ce) None rt
                      else map_option (\<lambda>rt1. (0, rt1)) (airtizen_runtime_stop (ce_su ce) rt));
        r \<leftarrow> status_response ce h rc rt1;
        Some (r, rt1)
      })"

definition with_state :: "'m runtime \<Rightarrow> response option \<Rightarrow> (response \<times> 'm runtime) option" where
  "with_state rt r = map_option (\<lambda>x. (x, rt)) r"

text \<open>The chain of routes, in the order of the code.\<close>

definition dispatch ::
  "'m control_env \<Rightarrow> cstring \<Rightarrow> bool \<Rightarrow> headers \<Rightarrow> cstring \<Rightarrow> cstring \<Rightarrow> 'm runtime \<Rightarrow> (response \<times> 'm runtime) option" where
  "dispatch ce token query_auth h method path rt =
     (let ro = parse_routes (ce_lib ce) path; answer = respond (hd_response_origin h); get = (method = str ''GET''); post = (method = str ''POST'')
      in if \<not> hd_host h then Some (answer (str ''400 Bad Request'') (error_body ''missing_host''), rt)
         else if method = str ''OPTIONS'' then Some (answer (str ''204 No Content'') [], rt)
         else if token \<noteq> [] \<and> \<not> hd_control h \<and> \<not> query_auth then Some (answer (str ''403 Forbidden'') (error_body ''unauthorized''), rt)
         else if \<not> known_path ro path then Some (answer (str ''404 Not Found'') (error_body ''not_found''), rt)
         else if get \<and> ro_photo ro \<noteq> None then with_state rt (serve_photo ce h (the (ro_photo ro)) rt)
         else if post \<and> ro_photo_report ro \<noteq> None then Some (report_photo h (the (ro_photo_report ro)) rt)
         else if get \<and> ro_artwork ro \<noteq> None then Some (serve_artwork ce h (the (ro_artwork ro)) rt, rt)
         else if post \<and> ro_playback_report ro \<noteq> None then Some (report_playback h (the (ro_playback_report ro)) rt)
         else if get \<and> ro_hls_manifest ro then with_state rt (serve_manifest ce token h rt)
         else if get \<and> ro_hls_segment ro \<noteq> None then with_state rt (serve_segment ce h (the (ro_hls_segment ro)) rt)
         else if get \<and> (ro_media_init ro \<or> ro_media_segment ro \<noteq> None \<or> ro_hls_init ro \<noteq> None) then with_state rt (serve_media ce h ro rt)
         else if get \<and> path = str ''/status'' then with_state rt (status_response ce h 0 rt)
         else if post \<and> discovery_path path then switch_profile ce h path rt
         else if post \<and> (path = str ''/start'' \<or> path = str ''/stop'') then start_stop ce h path rt
         else Some (answer (str ''405 Method Not Allowed'') (error_body ''method_not_allowed''), rt))"

definition host_text :: "u16 \<Rightarrow> cstring" where
  "host_text port = str ''127.0.0.1:'' @ dec_nat (unat port)"

definition bad_request :: response where
  "bad_request = respond (str ''null'') (str ''400 Bad Request'') failed_body"

definition handle_client ::
  "'m control_env \<Rightarrow> control_module \<Rightarrow> recv_event list \<Rightarrow> 'm runtime \<Rightarrow> (response \<times> 'm runtime) option" where
  "handle_client ce c es rt =
     (case read_request es [] of
        Inl r \<Rightarrow> Some (r, rt)
      | Inr (req, e) \<Rightarrow> do {
          n \<leftarrow> strstr crlf req;
          (case request_line (take n req) of
             None \<Rightarrow> Some (bad_request, rt)
           | Some (method, path0, version) \<Rightarrow>
               (case query_token (ct_token c) path0 of
                  (query_auth, path) \<Rightarrow>
                    (case header_loop (ct_token c) (fit 64 (host_text (ct_port c))) (drop (n + 2) req) (e - (n + 2)) headers_init of
                       Inl r \<Rightarrow> Some (r, rt)
                     | Inr h \<Rightarrow> dispatch ce (ct_token c) query_auth h method path rt)))
        })"

section \<open>The server\<close>

text \<open>One round of the accept loop: \<open>select\<close> is interrupted, fails or reports the stop pipe; the accept
  fails; or a client is served, with what it sends, the outcomes of the sends, and the surroundings.\<close>

datatype 'm server_event =
    SelectInterrupted
  | SelectError
  | StopPipe
  | AcceptFailed
  | Client "'m control_env" "recv_event list" "send_event list"

text \<open>The bytes each client received, and the final state; the inner flag tells whether the loop ended.\<close>

fun server_loop :: "control_module \<Rightarrow> 'm server_event list \<Rightarrow> cstring list \<Rightarrow> 'm runtime \<Rightarrow> (bool \<times> cstring list \<times> 'm runtime) option" where
  "server_loop c [] out rt = Some (False, out, rt)"
| "server_loop c (e # es) out rt =
     (case e of
        SelectInterrupted \<Rightarrow> server_loop c es out rt
      | SelectError \<Rightarrow> Some (True, out, rt)
      | StopPipe \<Rightarrow> Some (True, out, rt)
      | AcceptFailed \<Rightarrow> server_loop c es out rt
      | Client ce recvs sends \<Rightarrow> do {
          (r, rt1) \<leftarrow> handle_client ce c recvs rt;
          server_loop c es (out @ [respond_bytes sends r]) rt1
        })"

text \<open>Start: whether the socket is made, bound and listening with its pipe, and the thread is created.\<close>

definition airtizen_control_http_start :: "bool \<Rightarrow> bool \<Rightarrow> bool \<Rightarrow> u16 \<Rightarrow> control_module \<Rightarrow> int \<times> control_module" where
  "airtizen_control_http_start socket_ok bound thread_ok port c =
     (if ct_started c then (0, c)
      else if \<not> socket_ok then (-1, c\<lparr>ct_server_fd := False\<rparr>)
      else if \<not> bound then (-2, c\<lparr>ct_server_fd := False, ct_stop := False\<rparr>)
      else if \<not> thread_ok then (-2, c\<lparr>ct_port := port, ct_server_fd := False, ct_stop := False\<rparr>)
      else (0, c\<lparr>ct_port := port, ct_server_fd := True, ct_stop := True, ct_started := True\<rparr>))"

definition airtizen_control_http_stop :: "control_module \<Rightarrow> control_module" where
  "airtizen_control_http_stop c =
     (if \<not> ct_started c then c else c\<lparr>ct_server_fd := False, ct_stop := False, ct_started := False\<rparr>)"

text \<open>The process: the token from the environment, the receiver, the server, then serving until a signal
  (\<open>events\<close> is what the server thread meets until then) and the shutdown.\<close>

definition main_loop ::
  "'m surroundings \<Rightarrow> 'm server_event list \<Rightarrow> control_module \<Rightarrow> 'm runtime \<Rightarrow> (int \<times> control_module \<times> 'm runtime) option" where
  "main_loop su events c rt = do {
     (_, _, rt1) \<leftarrow> server_loop c events [] rt;
     rt2 \<leftarrow> airtizen_runtime_stop su rt1;
     Some (0, airtizen_control_http_stop c, rt2)
   }"

definition airtizen_main ::
  "'m surroundings \<Rightarrow> bool \<Rightarrow> bool \<Rightarrow> bool \<Rightarrow> cstring option \<Rightarrow> cstring option \<Rightarrow> 'm server_event list \<Rightarrow>
     control_module \<Rightarrow> 'm runtime \<Rightarrow> (int \<times> control_module \<times> 'm runtime) option" where
  "airtizen_main su socket_ok bound thread_ok token arg events c rt =
     (case (case token of None \<Rightarrow> (0, c) | Some t \<Rightarrow> airtizen_control_http_set_token (Some t) c) of
        (rc, c1) \<Rightarrow>
          if rc \<noteq> 0 then Some (1, c1, rt)
          else do {
            (rc1, rt1) \<leftarrow> airtizen_runtime_start su (Some (case arg of Some a \<Rightarrow> a | None \<Rightarrow> str ''AirTizen TV'')) rt;
            if rc1 \<noteq> 0 then Some (1, c1, rt1)
            else (case airtizen_control_http_start socket_ok bound thread_ok 45110 c1 of
                    (rc2, c2) \<Rightarrow>
                      if rc2 \<noteq> 0 then do { rt2 \<leftarrow> airtizen_runtime_stop su rt1; Some (1, c2, rt2) }
                      else main_loop su events c2 rt1)
          })"

section \<open>The token\<close>

lemma fold_or_zero: "fold (\<lambda>i d. d OR f i) xs a = (0 :: u32) \<longleftrightarrow> a = 0 \<and> (\<forall>i \<in> set xs. f i = 0)"
  by (induction xs arbitrary: a) (auto simp: or_eq_0_iff)

lemma ucast_xor_zero: "(ucast (a :: byte) XOR ucast b :: u32) = 0 \<longleftrightarrow> a = b"
proof
  assume x: "(ucast a XOR ucast b :: u32) = 0"
  have "(ucast a :: u32) = ucast b"
  proof (rule bit_eqI)
    fix n
    from x have "bit (ucast a XOR ucast b :: u32) n = bit (0 :: u32) n" by simp
    then show "bit (ucast a :: u32) n = bit (ucast b :: u32) n" by (simp add: bit_xor_iff)
  qed
  then have "unat (ucast a :: u32) = unat (ucast b :: u32)" by simp
  then show "a = b" by (simp add: word_unat_eq_iff)
qed simp

definition token_ok :: "cstring \<Rightarrow> bool" where
  "token_ok t \<longleftrightarrow> t = [] \<or> (length t = 64 \<and> list_all token_char t)"

lemma token_equal_iff: "token_ok t \<Longrightarrow> token_equal t v \<longleftrightarrow> t \<noteq> [] \<and> v = t"
  by (auto simp: token_equal_def token_ok_def fold_or_zero ucast_xor_zero intro: nth_equalityI)

section \<open>Searching and scanning\<close>

lemma strstr_split: "strstr p s = Some n \<Longrightarrow> n + length p \<le> length s \<and> s = take n s @ p @ drop (n + length p) s"
proof (induction s arbitrary: n)
  case Nil
  then show ?case by (simp split: if_splits)
next
  case (Cons c s)
  show ?case
  proof (cases "strprefix p (c # s)")
    case True
    then have "n = 0" "p @ drop (length p) (c # s) = c # s" "length p \<le> length (c # s)"
      using Cons.prems append_take_drop_id [of "length p" "c # s"] length_take [of "length p" "c # s"]
      by (simp_all add: strprefix_def)
    then show ?thesis by simp
  next
    case False
    then obtain m where m: "strstr p s = Some m" "n = Suc m" using Cons.prems by auto
    then show ?thesis using Cons.IH [OF m(1)] by simp
  qed
qed

lemma strstr_prefix: "strstr (p @ q) s = Some e \<Longrightarrow> \<exists>n \<le> e. strstr p s = Some n"
proof (induction s arbitrary: e)
  case Nil
  then show ?case by (simp split: if_splits)
next
  case (Cons c s)
  show ?case
  proof (cases "strprefix p (c # s)")
    case True then show ?thesis by simp
  next
    case False
    then have "\<not> strprefix (p @ q) (c # s)" by (auto simp: strprefix_iff)
    then obtain m where m: "strstr (p @ q) s = Some m" "e = Suc m" using Cons.prems by auto
    from Cons.IH [OF m(1)] show ?thesis using False m(2) by auto
  qed
qed

lemma sublist_take_drop: "sublist (take n xs) xs" "sublist (drop n xs) xs"
  by (simp_all add: sublist_take sublist_drop)

lemma scan_word_sublist: "scan_word n s = Some (w, rest) \<Longrightarrow> sublist w s \<and> sublist rest s"
proof -
  assume "scan_word n s = Some (w, rest)"
  then have w: "w = take n (takeWhile (\<lambda>c. \<not> isspace c) (dropWhile isspace s))" "rest = drop (length w) (dropWhile isspace s)"
    by (auto simp: scan_word_def Let_def split: if_splits)
  have d: "sublist (dropWhile isspace s) s" by (metis dropWhile_eq_drop sublist_drop)
  have "sublist w (dropWhile isspace s)" unfolding w(1)
    by (metis sublist_order.order.trans sublist_take takeWhile_eq_take)
  moreover have "sublist rest (dropWhile isspace s)" unfolding w(2) by (rule sublist_drop)
  ultimately show ?thesis using d sublist_order.order.trans by blast
qed

lemma request_line_sublist: "request_line s = Some (m, p, v) \<Longrightarrow> sublist p s"
  unfolding request_line_def by (auto simp: bind_eq_Some_conv split: if_splits) (meson scan_word_sublist sublist_order.order.trans)+

section \<open>Authentication\<close>

text \<open>All that arrives on the socket.\<close>

fun received :: "recv_event list \<Rightarrow> cstring" where
  "received [] = []"
| "received (Received bytes # es) = bytes @ received es"
| "received (_ # es) = []"

lemma read_request_prefix:
  "read_request es req = Inr (r, e) \<Longrightarrow> length req \<le> 4095 \<Longrightarrow>
     prefix r (req @ received es) \<and> strstr (crlf @ crlf) r = Some e \<and> length r \<le> 4095"
proof (induction es arbitrary: req)
  case Nil
  then show ?case by (subst (asm) read_request.simps) (auto split: option.splits if_splits)
next
  case (Cons ev es)
  show ?case
  proof (cases "strstr (crlf @ crlf) req")
    case (Some n)
    then show ?thesis using Cons.prems by (subst (asm) read_request.simps) auto
  next
    case None
    then obtain bytes where b: "ev = Received bytes" "length req < 4095" "read_request es (req @ take (4095 - length req) bytes) = Inr (r, e)"
      using Cons.prems by (subst (asm) read_request.simps) (auto simp: Let_def split: if_splits recv_event.splits)
    let ?req = "req @ take (4095 - length req) bytes"
    have l: "length ?req \<le> 4095" using b(2) by simp
    note IH = Cons.IH [OF b(3) l]
    show ?thesis
    proof (cases "length bytes \<le> 4095 - length req")
      case True
      then show ?thesis using IH b(1) by simp
    next
      case False
      then have full: "length ?req = 4095" using b(2) by simp
      have "r = ?req" using b(3) full by (subst (asm) read_request.simps) (auto split: option.splits)
      then show ?thesis using IH b(1) by (simp add: prefix_def) (metis append_take_drop_id append.assoc)
    qed
  qed
qed

text \<open>The bodies that tell nothing of the receiver.\<close>

definition refusals :: "cstring set" where
  "refusals = {[], failed_body, error_body ''invalid_host'', error_body ''invalid_origin'', error_body ''missing_host'', error_body ''unauthorized''}"

lemma respond_fields [simp]: "rs_body (respond og st b) = b" "rs_status (respond og st b) = st" "rs_origin (respond og st b) = og"
    "rs_generation (respond og st b) = 0"
  by (simp_all add: respond_def)

lemma read_request_refusal: "read_request es req = Inl r \<Longrightarrow> rs_body r \<in> refusals"
proof (induction es arbitrary: req)
  case Nil
  then show ?case by (subst (asm) read_request.simps) (auto simp: refusals_def split: option.splits if_splits)
next
  case (Cons ev es)
  from Cons.prems show ?case
    by (subst (asm) read_request.simps)
      (auto simp: refusals_def Let_def split: option.splits if_splits recv_event.splits dest!: Cons.IH [unfolded refusals_def, simplified])
qed

lemma header_value_sublist: "sublist (header_value line) line"
  unfolding header_value_def using sublist_order.order.trans by blast

lemma header_line_cases:
  assumes "token_ok token" "token \<noteq> []" "\<not> sublist token line" "\<not> hd_control h"
  shows "case header_line token host line h of Inl r \<Rightarrow> rs_body r \<in> refusals | Inr h' \<Rightarrow> \<not> hd_control h'"
proof -
  have t: "token_equal token (header_value line) = False"
    using token_equal_iff [OF assms(1)] assms(3) header_value_sublist [of line] by auto
  show ?thesis unfolding header_line_def Let_def t refusals_def by (simp add: assms(2,4))
qed

lemma header_loop_cases:
  "token_ok token \<Longrightarrow> token \<noteq> [] \<Longrightarrow> \<not> sublist token rest \<Longrightarrow> \<not> hd_control h \<Longrightarrow>
    (case header_loop token host rest left h of Inl r \<Rightarrow> rs_body r \<in> refusals | Inr h' \<Rightarrow> \<not> hd_control h')"
proof (induction token host rest left h rule: header_loop.induct)
  case (1 token host rest left h)
  show ?case
  proof (cases "left = 0 \<or> strstr crlf rest = None")
    case True
    then show ?thesis using "1.prems" by (subst header_loop.simps) auto
  next
    case False
    then obtain n where n: "left \<noteq> 0" "strstr crlf rest = Some n" by auto
    have sub: "\<not> sublist token (take n rest)" "\<not> sublist token (drop (n + 2) rest)"
      using "1.prems"(3) sublist_order.order.trans by blast+
    note line = header_line_cases [OF "1.prems"(1,2) sub(1) "1.prems"(4), of host]
    show ?thesis
    proof (cases "header_line token host (take n rest) h")
      case (Inl r)
      then show ?thesis using line n by (subst header_loop.simps) simp
    next
      case (Inr h1)
      then have "\<not> hd_control h1" using line by simp
      from "1.IH" [OF n Inr "1.prems"(1,2) sub(2) this] show ?thesis using Inr n by (subst header_loop.simps) simp
    qed
  qed
qed

lemma query_token_false:
  assumes "token_ok token" "token \<noteq> []" "\<not> sublist token path"
  shows "\<not> fst (query_token token path)"
proof -
  have "token_equal token (drop k path) = False" for k
    using token_equal_iff [OF assms(1)] assms(3) sublist_drop [of k path] by auto
  then show ?thesis by (simp add: query_token_def split: option.split)
qed

lemma dispatch_refused:
  assumes "token \<noteq> []" "\<not> hd_control h" "\<not> qa"
  shows "\<exists>r. dispatch ce token qa h method path rt = Some (r, rt) \<and> rs_body r \<in> refusals"
  using assms by (simp add: dispatch_def Let_def refusals_def)

lemma unauthorised_refused:
  assumes t: "token_ok (ct_token c)" "ct_token c \<noteq> []" "\<not> sublist (ct_token c) (received es)"
  shows "\<exists>r. handle_client ce c es rt = Some (r, rt) \<and> rs_body r \<in> refusals"
proof (cases "read_request es []")
  case (Inl r)
  then show ?thesis using read_request_refusal by (simp add: handle_client_def)
next
  case (Inr q)
  obtain req e where q: "q = (req, e)" by (cases q)
  have p: "prefix req (received es)" "strstr (crlf @ crlf) req = Some e" using read_request_prefix [of es "[]" req e] Inr q by auto
  have sub: "\<not> sublist (ct_token c) x" if "sublist x req" for x
    using that p(1) t(3) sublist_order.order.trans prefix_imp_sublist by blast
  obtain n where n: "strstr crlf req = Some n" using strstr_prefix [OF p(2)] by blast
  show ?thesis
  proof (cases "request_line (take n req)")
    case None
    then show ?thesis using Inr q n by (simp add: handle_client_def bad_request_def refusals_def)
  next
    case (Some l)
    obtain m pa v where l: "l = (m, pa, v)" by (cases l)
    have "sublist pa req" using request_line_sublist [of "take n req" m pa v] Some l sublist_order.order.trans sublist_take by blast
    then have qa: "\<not> fst (query_token (ct_token c) pa)" by (intro query_token_false t sub)
    obtain b pa' where qt: "query_token (ct_token c) pa = (b, pa')" by fastforce
    note hl = header_loop_cases [OF t(1,2) sub [OF sublist_drop], of headers_init "fit 64 (host_text (ct_port c))" "n + 2" "e - (n + 2)"]
    show ?thesis
    proof (cases "header_loop (ct_token c) (fit 64 (host_text (ct_port c))) (drop (n + 2) req) (e - (n + 2)) headers_init")
      case hr: (Inl r)
      then show ?thesis using hl Inr q n Some l qt by (simp add: handle_client_def headers_init_def)
    next
      case hr: (Inr h)
      then have "\<not> hd_control h" using hl by (simp add: headers_init_def)
      from dispatch_refused [OF t(2) this, of b] show ?thesis using hr Inr q n Some l qt qa by (simp add: handle_client_def)
    qed
  qed
qed

section \<open>Sending\<close>

lemma send_all_prefix: "send_all es data sent = (ok, out, es') \<Longrightarrow> \<exists>k. out = sent @ take k data \<and> (ok \<longrightarrow> out = sent @ data)"
proof (induction es data sent arbitrary: ok out es' rule: send_all.induct)
  case (3 e es b bs sent)
  show ?case
  proof (cases e)
    case NotWritable
    then show ?thesis using "3.prems" by (auto intro: exI [of _ 0])
  next
    case SendInterrupted
    then show ?thesis using "3.prems" "3.IH"(1) by simp
  next
    case (SendCount n)
    show ?thesis
    proof (cases "n \<le> 0")
      case True
      then show ?thesis using "3.prems" SendCount by (auto intro: exI [of _ 0])
    next
      case False
      let ?k = "min (nat n) (min 16384 (length (b # bs)))"
      from "3.IH"(2) [OF SendCount False refl, of ok out es'] "3.prems" SendCount False
      obtain j where j: "out = (sent @ take ?k (b # bs)) @ take j (drop ?k (b # bs))"
        "ok \<longrightarrow> out = (sent @ take ?k (b # bs)) @ drop ?k (b # bs)" by (auto simp: Let_def)
      have "take ?k (b # bs) @ take j (drop ?k (b # bs)) = take (?k + j) (b # bs)" by (rule take_add [symmetric])
      then show ?thesis using j by (metis append.assoc append_take_drop_id)
    qed
  qed
qed (auto intro: exI [of _ 0])

lemma send_all_complete:
  "0 < k \<Longrightarrow> length data \<le> n \<Longrightarrow> \<exists>m. send_all (replicate n (SendCount k)) data sent = (True, sent @ data, replicate m (SendCount k)) \<and> n \<le> m + length data"
proof (induction n arbitrary: data sent)
  case 0
  then show ?case by (auto intro: exI [of _ 0])
next
  case (Suc n)
  show ?case
  proof (cases data)
    case Nil
    then show ?thesis by (auto simp del: replicate.simps)
  next
    case (Cons b bs)
    let ?k = "min (nat k) (min 16384 (length (b # bs)))"
    have "0 < ?k" using Suc.prems by simp
    then have "length (drop ?k (b # bs)) \<le> n" using Suc.prems Cons by simp
    from Suc.IH [OF Suc.prems(1) this, of "sent @ take ?k (b # bs)"] obtain m where
      m: "send_all (replicate n (SendCount k)) (drop ?k (b # bs)) (sent @ take ?k (b # bs)) = (True, (sent @ take ?k (b # bs)) @ drop ?k (b # bs), replicate m (SendCount k))"
        "n \<le> m + length (drop ?k (b # bs))" by blast
    have "Suc n \<le> m + length data" using m(2) \<open>0 < ?k\<close> Cons by simp
    then show ?thesis using m(1) Suc.prems(1) Cons by (auto simp: Let_def)
  qed
qed

lemma respond_bytes_prefix: "length (response_head r) < 1024 \<Longrightarrow> prefix (respond_bytes es r) (response_head r @ rs_body r)"
proof -
  assume l: "length (response_head r) < 1024"
  obtain ok out es1 where h: "send_all es (response_head r) [] = (ok, out, es1)" by (cases "send_all es (response_head r) []")
  obtain ok2 out2 es2 where b: "send_all es1 (rs_body r) out = (ok2, out2, es2)" by (cases "send_all es1 (rs_body r) out")
  show ?thesis using send_all_prefix [OF h] send_all_prefix [OF b] l h b
    by (cases ok) (auto simp: respond_bytes_def Let_def take_is_prefix prefix_prefix)
qed

lemma respond_bytes_complete:
  assumes "length (response_head r) < 1024" "0 < k" "length (response_head r) + length (rs_body r) \<le> n"
  shows "respond_bytes (replicate n (SendCount k)) r = response_head r @ rs_body r"
proof -
  obtain m where h: "send_all (replicate n (SendCount k)) (response_head r) [] = (True, response_head r, replicate m (SendCount k))"
    "n \<le> m + length (response_head r)"
    using send_all_complete [of k "response_head r" n "[]"] assms by auto
  obtain m2 where b: "send_all (replicate m (SendCount k)) (rs_body r) (response_head r) = (True, response_head r @ rs_body r, replicate m2 (SendCount k))"
    using send_all_complete [of k "rs_body r" m "response_head r"] assms h(2) by auto
  show ?thesis using assms(1) h(1) b by (auto simp: respond_bytes_def Let_def)
qed

section \<open>Every request is answered\<close>

text \<open>An answer whose head fits the buffer of \<open>respond_bytes\<close>.\<close>

definition answer_ok :: "response \<Rightarrow> bool" where
  "answer_ok r \<longleftrightarrow> length (rs_status r) \<le> 40 \<and> length (rs_type r) \<le> 40 \<and> length (rs_origin r) \<le> 10 \<and> length (rs_body r) < 10 ^ 10"

lemma answer_head: "answer_ok r \<Longrightarrow> length (response_head r) < 1024"
proof -
  assume r: "answer_ok r"
  have "unat (rs_generation r) < 10 ^ Suc 9" by (rule less_le_trans [OF unat_u32_lt]) simp
  then have "length (dec_nat (unat (rs_generation r))) \<le> Suc 9" by (rule length_dec_nat)
  moreover have "length (dec_nat (length (rs_body r))) \<le> Suc 9" using r by (intro length_dec_nat) (simp add: answer_ok_def)
  ultimately show ?thesis using r by (simp add: response_head_def answer_ok_def)
qed

lemma short_answer: "length og \<le> 7 \<Longrightarrow> length st \<le> 40 \<Longrightarrow> length b < 10 ^ 10 \<Longrightarrow> answer_ok (respond og st b)"
  by (simp add: answer_ok_def respond_def)

lemma read_request_answer: "read_request es req = Inl r \<Longrightarrow> answer_ok r"
proof (induction es arbitrary: req)
  case Nil
  then show ?case by (subst (asm) read_request.simps) (auto simp: failed_body_def intro!: short_answer split: option.splits if_splits)
next
  case (Cons ev es)
  from Cons.prems show ?case
    by (subst (asm) read_request.simps)
      (auto simp: failed_body_def Let_def intro!: short_answer split: option.splits if_splits recv_event.splits intro: Cons.IH)
qed

lemma header_line_origin:
  assumes "length (hd_response_origin h) \<le> 7"
  shows "case header_line token host line h of Inl r \<Rightarrow> answer_ok r | Inr h' \<Rightarrow> length (hd_response_origin h') \<le> 7"
  using assms short_answer [OF assms] unfolding header_line_def Let_def
  by (simp add: failed_body_def error_body_def)

lemma header_loop_origin:
  "length (hd_response_origin h) \<le> 7 \<Longrightarrow>
    (case header_loop token host rest left h of Inl r \<Rightarrow> answer_ok r | Inr h' \<Rightarrow> length (hd_response_origin h') \<le> 7)"
proof (induction token host rest left h rule: header_loop.induct)
  case (1 token host rest left h)
  show ?case
  proof (cases "left = 0 \<or> strstr crlf rest = None")
    case True
    then show ?thesis using "1.prems" by (subst header_loop.simps) auto
  next
    case False
    then obtain n where n: "left \<noteq> 0" "strstr crlf rest = Some n" by auto
    note line = header_line_origin [OF "1.prems", of token host "take n rest"]
    show ?thesis
    proof (cases "header_line token host (take n rest) h")
      case (Inl r)
      then show ?thesis using line n by (subst header_loop.simps) simp
    next
      case (Inr h1)
      then show ?thesis using line n "1.IH" [OF n Inr] by (subst header_loop.simps) simp
    qed
  qed
qed

text \<open>The parts that serve media.\<close>

lemma segment_total:
  assumes "run_ok lo s" "segment_size s is sz = Some n" "sz \<le> TOTAL_LIMIT"
  shows "\<exists>b. segment_bytes s is = Some b \<and> n = sz + length b \<and> n \<le> TOTAL_LIMIT"
  using assms(2,3)
proof (induction "is" arbitrary: sz)
  case (Cons i "is")
  let ?p = "part_at s i"
  from Cons.prems have c: "pt_data ?p \<noteq> None" "pt_size ?p \<le> TOTAL_LIMIT - sz" "segment_size s is (sz + pt_size ?p) = Some n"
    by (auto simp: Let_def split: if_splits)
  have "part_ok ?p" using assms(1) by (simp add: run_ok_def ring_inv_def part_at_def)
  then obtain d where d: "pt_data ?p = Some d" "pt_size ?p = length d" using c(1) by (auto simp: part_ok_def)
  have le: "sz + pt_size ?p \<le> TOTAL_LIMIT" using c(2) Cons.prems(2) by linarith
  from Cons.IH [OF c(3) le] obtain b where "segment_bytes s is = Some b" "n = sz + pt_size ?p + length b" "n \<le> TOTAL_LIMIT" by blast
  then show ?case using d by (simp add: rdn_def)
qed simp

lemma hls_segment_total:
  assumes "video_inv s"
  shows "\<exists>b. airtizen_video_hls_segment alloc g f l s = Some b \<and> length b \<le> TOTAL_LIMIT"
proof -
  obtain lo where run: "run_ok lo s" using assms by (auto simp: video_inv_def)
  show ?thesis
  proof (cases "segment_size s [f..<l + 1] 0")
    case None
    then show ?thesis unfolding airtizen_video_hls_segment_def None by simp
  next
    case (Some n)
    from segment_total [OF run Some] obtain b where b: "segment_bytes s [f..<l + 1] = Some b" "n = length b" "n \<le> TOTAL_LIMIT" by auto
    show ?thesis unfolding airtizen_video_hls_segment_def Some b(1) using b(2,3) by (simp add: put_def)
  qed
qed

lemma video_copy_total:
  assumes "video_inv s"
  shows "\<exists>b g. airtizen_video_copy alloc ini q s = Some (b, g) \<and> length b \<le> PART_LIMIT"
proof -
  obtain lo where run: "run_ok lo s" using assms by (auto simp: video_inv_def)
  have l: "length (parts s) = PART_COUNT" using run by (simp add: run_ok_def ring_inv_def)
  have "part_ok (parts s ! (q mod PART_COUNT))" using run by (simp add: run_ok_def ring_inv_def)
  then show ?thesis using assms l
    by (auto simp: airtizen_video_copy_def video_inv_def part_ok_def rd_def rdn_def Let_def split: option.splits)
qed

text \<open>The clocks of a mirroring session that has run for less than 136 years.\<close>

definition video_clock_ok :: "'m video_module \<Rightarrow> bool" where
  "video_clock_ok s \<longleftrightarrow> sequence s < 2 ^ 64 \<and> last_pts s - first_pts s < 4294967000 * 1000000"

lemma hls_manifest_total:
  assumes "video_inv s" "video_clock_ok s" "length token \<le> 64"
  shows "\<exists>b. airtizen_video_hls_manifest alloc (Some token) s = Some b \<and> length b < 8192"
proof (cases "hls_groups s")
  case Nil
  then show ?thesis by (simp add: airtizen_video_hls_manifest_def)
next
  case (Cons g gs)
  have "\<exists>b. airtizen_video_hls_manifest True (Some token) s = Some b"
    using hls_manifest_run [OF assms(1) _ _ assms(3) Cons] assms(2) by (auto simp: video_clock_ok_def)
  then obtain t tx where "hls_target s (g # gs) = Some t" "fold (\<lambda>h. hls_append (hls_entry s (hls_auth (Some token)) h)) (g # gs)
      (Some (hls_head t g (vs_generation (v_state s)) (hls_auth (Some token)))) = Some tx"
    by (auto simp: airtizen_video_hls_manifest_def Cons bind_eq_Some_conv)
  then show ?thesis unfolding airtizen_video_hls_manifest_def Cons by simp
qed

lemma photo_copy_total:
  assumes "photo_inv s"
  shows "\<exists>r. airtizen_photo_copy alloc g s = Some r \<and> (case r of None \<Rightarrow> True | Some (b, m) \<Rightarrow> length b \<le> AIRTIZEN_PHOTO_MAX_BYTES \<and> length m \<le> 10)"
proof (cases "displayed s")
  case None
  then show ?thesis by (simp add: airtizen_photo_copy_def)
next
  case (Some d)
  then have d: "d < SLOTS" "occupied s d" "length (cache s) = SLOTS" "asset_ok (cache s ! d)" using assms by (auto simp: photo_inv_def)
  then obtain b where b: "as_data (cache s ! d) = Some b" by (auto simp: occupied_def)
  then have a: "as_size (cache s ! d) = length b" "length b \<le> AIRTIZEN_PHOTO_MAX_BYTES"
    "dimensions b = Some (Some (as_width (cache s ! d), as_height (cache s ! d), as_mime (cache s ! d)))"
    using d(4) by (simp_all add: asset_ok_def)
  have "length (as_mime (cache s ! d)) \<le> 10" using dimensions_bounds [OF a(3)] by auto
  then show ?thesis using Some d(1,3) b a(1,2) by (auto simp: airtizen_photo_copy_def rd_def rdn_def)
qed

text \<open>The outcome of a request: an answer that fits, and the invariant kept.\<close>

definition served :: "(response \<times> 'm runtime) option \<Rightarrow> bool" where
  "served x \<longleftrightarrow> (\<exists>r rt. x = Some (r, rt) \<and> answer_ok r \<and> runtime_inv rt)"

lemma served_simps [simp]: "served (Some (r, rt)) \<longleftrightarrow> answer_ok r \<and> runtime_inv rt"
  by (simp add: served_def)

lemma served_if: "served x \<Longrightarrow> served y \<Longrightarrow> served (if b then x else y)"
  by simp

lemma served_with_state: "runtime_inv rt \<Longrightarrow> \<exists>r. x = Some r \<and> answer_ok r \<Longrightarrow> served (with_state rt x)"
  by (auto simp: with_state_def)

lemma status_answer:
  assumes "runtime_inv rt" "g_text_ok (ce_text ce)" "length (hd_response_origin h) \<le> 7"
  shows "\<exists>r. status_response ce h rc rt = Some r \<and> answer_ok r"
proof -
  obtain doc where "airtizen_runtime_status_json (ce_text ce) (ce_build ce) rt = Some doc" "length doc < 32768"
    using status_document [OF assms(1,2)] by blast
  then show ?thesis using assms(3) by (auto simp: status_response_def intro!: short_answer)
qed

lemma media_answer: "length (hd_response_origin h) \<le> 7 \<Longrightarrow> length m \<le> 40 \<Longrightarrow> length b \<le> 25165824 \<Longrightarrow> answer_ok (media_response h m b g)"
  by (simp add: answer_ok_def media_response_def)

lemma serving_answers:
  assumes rt: "runtime_inv rt" and og: "length (hd_response_origin h) \<le> 7"
  shows "\<exists>r. serve_photo ce h g rt = Some r \<and> answer_ok r" "answer_ok (serve_artwork ce h g rt)"
    "\<exists>r. serve_segment ce h q rt = Some r \<and> answer_ok r" "\<exists>r. serve_media ce h ro rt = Some r \<and> answer_ok r"
    "video_clock_ok (rc_video (rt_receiver rt)) \<Longrightarrow> length token \<le> 64 \<Longrightarrow> \<exists>r. serve_manifest ce token h rt = Some r \<and> answer_ok r"
proof -
  have inv: "receiver_inv (rt_receiver rt)" using rt by (simp add: runtime_inv_def)
  note parts = receiver_parts [OF inv]
  note bodies = failed_body_def error_body_def
  from photo_copy_total [OF parts(4), of "ce_alloc ce" g]
  show "\<exists>r. serve_photo ce h g rt = Some r \<and> answer_ok r"
    by (auto simp: serve_photo_def bodies AIRTIZEN_PHOTO_MAX_BYTES_def intro!: media_answer short_answer og split: option.splits)
  from parts(2) show "answer_ok (serve_artwork ce h g rt)"
    by (auto simp: serve_artwork_def airtizen_metadata_copy_artwork_def metadata_inv_def artwork_ok_def ART_LIMIT_def bodies
        intro!: media_answer short_answer og split: option.splits if_splits)
  obtain gen f l where q: "q = (gen, f, l)" by (cases q)
  from hls_segment_total [OF parts(3), of "ce_alloc ce" gen "unat f" "unat l"]
  show "\<exists>r. serve_segment ce h q rt = Some r \<and> answer_ok r"
    by (auto simp: serve_segment_def q bodies TOTAL_LIMIT_def intro!: media_answer short_answer og)
  from video_copy_total [OF parts(3), of "ce_alloc ce" "ro_media_init ro \<or> ro_hls_init ro \<noteq> None" "case ro_media_segment ro of Some q \<Rightarrow> q | None \<Rightarrow> 0"]
  obtain b g where b: "airtizen_video_copy (ce_alloc ce) (ro_media_init ro \<or> ro_hls_init ro \<noteq> None) (case ro_media_segment ro of Some q \<Rightarrow> q | None \<Rightarrow> 0)
      (rc_video (rt_receiver rt)) = Some (b, g)" "length b \<le> PART_LIMIT" by blast
  show "\<exists>r. serve_media ce h ro rt = Some r \<and> answer_ok r"
    unfolding serve_media_def b(1) using b(2)
    by (auto simp: bodies PART_LIMIT_def Let_def intro!: media_answer short_answer og split: option.split)
  assume "video_clock_ok (rc_video (rt_receiver rt))" "length token \<le> 64"
  from hls_manifest_total [OF parts(3) this, of "ce_alloc ce"] show "\<exists>r. serve_manifest ce token h rt = Some r \<and> answer_ok r"
    by (auto simp: serve_manifest_def bodies intro!: media_answer short_answer og)
qed

lemma reporting_answers:
  assumes rt: "runtime_inv rt" and og: "length (hd_response_origin h) \<le> 7"
  shows "served (Some (report_photo h q rt))" "served (Some (report_playback h p rt))"
proof -
  have bodies: "length failed_body < 10 ^ 10" "length ok_body < 10 ^ 10" by (simp_all add: failed_body_def ok_body_def)
  obtain rc ph where a: "airtizen_photo_report (fst q) (snd q) (rc_photo (rt_receiver rt)) = (rc, ph)" by fastforce
  have "runtime_inv (on_receiver (\<lambda>r. r\<lparr>rc_photo := ph\<rparr>) rt)"
    using runtime_step_inv [OF rt, of "RtPhoto (photo_op.Report (fst q) (snd q))"] a by (simp add: runtime_step_def photo_step_def on_receiver_def)
  then show "served (Some (report_photo h q rt))" using a rt og bodies by (simp add: report_photo_def short_answer)
  obtain gen pos dur rdy fld ended where p: "p = (gen, pos, dur, rdy, fld, ended)" by (cases p)
  obtain rc2 pb where b: "airtizen_playback_report gen pos dur rdy fld ended (rc_playback (rt_receiver rt)) = (rc2, pb)" by fastforce
  have "runtime_inv (on_receiver (\<lambda>r. r\<lparr>rc_playback := pb\<rparr>) rt)"
    using runtime_step_inv [OF rt, of "RtPlayback (playback_op.Report gen pos dur rdy fld ended)"] b
    by (simp add: runtime_step_def playback_step_def on_receiver_def)
  then show "served (Some (report_playback h p rt))" using b rt og bodies by (simp add: report_playback_def p short_answer)
qed

lemma lifecycle_answers:
  assumes rt: "runtime_inv rt" and g: "g_text_ok (ce_text ce)" and og: "length (hd_response_origin h) \<le> 7"
  shows "served (switch_profile ce h path rt)" "served (start_stop ce h path rt)"
proof -
  have req: "answer_ok (control_required h)" using og by (auto simp: control_required_def error_body_def intro!: short_answer)
  have st: "\<exists>r. status_response ce h rc rt1 = Some r \<and> answer_ok r" if "runtime_inv rt1" for rc rt1
    using status_answer [OF that g og] .
  obtain rc rt1 where p: "airtizen_runtime_set_discovery_profile (ce_su ce) (Some (drop 11 path)) rt = Some (rc, rt1)" "runtime_inv rt1"
    using set_profile_cases [OF rt] by blast
  show "served (switch_profile ce h path rt)" using st [OF p(2), of rc] p(1) req rt p(2) by (auto simp: switch_profile_def)
  obtain rc2 rt2 where s: "airtizen_runtime_start (ce_su ce) None rt = Some (rc2, rt2)" "runtime_inv rt2"
    using runtime_start_cases [OF rt] by blast
  obtain rt3 where e: "airtizen_runtime_stop (ce_su ce) rt = Some rt3" "runtime_inv rt3"
    using stop_locked_cases [OF rt] by (auto simp: airtizen_runtime_stop_def)
  show "served (start_stop ce h path rt)"
    using st [OF s(2), of rc2] st [OF e(2), of 0] s e req rt by (auto simp: start_stop_def)
qed

lemma dispatch_served:
  assumes rt: "runtime_inv rt" and g: "g_text_ok (ce_text ce)" and og: "length (hd_response_origin h) \<le> 7"
    and v: "video_clock_ok (rc_video (rt_receiver rt))" and t: "length token \<le> 64"
  shows "served (dispatch ce token qa h method path rt)"
proof -
  have short: "answer_ok (respond (hd_response_origin h) st (error_body e))" if "length st \<le> 40" "length e \<le> 100" for st e
    using that og by (intro short_answer) (simp_all add: error_body_def)
  have nc: "answer_ok (respond (hd_response_origin h) (str ''204 No Content'') [])" using og by (intro short_answer) simp_all
  note serving = serving_answers(1-4) [OF rt og] serving_answers(5) [OF rt og v t]
  note parts = serving(1,3,4,5) status_answer [OF rt g og]
  show ?thesis unfolding dispatch_def Let_def
    by (intro served_if) (simp_all add: short nc rt serving(2) served_with_state [OF rt parts(1)] served_with_state [OF rt parts(2)] served_with_state [OF rt parts(3)]
        served_with_state [OF rt parts(4)] served_with_state [OF rt parts(5)] reporting_answers [OF rt og] lifecycle_answers [OF rt g og])
qed

lemma handle_client_served:
  assumes rt: "runtime_inv rt" and g: "g_text_ok (ce_text ce)" and t: "token_ok (ct_token c)" and v: "video_clock_ok (rc_video (rt_receiver rt))"
  shows "served (handle_client ce c es rt)"
proof (cases "read_request es []")
  case (Inl r)
  then show ?thesis using read_request_answer rt by (simp add: handle_client_def)
next
  case (Inr q)
  obtain req e where q: "q = (req, e)" by (cases q)
  have "strstr (crlf @ crlf) req = Some e" using read_request_prefix [of es "[]" req e] Inr q by auto
  then obtain n where n: "strstr crlf req = Some n" using strstr_prefix by blast
  have bad: "answer_ok bad_request" by (auto simp: bad_request_def failed_body_def intro!: short_answer)
  have len: "length (ct_token c) \<le> 64" using t by (auto simp: token_ok_def)
  have og: "length (hd_response_origin headers_init) \<le> 7" by (simp add: headers_init_def)
  note hl = header_loop_origin [OF og, of "ct_token c" "fit 64 (host_text (ct_port c))" "drop (n + 2) req" "e - (n + 2)"]
  show ?thesis using Inr q n bad rt hl dispatch_served [OF rt g _ v len]
    by (auto simp: handle_client_def split: option.splits prod.splits sum.splits)
qed

text \<open>The server loop without authorised clients runs to its end, and the process leaves nothing running:
  every exit of \<open>main\<close> that happens before the loop stops what was started.\<close>

fun client_bytes :: "'m server_event \<Rightarrow> cstring" where
  "client_bytes (Client ce recvs sends) = received recvs"
| "client_bytes _ = []"

lemma server_loop_unauthorised:
  assumes "token_ok (ct_token c)" "ct_token c \<noteq> []" "\<forall>e \<in> set es. \<not> sublist (ct_token c) (client_bytes e)"
  shows "\<exists>ended out'. server_loop c es out rt = Some (ended, out', rt) \<and> (StopPipe \<in> set es \<longrightarrow> ended)"
  using assms(3)
proof (induction es arbitrary: out)
  case (Cons e es)
  then have IH: "\<exists>ended out'. server_loop c es out1 rt = Some (ended, out', rt) \<and> (StopPipe \<in> set es \<longrightarrow> ended)" for out1 by simp
  show ?case
  proof (cases e)
    case (Client ce recvs sends)
    then obtain r where "handle_client ce c recvs rt = Some (r, rt)"
      using unauthorised_refused [OF assms(1,2), of recvs ce rt] Cons.prems by auto
    then show ?thesis using IH Client by simp
  qed (use IH in auto)
qed auto

lemma main_stops_everything:
  assumes inv: "runtime_inv rt" and off: "\<not> rt_started rt" "\<not> ct_started c"
    and m: "airtizen_main su socket_ok bound thread_ok token arg events c rt = Some (1, c', rt')"
  shows "\<not> rt_started rt' \<and> \<not> ct_started c' \<and> runtime_inv rt'"
proof -
  obtain rc c1 where t: "(case token of None \<Rightarrow> (0, c) | Some t \<Rightarrow> airtizen_control_http_set_token (Some t) c) = (rc, c1)" by fastforce
  have c1: "\<not> ct_started c1" using t off(2) by (auto simp: airtizen_control_http_set_token_def split: option.splits if_splits)
  obtain rc1 rt1 where s: "airtizen_runtime_start su (Some (case arg of Some a \<Rightarrow> a | None \<Rightarrow> str ''AirTizen TV'')) rt = Some (rc1, rt1)"
    "runtime_inv rt1" "rc1 \<noteq> 0 \<longrightarrow> \<not> rt_started rt1"
    using runtime_start_cases [OF inv, of su "Some (case arg of Some a \<Rightarrow> a | None \<Rightarrow> str ''AirTizen TV'')"] off(1) by (auto split: if_splits)
  obtain rt2 where e: "airtizen_runtime_stop su rt1 = Some rt2" "runtime_inv rt2" "\<not> rt_started rt2"
    using stop_locked_cases [OF s(2), of su] by (auto simp: airtizen_runtime_stop_def)
  obtain rc2 c2 where h: "airtizen_control_http_start socket_ok bound thread_ok 45110 c1 = (rc2, c2)" by fastforce
  have c2: "rc2 \<noteq> 0 \<longrightarrow> \<not> ct_started c2" using h c1 by (auto simp: airtizen_control_http_start_def split: if_splits)
  show ?thesis using m t s e h c1 c2 inv off
    by (auto simp: airtizen_main_def main_loop_def bind_eq_Some_conv split: if_splits)
qed

section \<open>Properties\<close>

text \<open>The token is configured exactly when the server has not started and the text
  is 64 lower-case hexadecimal digits, otherwise nothing changes; and then the comparison, which accumulates the differences of all bytes
  instead of stopping at the first, accepts that text and no other.\<close>

theorem control_token_exact:
  "case airtizen_control_http_set_token (Some t) c of (rc, c') \<Rightarrow>
     if \<not> ct_started c \<and> length t = 64 \<and> list_all token_char t then rc = 0 \<and> (\<forall>v. token_equal (ct_token c') v = (v = t))
     else rc = -1 \<and> c' = c"
proof -
  have "token_equal t v = (v = t)" if "length t = 64" "list_all token_char t" for v
    using token_equal_iff [of t v] that by (auto simp: token_ok_def)
  then show ?thesis by (simp add: airtizen_control_http_set_token_def)
qed

text \<open>C2: with a token configured, a client whose bytes do not contain the token
  changes nothing and learns nothing, whatever it sends and however the bytes are split: the connection
  is answered, the receiver is untouched, and the body of the answer is one of six fixed texts.\<close>

theorem control_unauthorised_refused:
  assumes "length (ct_token c) = 64" and "list_all token_char (ct_token c)" and "\<not> sublist (ct_token c) (received es)"
  shows "\<exists>r. handle_client ce c es rt = Some (r, rt) \<and> rs_body r \<in> refusals"
proof (rule unauthorised_refused)
  show "token_ok (ct_token c)" "ct_token c \<noteq> []" "\<not> sublist (ct_token c) (received es)" using assms by (auto simp: token_ok_def)
qed

definition sample_surroundings :: "unit surroundings" where
  "sample_surroundings = \<lparr>su_ffmpeg = sample_ffmpeg,
     su_audio = sample_dev, su_mode = str ''playing'', su_raop = \<lparr>raop_init_ok = True, raop_key = (\<lambda>_. 7), raop_start_rc = 0\<rparr>,
     su_ifs = None, su_errno = 19, su_outcome = (\<lambda>_. None), su_now = 100, su_late = []\<rparr>"

definition sample_env :: "unit control_env" where
  "sample_env = \<lparr>ce_su = sample_surroundings, ce_lib = \<lparr>lc_uint = (\<lambda>_. 0), lc_int = (\<lambda>_. 0), lc_ull = (\<lambda>_. 0), lc_double = (\<lambda>s. Some (Fin 0, s))\<rparr>,
     ce_text = integer_text, ce_build = Host, ce_alloc = True\<rparr>"

definition sample_request :: cstring where
  "sample_request = str ''POST /start HTTP/1.1'' @ crlf @ str ''Host: 127.0.0.1:0'' @ crlf @ crlf"

theorem control_unauthorised_refused_witness:
  "\<exists>r. handle_client sample_env (control_init\<lparr>ct_token := replicate 64 97\<rparr>) [Received sample_request] runtime_init = Some (r, runtime_init) \<and>
     rs_body r \<in> refusals"
proof (rule control_unauthorised_refused)
  show "length (ct_token (control_init\<lparr>ct_token := replicate 64 97\<rparr>)) = 64" by simp
  show "list_all token_char (ct_token (control_init\<lparr>ct_token := replicate 64 97\<rparr>))" by (simp add: list_all_iff token_char_def)
  have "length sample_request < 64" by (simp add: sample_request_def)
  then show "\<not> sublist (ct_token (control_init\<lparr>ct_token := replicate 64 97\<rparr>)) (received [Received sample_request])"
    using sublist_length_le [of "replicate 64 97" sample_request] by auto
qed



end
