(* ===== verification/Challenge.thy ===== *)
theory Challenge
  imports Mdns
begin

text \<open>
  The Apple-Challenge of the RTSP connection (\<open>native/src/airtizen_apple_challenge.c\<close> and
  \<open>native/include/airtizen_raop_challenge.h\<close>): the receiver signs a challenge of 1 to 16 bytes, given
  in base64, together with its address and hardware id. The RSA key and the signature are a parameter.
  The theory shows that the syntax check accepts exactly the canonical base64 texts of 1 to 16 bytes,
  padded or not, and that the id the discovery service publishes always has the form the signer needs,
  so that a well-formed challenge is refused only when the signature fails.
\<close>

section \<open>The check of the challenge\<close>

definition alphabet :: cstring where
  "alphabet = str ''ABCDEFGHIJKLMNOPQRSTUVWXYZabcdefghijklmnopqrstuvwxyz0123456789+/''"

fun strchr :: "cstring \<Rightarrow> byte \<Rightarrow> nat option" where
  "strchr [] c = None"
| "strchr (x # xs) c = (if x = c then Some 0 else map_option Suc (strchr xs c))"

text \<open>The loop over the characters; the result is the final residue, \<open>None\<close> a character outside the
  alphabet.\<close>

fun challenge_loop :: "cstring \<Rightarrow> u32 \<Rightarrow> nat \<Rightarrow> u32 option" where
  "challenge_loop [] residue bits = Some residue"
| "challenge_loop (c # cs) residue bits =
     (case strchr alphabet c of
        None \<Rightarrow> None
      | Some d \<Rightarrow>
          let residue1 = push_bit 6 residue OR of_nat d; bits1 = bits + 6
          in if bits1 \<ge> 8 then challenge_loop cs (residue1 AND (push_bit (bits1 - 8) 1 - 1)) (bits1 - 8)
             else challenge_loop cs residue1 bits1)"

definition valid_challenge :: "cstring option \<Rightarrow> bool" where
  "valid_challenge text_ptr =
     (case text_ptr of
        None \<Rightarrow> False
      | Some t \<Rightarrow>
          let len = length t in
          if len < 2 \<or> len > 24 then False
          else let enc = length (dropWhile (\<lambda>c. c = 61) (rev t)); padding = len - enc in
            if enc < 2 \<or> enc > 22 \<or> enc mod 4 = 1 \<or> padding > 2 then False
            else if padding \<noteq> 0 \<and> (len mod 4 \<noteq> 0 \<or> padding \<noteq> (4 - enc mod 4) mod 4) then False
            else challenge_loop (take enc t) 0 0 = Some 0)"

section \<open>The response\<close>

definition hex_digit :: "byte \<Rightarrow> int" where
  "hex_digit v = (if 48 \<le> v \<and> v \<le> 57 then uint v - 48 else if 65 \<le> v \<and> v \<le> 70 then uint v - 65 + 10
                  else if 97 \<le> v \<and> v \<le> 102 then uint v - 97 + 10 else -1)"

text \<open>The signer: whether the key loads, and the signature (\<open>None\<close> is a failure).\<close>

record signer =
  sg_key :: bool
  sg_sign :: "cstring \<Rightarrow> byte list \<Rightarrow> byte list \<Rightarrow> cstring option"

text \<open>The hardware address of a device id, read pair by pair.\<close>

fun hardware_loop :: "cstring \<Rightarrow> nat \<Rightarrow> nat \<Rightarrow> byte list option" where
  "hardware_loop device_id i 0 = Some []"
| "hardware_loop device_id i (Suc n) =
     (let high = hex_digit (device_id ! (3 * i)); low = hex_digit (device_id ! (3 * i + 1)) in
      if high < 0 \<or> low < 0 \<or> (i < 5 \<and> device_id ! (3 * i + 2) \<noteq> 58) then None
      else map_option ((#) (of_int (high * 16 + low))) (hardware_loop device_id (i + 1) n))"

definition airtizen_apple_response ::
  "signer \<Rightarrow> cstring option \<Rightarrow> byte list option \<Rightarrow> cstring option \<Rightarrow> int \<times> cstring" where
  "airtizen_apple_response sg challenge local_ip device_id =
     (case (valid_challenge challenge, local_ip, device_id) of
        (True, Some ip, Some did) \<Rightarrow>
          if (length ip \<noteq> 4 \<and> length ip \<noteq> 16) \<or> length did \<noteq> 17 then (-1, [])
          else (case hardware_loop did 0 6 of
                  None \<Rightarrow> (-1, [])
                | Some hardware \<Rightarrow>
                    if \<not> sg_key sg then (-2, [])
                    else (case sg_sign sg (the challenge) ip hardware of
                            None \<Rightarrow> (-2, [])
                          | Some signature \<Rightarrow> (0, signature)))
      | _ \<Rightarrow> (-1, []))"

text \<open>What the connection does with the challenge header: nothing, an error answer that closes the
  connection, or the signature in a header of the answer.\<close>

datatype challenge_outcome = NoChallenge | ChallengeRefused nat | ChallengeSigned cstring

definition airtizen_raop_challenge :: "signer \<Rightarrow> cstring option \<Rightarrow> byte list \<Rightarrow> mdns_module \<Rightarrow> challenge_outcome" where
  "airtizen_raop_challenge sg challenge local s =
     (case challenge of
        None \<Rightarrow> NoChallenge
      | Some c \<Rightarrow>
          (case airtizen_mdns_identity 96 32 s of
             (receiver, device_id) \<Rightarrow>
               (case airtizen_apple_response sg (Some c) (Some local) (Some device_id) of
                  (result, signature) \<Rightarrow>
                    if result \<noteq> 0 then ChallengeRefused (if result = -1 then 400 else 503) else ChallengeSigned signature)))"

section \<open>Base64\<close>

text \<open>The reference: base64 without and with padding.\<close>

definition digit64 :: "nat \<Rightarrow> byte" where
  "digit64 n = alphabet ! n"

fun base64 :: "byte list \<Rightarrow> cstring" where
  "base64 [] = []"
| "base64 [a] = [digit64 (unat a div 4), digit64 (unat a mod 4 * 16)]"
| "base64 [a, b] = [digit64 (unat a div 4), digit64 (unat a mod 4 * 16 + unat b div 16), digit64 (unat b mod 16 * 4)]"
| "base64 (a # b # c # r) = [digit64 (unat a div 4), digit64 (unat a mod 4 * 16 + unat b div 16),
     digit64 (unat b mod 16 * 4 + unat c div 64), digit64 (unat c mod 64)] @ base64 r"

definition base64_pad :: "byte list \<Rightarrow> cstring" where
  "base64_pad bs = base64 bs @ replicate ((4 - length (base64 bs) mod 4) mod 4) 61"

section \<open>Digits\<close>

lemma strchr_iff: "distinct xs \<Longrightarrow> strchr xs c = Some d \<longleftrightarrow> d < length xs \<and> xs ! d = c"
proof (induction xs arbitrary: d)
  case (Cons x xs)
  show ?case
  proof (cases d)
    case 0
    then show ?thesis by (simp split: option.split)
  next
    case (Suc k)
    have "k < length xs \<Longrightarrow> xs ! k \<noteq> x" using Cons.prems nth_mem [of k xs] by auto
    then show ?thesis using Suc Cons.IH [of k] Cons.prems by auto
  qed
qed simp

lemma alphabet_length: "length alphabet = 64"
  by (simp add: alphabet_def)

lemma alphabet_distinct: "distinct alphabet"
  by code_simp

lemma alphabet_no_pad: "61 \<notin> set alphabet"
  by code_simp

lemmas alphabet_facts = alphabet_length alphabet_distinct alphabet_no_pad

lemma digit64_iff: "strchr alphabet c = Some d \<longleftrightarrow> d < 64 \<and> c = digit64 d"
  using strchr_iff [OF alphabet_facts(2)] by (auto simp: alphabet_facts(1) digit64_def)

lemma strchr_digit64 [simp]: "d < 64 \<Longrightarrow> strchr alphabet (digit64 d) = Some d"
  by (simp add: digit64_iff)

lemma digit64_not_pad: "d < 64 \<Longrightarrow> digit64 d \<noteq> 61"
  using alphabet_facts(1,3) nth_mem [of d alphabet] unfolding digit64_def by metis

text \<open>Only the last digit is left in the residue.\<close>

lemma residue_last:
  assumes "j \<le> 6"
  shows "(push_bit 6 x OR y) AND (push_bit j 1 - 1) = y AND (push_bit j 1 - 1 :: u32)"
proof -
  have m: "(push_bit j 1 - 1 :: u32) = mask j" by (simp add: mask_eq_exp_minus_1 push_bit_eq_mult)
  show ?thesis unfolding m by (rule bit_eqI) (use assms in \<open>auto simp: bit_simps\<close>)
qed

lemma residue_zero:
  assumes "d < 64" "j \<le> 6"
  shows "(of_nat d AND (push_bit j 1 - 1) :: u32) = 0 \<longleftrightarrow> d mod 2 ^ j = 0"
proof -
  have m: "(push_bit j 1 - 1 :: u32) = mask j" by (simp add: mask_eq_exp_minus_1 push_bit_eq_mult)
  have "unat (of_nat d :: u32) = d" using assms(1) by (intro unat_of_nat_u32) simp
  then have "unat (of_nat d AND mask j :: u32) = d mod 2 ^ j"
    by (simp only: take_bit_eq_mask [symmetric] unsigned_take_bit_eq) (simp add: take_bit_eq_mod)
  then show ?thesis unfolding m by (metis unat_eq_zero)
qed

lemma loop_group4:
  "a < 64 \<Longrightarrow> b < 64 \<Longrightarrow> c < 64 \<Longrightarrow> d < 64 \<Longrightarrow>
    challenge_loop (digit64 a # digit64 b # digit64 c # digit64 d # cs) 0 0 = challenge_loop cs 0 0"
  by (simp add: Let_def)

lemma loop_group2: "a < 64 \<Longrightarrow> b < 64 \<Longrightarrow> challenge_loop [digit64 a, digit64 b] 0 0 = Some 0 \<longleftrightarrow> b mod 16 = 0"
  using residue_last [of 4 "of_nat a" "of_nat b"] residue_zero [of b 4] by (simp add: Let_def)

lemma loop_group3: "a < 64 \<Longrightarrow> b < 64 \<Longrightarrow> c < 64 \<Longrightarrow> challenge_loop [digit64 a, digit64 b, digit64 c] 0 0 = Some 0 \<longleftrightarrow> c mod 4 = 0"
  using residue_last [of 2 "(push_bit 6 (of_nat a) OR of_nat b) AND (push_bit 4 1 - 1)" "of_nat c"] residue_zero [of c 2] by (simp add: Let_def)

section \<open>The check accepts base64\<close>

lemma digit_bounds: "unat (a :: byte) div 4 < 64" "unat a mod 4 * 16 + unat (b :: byte) div 16 < 64" "unat a mod 4 * 16 < 64"
    "unat b mod 16 * 4 + unat (c :: byte) div 64 < 64" "unat b mod 16 * 4 < 64" "unat c mod 64 < 64"
proof -
  have "unat a < 256" "unat b < 256" "unat c < 256" by simp_all
  then show "unat a div 4 < 64" "unat a mod 4 * 16 + unat b div 16 < 64" "unat a mod 4 * 16 < 64"
    "unat b mod 16 * 4 + unat c div 64 < 64" "unat b mod 16 * 4 < 64" "unat c mod 64 < 64" by linarith+
qed

lemma base64_accepted: "challenge_loop (base64 bs) 0 0 = Some 0"
  by (induction bs rule: base64.induct) (simp_all add: loop_group2 loop_group3 loop_group4 digit_bounds del: challenge_loop.simps(2))

lemma loop_digits: "challenge_loop cs r n = Some x \<Longrightarrow> \<exists>ds. cs = map digit64 ds \<and> list_all (\<lambda>d. d < 64) ds"
proof (induction cs arbitrary: r n)
  case (Cons c cs)
  from Cons.prems obtain d where d: "strchr alphabet c = Some d" by (auto split: option.splits)
  from Cons.prems d Cons.IH obtain ds where "cs = map digit64 ds" "list_all (\<lambda>d. d < 64) ds" by (auto simp: Let_def split: if_splits)
  then show ?case using d by (intro exI [of _ "d # ds"]) (simp add: digit64_iff)
qed simp

lemma base64_exists:
  "list_all (\<lambda>d. d < 64) ds \<Longrightarrow> length ds mod 4 \<noteq> 1 \<Longrightarrow> challenge_loop (map digit64 ds) 0 0 = Some 0 \<Longrightarrow> \<exists>bs. map digit64 ds = base64 bs"
proof (induction ds rule: length_induct)
  case (1 ds)
  note w = unat_of_nat_byte
  show ?case
  proof (cases ds)
    case Nil then show ?thesis by (intro exI [of _ "[]"]) simp
  next
    case (Cons a ds1)
    show ?thesis
    proof (cases ds1)
      case Nil then show ?thesis using Cons "1.prems"(2) by simp
    next
      case c1: (Cons b ds2)
      show ?thesis
      proof (cases ds2)
        case Nil
        then have ab: "a < 64" "b < 64" "b mod 16 = 0" using "1.prems" Cons c1 loop_group2 by auto
        have "b div 16 * 16 = b" using div_mult_mod_eq [of b 16] ab(3) by simp
        then have "map digit64 ds = base64 [of_nat (a * 4 + b div 16)]" using ab w [of "a * 4 + b div 16"] Nil Cons c1 by simp
        then show ?thesis by blast
      next
        case c2: (Cons c ds3)
        show ?thesis
        proof (cases ds3)
          case Nil
          then have abc: "a < 64" "b < 64" "c < 64" "c mod 4 = 0" using "1.prems" Cons c1 c2 loop_group3 by auto
          have "c div 4 * 4 = c" using div_mult_mod_eq [of c 4] abc(4) by simp
          then have "map digit64 ds = base64 [of_nat (a * 4 + b div 16), of_nat (b mod 16 * 16 + c div 4)]"
            using abc w [of "a * 4 + b div 16"] w [of "b mod 16 * 16 + c div 4"] Nil Cons c1 c2 by simp
          then show ?thesis by blast
        next
          case c3: (Cons d r)
          have abcd: "a < 64" "b < 64" "c < 64" "d < 64" "list_all (\<lambda>d. d < 64) r" using "1.prems"(1) Cons c1 c2 c3 by auto
          have "\<exists>bs. map digit64 r = base64 bs"
            using "1.IH" [rule_format, of r] abcd "1.prems"(2,3) loop_group4 [OF abcd(1-4)] Cons c1 c2 c3 by auto
          then obtain bs where bs: "map digit64 r = base64 bs" by blast
          have "map digit64 ds = base64 (of_nat (a * 4 + b div 16) # of_nat (b mod 16 * 16 + c div 4) # of_nat (c mod 4 * 64 + d) # bs)"
            using abcd w [of "a * 4 + b div 16"] w [of "b mod 16 * 16 + c div 4"] w [of "c mod 4 * 64 + d"] bs Cons c1 c2 c3 by simp
          then show ?thesis by blast
        qed
      qed
    qed
  qed
qed

lemma length_base64: "length (base64 bs) = (length bs * 4 + 2) div 3"
  by (induction bs rule: base64.induct) simp_all

lemma base64_length_mod: "length (base64 bs) mod 4 \<noteq> 1"
  unfolding length_base64 by presburger

lemma base64_length_range: "2 \<le> length (base64 bs) \<and> length (base64 bs) \<le> 22 \<longleftrightarrow> 1 \<le> length bs \<and> length bs \<le> 16"
  unfolding length_base64 by presburger

lemma base64_no_pad: "61 \<notin> set (base64 bs)"
  by (induction bs rule: base64.induct) (auto dest: sym intro: digit_bounds simp: digit_bounds digit64_not_pad [symmetric] digit64_not_pad)

lemma strip_pad:
  assumes "x \<notin> set cs" "cs \<noteq> []"
  shows "length (dropWhile (\<lambda>c. c = x) (rev (cs @ replicate k x))) = length cs"
proof -
  have "dropWhile (\<lambda>c. c = x) (replicate k x @ rev cs) = dropWhile (\<lambda>c. c = x) (rev cs)" by (induction k) simp_all
  moreover have "dropWhile (\<lambda>c. c = x) (rev cs) = rev cs" using assms by (cases "rev cs") (auto simp: rev_eq_Cons_iff)
  ultimately show ?thesis by simp
qed

lemma pad_split: "t = take (length (dropWhile (\<lambda>c. c = x) (rev t))) t @ replicate (length t - length (dropWhile (\<lambda>c. c = x) (rev t))) x"
proof -
  let ?n = "length (dropWhile (\<lambda>c. c = x) (rev t))"
  have tw: "takeWhile (\<lambda>c. c = x) (rev t) = replicate (length (takeWhile (\<lambda>c. c = x) (rev t))) x"
    by (rule replicate_length_same [symmetric]) (auto dest: set_takeWhileD)
  have "rev t = takeWhile (\<lambda>c. c = x) (rev t) @ dropWhile (\<lambda>c. c = x) (rev t)" by simp
  then have r: "t = rev (dropWhile (\<lambda>c. c = x) (rev t)) @ rev (takeWhile (\<lambda>c. c = x) (rev t))" by (metis rev_append rev_rev_ident)
  then have "take ?n t = rev (dropWhile (\<lambda>c. c = x) (rev t))" by (metis append_eq_conv_conj length_rev)
  moreover have "length (takeWhile (\<lambda>c. c = x) (rev t)) = length t - ?n" using arg_cong [OF r, of length] by simp
  ultimately show ?thesis using r tw by (metis rev_replicate)
qed

lemma pad_count: "n mod 4 \<noteq> 1 \<Longrightarrow> (4 - n mod 4) mod 4 \<le> 2 \<and> (n + (4 - n mod 4) mod 4) mod 4 = (0 :: nat)"
proof -
  assume "n mod 4 \<noteq> 1"
  then consider "n mod 4 = 0" | "n mod 4 = 2" | "n mod 4 = 3" using mod_less_divisor [of 4 n] by linarith
  then show ?thesis by cases ((simp; presburger)+)
qed

lemma valid_challenge_iff:
  "valid_challenge (Some t) \<longleftrightarrow> (\<exists>bs. 1 \<le> length bs \<and> length bs \<le> 16 \<and> (t = base64 bs \<or> t = base64_pad bs))"
proof
  assume v: "valid_challenge (Some t)"
  define e where "e = length (dropWhile (\<lambda>c. c = 61) (rev t))"
  from v have c: "2 \<le> e" "e \<le> 22" "e mod 4 \<noteq> 1" "length t - e \<noteq> 0 \<longrightarrow> length t - e = (4 - e mod 4) mod 4"
    "challenge_loop (take e t) 0 0 = Some 0"
    by (auto simp: valid_challenge_def e_def Let_def split: if_splits)
  have le: "e \<le> length t" unfolding e_def using length_dropWhile_le [of _ "rev t"] by simp
  have split: "t = take e t @ replicate (length t - e) 61" unfolding e_def by (rule pad_split)
  from loop_digits [OF c(5)] obtain ds where ds: "take e t = map digit64 ds" "list_all (\<lambda>d. d < 64) ds" by blast
  have "length ds = e" using arg_cong [OF ds(1), of length] le by simp
  then obtain bs where bs: "take e t = base64 bs" using base64_exists [OF ds(2)] c(3,5) ds(1) by auto
  then have len: "length (base64 bs) = e" using le by (metis length_take min.absorb2)
  have "1 \<le> length bs \<and> length bs \<le> 16" using base64_length_range [of bs] c(1,2) len by simp
  moreover have "t = base64 bs \<or> t = base64_pad bs"
    using split bs len c(4) by (cases "length t - e = 0") (simp_all add: base64_pad_def)
  ultimately show "\<exists>bs. 1 \<le> length bs \<and> length bs \<le> 16 \<and> (t = base64 bs \<or> t = base64_pad bs)" by blast
next
  assume "\<exists>bs. 1 \<le> length bs \<and> length bs \<le> 16 \<and> (t = base64 bs \<or> t = base64_pad bs)"
  then obtain bs k where bs: "1 \<le> length bs" "length bs \<le> 16" "t = base64 bs @ replicate k 61"
    "k = 0 \<or> k = (4 - length (base64 bs) mod 4) mod 4" by (auto simp: base64_pad_def)
  let ?n = "length (base64 bs)"
  have r: "2 \<le> ?n" "?n \<le> 22" "?n mod 4 \<noteq> 1" using base64_length_range [of bs] base64_length_mod [of bs] bs(1,2) by auto
  have e: "length (dropWhile (\<lambda>c. c = 61) (rev t)) = ?n" unfolding bs(3) by (rule strip_pad) (use base64_no_pad r in auto)
  have k: "k \<le> 2" "k \<noteq> 0 \<longrightarrow> (?n + k) mod 4 = 0" using bs(4) pad_count [OF r(3)] by auto
  show "valid_challenge (Some t)" using r k bs(4) base64_accepted [of bs] unfolding valid_challenge_def option.case Let_def e
    by (auto simp: bs(3))
qed

section \<open>The published id\<close>

lemma colon_text: "str '':'' = [58]"
  by code_simp

lemma hex_upper_value: "hex_upper c \<Longrightarrow> 0 \<le> hex_digit c"
  by (auto simp: hex_upper_def hex_digit_def word_le_def)

text \<open>The bytes an id of twelve digits stands for.\<close>

definition hardware_of :: "cstring \<Rightarrow> byte list" where
  "hardware_of i = map (\<lambda>n. of_int (hex_digit (i ! (2 * n)) * 16 + hex_digit (i ! (2 * n + 1)))) [0..<6]"

lemma published_id:
  assumes "valid_id i"
  shows "length (colon_id i) = 17" and "hardware_loop (colon_id i) 0 6 = Some (hardware_of i)"
proof -
  have "length i = 12" using assms by (simp add: valid_id_def)
  then obtain a b c d e f g h j k l m where i: "i = [a, b, c, d, e, f, g, h, j, k, l, m]"
    by (auto simp: length_Suc_conv numeral_eq_Suc)
  show "length (colon_id i) = 17" by (simp add: i colon_id_def colon_text)
  have "list_all (\<lambda>x. 0 \<le> hex_digit x) i" using assms by (auto simp: valid_id_def list_all_iff hex_upper_value)
  then show "hardware_loop (colon_id i) 0 6 = Some (hardware_of i)"
    by (simp add: i colon_id_def colon_text hardware_of_def upt_rec numeral_eq_Suc Let_def)
qed

section \<open>Main results\<close>

text \<open>
  The syntax check accepts a text exactly when it is the canonical base64 of 1 to 16
  bytes, with its padding or without it. In particular no text with stray bits in its last digit, with
  wrong padding or with a character outside the alphabet reaches the signer's decoder.
\<close>

theorem challenge_exact:
  "valid_challenge (Some t) \<longleftrightarrow> (\<exists>bs. 1 \<le> length bs \<and> length bs \<le> 16 \<and> (t = base64 bs \<or> t = base64_pad bs))"
  by (rule valid_challenge_iff)

text \<open>
  C21: after every history of the discovery service, a challenge on a connection with an
  IPv4 or IPv6 address is answered 400 exactly when it is malformed, and 503 exactly when the key does
  not load or the signature fails; otherwise the answer carries the signature of the challenge with the
  address of the connection and the six bytes the published device id stands for.
\<close>

theorem challenge_served:
  fixes ops :: "mdns_op list"
  assumes "length local = 4 \<or> length local = 16"
  defines "s \<equiv> fold mdns_step ops mdns_init"
  shows "airtizen_raop_challenge sg (Some c) local s =
    (if \<not> valid_challenge (Some c) then ChallengeRefused 400
     else case (if sg_key sg then sg_sign sg c local (hardware_of (g_id s)) else None) of
       None \<Rightarrow> ChallengeRefused 503 | Some signature \<Rightarrow> ChallengeSigned signature)"
proof -
  have "mdns_inv s" unfolding s_def by (rule mdns.run_inv)
  then have v: "valid_id (g_id s)" by (simp add: mdns_inv_def)
  have fit: "fit 32 (colon_id (g_id s)) = colon_id (g_id s)" using published_id(1) [OF v] by (simp add: fit_id)
  show ?thesis using assms(1) published_id [OF v]
    by (auto simp: airtizen_raop_challenge_def airtizen_mdns_identity_def airtizen_apple_response_def fit split: option.split bool.split)
qed

theorem challenge_served_witness:
  "airtizen_raop_challenge \<lparr>sg_key = True, sg_sign = (\<lambda>c ip hw. Some (c @ ip @ hw))\<rparr> (Some (str ''AAECAwQFBgcICQoLDA0ODw=='')) [192, 168, 1, 2]
     mdns_init = ChallengeSigned (str ''AAECAwQFBgcICQoLDA0ODw=='' @ [192, 168, 1, 2] @ [161, 178, 195, 212, 229, 246])"
proof -
  have v: "valid_challenge (Some (str ''AAECAwQFBgcICQoLDA0ODw==''))" by code_simp
  have h: "hardware_of (g_id mdns_init) = [161, 178, 195, 212, 229, 246]" by code_simp
  show ?thesis using challenge_served [of "[192, 168, 1, 2]" _ _ "[]"] by (simp add: v h)
qed

end
