(* ===== verification/Audio_Format.thy ===== *)
theory Audio_Format
  imports Playback
begin

text \<open>
  Audio formats: the stream parameters a sender negotiates
  (\<open>native/include/airtizen_audio_parameters.h\<close>) and the two decoders they select
  (\<open>native/src/airtizen_alac.c\<close>, \<open>native/src/airtizen_aac.c\<close>). A property list is a tree
  (\<open>third_party/AirPlayServerLib/lib/plist/plist.c\<close>); FFmpeg's codecs are a parameter: what opening,
  sending a packet and receiving a frame return.
\<close>

section \<open>Property lists\<close>

text \<open>The nodes the receiver looks at; dates, UIDs and keys are \<open>POther\<close>.\<close>

datatype plist =
    PBool bool | PUint u64 | PReal cdouble | PString cstring | PData "byte list"
  | PArray "plist list" | PDict "(cstring \<times> plist) list" | POther

definition plist_dict_get_item :: "plist option \<Rightarrow> cstring \<Rightarrow> plist option" where
  "plist_dict_get_item node key = (case node of Some (PDict kvs) \<Rightarrow> map_of kvs key | _ \<Rightarrow> None)"

section \<open>Stream parameters\<close>

text \<open>An optional unsigned entry: its default when it is absent, an error when it has another type.\<close>

definition uint_item :: "plist option \<Rightarrow> u64 \<Rightarrow> u64 option" where
  "uint_item node v0 = (case node of None \<Rightarrow> Some v0 | Some (PUint v) \<Rightarrow> Some v | Some _ \<Rightarrow> None)"

text \<open>The codec and sample rate of an \<open>audioFormat\<close> bit.\<close>

definition audio_format :: "u64 \<Rightarrow> (u64 \<times> u64) option" where
  "audio_format format =
     (if format = push_bit 18 1 then Some (2, 44100)
      else if format = push_bit 20 1 then Some (2, 48000)
      else if format = push_bit 22 1 then Some (4, 44100)
      else if format = push_bit 23 1 then Some (4, 48000)
      else if format = push_bit 24 1 then Some (8, 44100)
      else None)"

text \<open>The checks at the end, and the parameters in their final width.\<close>

definition check_parameters :: "u64 \<Rightarrow> u64 \<Rightarrow> u64 \<Rightarrow> u64 \<Rightarrow> (u32 \<times> u32 \<times> u32 \<times> u32) option" where
  "check_parameters ct frames srate channels =
    (if (ct \<noteq> 2 \<and> ct \<noteq> 4 \<and> ct \<noteq> 8) \<or> frames = 0 \<or> frames > 4096 \<or> (srate \<noteq> 44100 \<and> srate \<noteq> 48000) \<or>
        channels = 0 \<or> channels > 2 then None
     else if ct = 8 \<and> (frames \<noteq> 480 \<or> srate \<noteq> 44100 \<or> channels \<noteq> 2) then None
     else if ct = 4 \<and> (frames \<noteq> 1024 \<or> channels \<noteq> 2) then None
     else Some (ucast ct, ucast frames, ucast srate, ucast channels))"

text \<open>The codec, sample rate and format bit: an explicit codec must agree with the format's.\<close>

definition negotiated_format :: "plist option \<Rightarrow> (u64 \<times> u64 \<times> u64) option" where
  "negotiated_format stream =
     (let ct_node = plist_dict_get_item stream (str ''ct'') in
      case uint_item ct_node 8 of
        None \<Rightarrow> None
      | Some ct \<Rightarrow>
          (case plist_dict_get_item stream (str ''audioFormat'') of
             None \<Rightarrow> Some (ct, 44100, 0)
           | Some (PUint f) \<Rightarrow>
               (case audio_format f of
                  None \<Rightarrow> None
                | Some (format_ct, r) \<Rightarrow> if ct_node \<noteq> None \<and> ct \<noteq> format_ct then None else Some (format_ct, r, f))
           | Some _ \<Rightarrow> None))"

text \<open>An entry that, next to a format bit, may only repeat the value the format has.\<close>

definition bound_item :: "plist option \<Rightarrow> u64 \<Rightarrow> u64 \<Rightarrow> u64 \<Rightarrow> u64 option" where
  "bound_item node format bound v0 =
     (case node of
        None \<Rightarrow> Some v0
      | Some (PUint v) \<Rightarrow> if format \<noteq> 0 \<and> v \<noteq> bound then None else Some v
      | Some _ \<Rightarrow> None)"

definition airtizen_audio_parameters :: "plist option \<Rightarrow> (u32 \<times> u32 \<times> u32 \<times> u32) option" where
  "airtizen_audio_parameters stream =
     (case negotiated_format stream of
        None \<Rightarrow> None
      | Some (ct, srate, format) \<Rightarrow> do {
          frames \<leftarrow> uint_item (plist_dict_get_item stream (str ''spf'')) (if ct = 2 then 352 else if ct = 4 then 1024 else 480);
          requested \<leftarrow> bound_item (plist_dict_get_item stream (str ''sr'')) format srate srate;
          channels \<leftarrow> bound_item (plist_dict_get_item stream (str ''ch'')) format 2 2;
          check_parameters ct frames requested channels
        })"

section \<open>FFmpeg\<close>

datatype sample_format = S16 | S16P | FLT | FLTP | OtherFormat

text \<open>A decoded frame: the planes are the bytes behind \<open>extended_data\<close> (\<open>data[0]\<close> is plane 0).\<close>

record av_frame =
  nb_samples :: int
  nb_channels :: int
  frame_rate :: int
  frame_format :: sample_format
  planes :: "byte list list"

text \<open>The library: whether a decoder and its objects can be had, opening a context with an extradata
  block, a sample rate and a channel count, the sample rate a context holds, and decoding one packet (\<open>None\<close> an error of
  \<open>avcodec_send_packet\<close> or \<open>avcodec_receive_frame\<close>).\<close>

record 'c av_codec =
  av_available :: bool
  av_open :: "byte list \<Rightarrow> int \<Rightarrow> int \<Rightarrow> 'c option"
  av_rate :: "'c \<Rightarrow> int"
  av_flush :: "'c \<Rightarrow> 'c"
  av_packet :: "nat \<Rightarrow> bool"
  av_decode :: "'c \<Rightarrow> byte list \<Rightarrow> av_frame option \<times> 'c"

section \<open>The ALAC decoder\<close>

record 'c airtizen_alac =
  al_context :: 'c
  al_frames :: u32
  al_channels :: u32

definition put32 :: "u32 \<Rightarrow> byte list" where
  "put32 v = [ucast (drop_bit 24 v), ucast (drop_bit 16 v), ucast (drop_bit 8 v), ucast v]"

text \<open>The 36 bytes of the codec configuration; the bytes not assigned are the zeros of \<open>av_mallocz\<close>.\<close>

definition alac_config :: "u32 \<Rightarrow> u32 \<Rightarrow> u32 \<Rightarrow> byte list" where
  "alac_config srate channels frames =
     put32 36 @ str ''alac'' @ [0, 0, 0, 0] @
     put32 frames @ [0, 16, 40, 10, 14, ucast channels, 0, 255, 0, 0, 0, 0, 0, 0, 0, 0] @ put32 srate"

definition airtizen_alac_create :: "'c av_codec \<Rightarrow> u32 \<Rightarrow> u32 \<Rightarrow> u32 \<Rightarrow> 'c airtizen_alac option" where
  "airtizen_alac_create av srate channels frames =
     (if (srate \<noteq> 44100 \<and> srate \<noteq> 48000) \<or> channels < 1 \<or> channels > 2 \<or> frames < 1 \<or> frames > 4096 then None
      else if \<not> av_available av then None
      else (case av_open av (alac_config srate channels frames) (uint srate) (uint channels) of
              None \<Rightarrow> None
            | Some c \<Rightarrow> Some \<lparr>al_context = c, al_frames = frames, al_channels = channels\<rparr>))"

definition airtizen_alac_flush :: "'c av_codec \<Rightarrow> 'c airtizen_alac option \<Rightarrow> 'c airtizen_alac option" where
  "airtizen_alac_flush av = map_option (\<lambda>d. d\<lparr>al_context := av_flush av (al_context d)\<rparr>)"

text \<open>The loop over samples and channels of planar 16-bit samples: two bytes at a time.\<close>

fun interleave_channels :: "byte list list \<Rightarrow> nat \<Rightarrow> nat \<Rightarrow> nat \<Rightarrow> byte list option" where
  "interleave_channels ps i channel 0 = Some []"
| "interleave_channels ps i channel (Suc n) =
     do { p \<leftarrow> rd ps channel; s \<leftarrow> rdn p (i * 2) 2; r \<leftarrow> interleave_channels ps i (channel + 1) n; Some (s @ r) }"

fun interleave_samples :: "byte list list \<Rightarrow> nat \<Rightarrow> nat \<Rightarrow> nat \<Rightarrow> byte list option" where
  "interleave_samples ps channels i 0 = Some []"
| "interleave_samples ps channels i (Suc n) =
     do { s \<leftarrow> interleave_channels ps i 0 channels; r \<leftarrow> interleave_samples ps channels (i + 1) n; Some (s @ r) }"

text \<open>The decoder returns the bytes written to \<open>pcm\<close>; an empty result is the return value 0. \<open>None\<close> as
  the whole result is an access outside a plane.\<close>

definition airtizen_alac_decode ::
  "'c av_codec \<Rightarrow> 'c airtizen_alac option \<Rightarrow> byte list option \<Rightarrow> nat \<Rightarrow> (byte list \<times> 'c airtizen_alac option) option" where
  "airtizen_alac_decode av decoder data capacity =
     (case (decoder, data) of
        (Some d, Some packet) \<Rightarrow>
          if packet = [] \<or> length packet > 32768 then Some ([], decoder)
          else if \<not> av_packet av (length packet) then Some ([], decoder)
          else (case av_decode av (al_context d) packet of
                  (result, c) \<Rightarrow>
                    let d1 = Some (d\<lparr>al_context := c\<rparr>) in
                    (case result of
                       None \<Rightarrow> Some ([], d1)
                     | Some f \<Rightarrow>
                         if nb_samples f < 1 \<or> nb_samples f > uint (al_frames d) \<or> nb_channels f \<noteq> uint (al_channels d) \<or>
                            frame_rate f \<noteq> av_rate av c \<or> (frame_format f \<noteq> S16 \<and> frame_format f \<noteq> S16P) then Some ([], d1)
                         else let bytes = nat (nb_samples f) * unat (al_channels d) * 2 in
                           if bytes > capacity then Some ([], d1)
                           else do {
                             pcm \<leftarrow> (if frame_format f = S16 then rd (planes f) 0 \<bind> (\<lambda>p. rdn p 0 bytes)
                                     else interleave_samples (planes f) (unat (al_channels d)) 0 (nat (nb_samples f)));
                             Some (pcm, d1)
                           }))
      | _ \<Rightarrow> Some ([], decoder))"

section \<open>The AAC decoder\<close>

record 'c airtizen_aac =
  aa_context :: "'c option"
  aa_type :: u32
  aa_rate :: u32
  aa_channels :: u32
  aa_frames :: u32

definition aac_config :: "u32 \<Rightarrow> u32 \<Rightarrow> byte list" where
  "aac_config kind srate = (if kind = 4 then (if srate = 48000 then [0x11, 0x90] else [0x12, 0x10]) else [0xf8, 0xe8, 0x50, 0])"

definition airtizen_aac_create :: "'c av_codec \<Rightarrow> u32 \<Rightarrow> u32 \<Rightarrow> u32 \<Rightarrow> u32 \<Rightarrow> 'c airtizen_aac option" where
  "airtizen_aac_create av kind srate channels frames =
     (if channels \<noteq> 2 \<or> (srate \<noteq> 44100 \<and> srate \<noteq> 48000) then None
      else if kind = 4 \<and> frames \<noteq> 1024 then None
      else if kind \<noteq> 4 \<and> (kind \<noteq> 8 \<or> srate \<noteq> 44100 \<or> frames \<noteq> 480) then None
      else if \<not> av_available av then None
      else (case av_open av (aac_config kind srate) (uint srate) (uint channels) of
              None \<Rightarrow> None
            | Some c \<Rightarrow> Some \<lparr>aa_context = Some c, aa_type = kind, aa_rate = srate, aa_channels = channels, aa_frames = frames\<rparr>))"

text \<open>Flushing opens a fresh decoder; when that fails the old one keeps no context.\<close>

definition airtizen_aac_flush :: "'c av_codec \<Rightarrow> 'c airtizen_aac option \<Rightarrow> 'c airtizen_aac option" where
  "airtizen_aac_flush av = map_option (\<lambda>d.
     (case airtizen_aac_create av (aa_type d) (aa_rate d) (aa_channels d) (aa_frames d) of
        None \<Rightarrow> d\<lparr>aa_context := None\<rparr>
      | Some fresh \<Rightarrow> d\<lparr>aa_context := aa_context fresh\<rparr>))"

text \<open>The value of an IEEE single (\<open>None\<close> an infinity or a NaN), and its conversion to 16 bits. The
  product with \<open>32768\<close> is exact, or an infinity that is clamped like every value above the range.\<close>

definition single_value :: "u32 \<Rightarrow> rat option" where
  "single_value b =
     (let e = unat (drop_bit 23 b) mod 256; m = unat (take_bit 23 b);
          v = (if e = 0 then of_nat m / 2 ^ 149 else (of_nat (2 ^ 23 + m) :: rat) * 2 ^ e / 2 ^ 150)
      in if e = 255 then None else Some (if bit b 31 then - v else v))"

definition truncate :: "rat \<Rightarrow> int" where
  "truncate x = (if x < 0 then \<lceil>x\<rceil> else \<lfloor>x\<rfloor>)"

definition to_pcm :: "rat \<Rightarrow> int" where
  "to_pcm sample =
     (let s = sample * 32768; s1 = (if s > 32767 then 32767 else s); s2 = (if s1 < -32768 then -32768 else s1)
      in truncate s2)"

definition le32 :: "byte list \<Rightarrow> u32" where
  "le32 p = ucast (p ! 0) OR push_bit 8 (ucast (p ! 1)) OR push_bit 16 (ucast (p ! 2)) OR push_bit 24 (ucast (p ! 3))"

definition pcm_bytes :: "int \<Rightarrow> byte list" where
  "pcm_bytes v = [of_int v, of_int (v div 256)]"

text \<open>The float loops: \<open>Some None\<close> is a sample that is not finite.\<close>

fun float_channels :: "byte list list \<Rightarrow> bool \<Rightarrow> nat \<Rightarrow> nat \<Rightarrow> nat \<Rightarrow> nat \<Rightarrow> byte list option option" where
  "float_channels ps planar channels i channel 0 = Some (Some [])"
| "float_channels ps planar channels i channel (Suc n) =
     do {
       p \<leftarrow> rd ps (if planar then channel else 0);
       s \<leftarrow> rdn p ((if planar then i else i * channels + channel) * 4) 4;
       case single_value (le32 s) of
         None \<Rightarrow> Some None
       | Some v \<Rightarrow> do { r \<leftarrow> float_channels ps planar channels i (channel + 1) n; Some (map_option ((@) (pcm_bytes (to_pcm v))) r) }
     }"

fun float_samples :: "byte list list \<Rightarrow> bool \<Rightarrow> nat \<Rightarrow> nat \<Rightarrow> nat \<Rightarrow> byte list option option" where
  "float_samples ps planar channels i 0 = Some (Some [])"
| "float_samples ps planar channels i (Suc n) =
     do {
       s \<leftarrow> float_channels ps planar channels i 0 channels;
       case s of
         None \<Rightarrow> Some None
       | Some a \<Rightarrow> do { r \<leftarrow> float_samples ps planar channels (i + 1) n; Some (map_option ((@) a) r) }
     }"

definition aac_pcm :: "av_frame \<Rightarrow> nat \<Rightarrow> nat \<Rightarrow> byte list option option" where
  "aac_pcm f channels frames =
     (case frame_format f of
        S16 \<Rightarrow> map_option Some (rd (planes f) 0 \<bind> (\<lambda>p. rdn p 0 (frames * channels * 2)))
      | S16P \<Rightarrow> map_option Some (interleave_samples (planes f) channels 0 frames)
      | FLTP \<Rightarrow> float_samples (planes f) True channels 0 frames
      | FLT \<Rightarrow> float_samples (planes f) False channels 0 frames
      | OtherFormat \<Rightarrow> Some None)"

definition airtizen_aac_decode ::
  "'c av_codec \<Rightarrow> 'c airtizen_aac option \<Rightarrow> byte list option \<Rightarrow> nat \<Rightarrow> (byte list \<times> 'c airtizen_aac option) option" where
  "airtizen_aac_decode av decoder data capacity =
     (case (decoder, decoder \<bind> aa_context, data) of
        (Some d, Some context, Some packet) \<Rightarrow>
          if packet = [] \<or> length packet > 32768 then Some ([], decoder)
          else if \<not> av_packet av (length packet) then Some ([], decoder)
          else (case av_decode av context packet of
                  (result, c) \<Rightarrow>
                    let d1 = Some (d\<lparr>aa_context := Some c\<rparr>) in
                    (case result of
                       None \<Rightarrow> Some ([], d1)
                     | Some f \<Rightarrow>
                         if nb_samples f \<noteq> uint (aa_frames d) \<or> nb_channels f \<noteq> uint (aa_channels d) \<or>
                            frame_rate f \<noteq> uint (aa_rate d) \<or> unat (aa_frames d) * unat (aa_channels d) * 2 > capacity then Some ([], d1)
                         else do {
                           pcm \<leftarrow> aac_pcm f (unat (aa_channels d)) (unat (aa_frames d));
                           Some (case pcm of None \<Rightarrow> [] | Some p \<Rightarrow> p, d1)
                         }))
      | _ \<Rightarrow> Some ([], decoder))"

section \<open>The samples of a frame\<close>

text \<open>The reference: the 16-bit sample of channel \<open>c\<close> at time \<open>i\<close>, for each sample format
  (\<open>None\<close> where it is not finite), and all samples in the order of time and channel.\<close>

definition sample_bytes :: "av_frame \<Rightarrow> nat \<Rightarrow> nat \<Rightarrow> nat \<Rightarrow> byte list option" where
  "sample_bytes f channels i c =
     (case frame_format f of
        S16 \<Rightarrow> Some (take 2 (drop ((i * channels + c) * 2) (planes f ! 0)))
      | S16P \<Rightarrow> Some (take 2 (drop (i * 2) (planes f ! c)))
      | FLT \<Rightarrow> map_option (pcm_bytes \<circ> to_pcm) (single_value (le32 (take 4 (drop ((i * channels + c) * 4) (planes f ! 0)))))
      | FLTP \<Rightarrow> map_option (pcm_bytes \<circ> to_pcm) (single_value (le32 (take 4 (drop (i * 4) (planes f ! c)))))
      | OtherFormat \<Rightarrow> None)"

definition frame_row :: "av_frame \<Rightarrow> nat \<Rightarrow> nat \<Rightarrow> byte list option" where
  "frame_row f channels i = map_option concat (those (map (sample_bytes f channels i) [0..<channels]))"

definition frame_pcm :: "av_frame \<Rightarrow> nat \<Rightarrow> nat \<Rightarrow> byte list option" where
  "frame_pcm f channels n = map_option concat (those (map (frame_row f channels) [0..<n]))"

text \<open>What FFmpeg documents of a frame: the planes hold its samples.\<close>

definition sample_width :: "sample_format \<Rightarrow> nat" where
  "sample_width k = (case k of S16 \<Rightarrow> 2 | S16P \<Rightarrow> 2 | FLT \<Rightarrow> 4 | FLTP \<Rightarrow> 4 | OtherFormat \<Rightarrow> 0)"

definition frame_ok :: "av_frame \<Rightarrow> bool" where
  "frame_ok f =
     (let n = nat (nb_samples f); ch = nat (nb_channels f); w = sample_width (frame_format f) in
      if frame_format f = S16P \<or> frame_format f = FLTP then ch \<le> length (planes f) \<and> list_all (\<lambda>p. n * w \<le> length p) (planes f)
      else planes f \<noteq> [] \<and> n * ch * w \<le> length (planes f ! 0))"

lemma chunks: "concat (map (\<lambda>k. take w (drop (k * w) p)) [0..<m]) = take (m * w) p"
proof (induction m)
  case (Suc m)
  then show ?case using take_add [of "m * w" w p] by (simp add: add.commute)
qed simp

lemma those_Some: "those (map (\<lambda>x. Some (g x)) xs) = Some (map g xs)"
  by (induction xs) simp_all

lemma interleave_channels_spec:
  "channel + n \<le> length ps \<Longrightarrow> list_all (\<lambda>p. i * 2 + 2 \<le> length p) ps \<Longrightarrow>
    interleave_channels ps i channel n = Some (concat (map (\<lambda>c. take 2 (drop (i * 2) (ps ! c))) [channel..<channel + n]))"
proof (induction n arbitrary: channel)
  case (Suc n)
  have "i * 2 + 2 \<le> length (ps ! channel)" using Suc.prems by (simp add: list_all_length)
  then show ?case using Suc by (simp add: mem_simps upt_conv_Cons del: upt_Suc)
qed simp

lemma interleave_samples_spec:
  "channels \<le> length ps \<Longrightarrow> list_all (\<lambda>p. (i + n) * 2 \<le> length p) ps \<Longrightarrow>
    interleave_samples ps channels i n =
      Some (concat (map (\<lambda>i. concat (map (\<lambda>c. take 2 (drop (i * 2) (ps ! c))) [0..<channels])) [i..<i + n]))"
proof (induction n arbitrary: i)
  case (Suc n)
  have a: "list_all (\<lambda>p. i * 2 + 2 \<le> length p) ps" using Suc.prems(2) by (auto simp: list_all_iff)
  have b: "list_all (\<lambda>p. (i + 1 + n) * 2 \<le> length p) ps" using Suc.prems(2) by (auto simp: list_all_iff)
  show ?case using interleave_channels_spec [of 0 channels ps i, OF _ a] Suc.IH [of "i + 1", OF Suc.prems(1) b] Suc.prems(1)
    by (simp add: upt_conv_Cons del: upt_Suc)
qed simp

text \<open>The bytes of the float sample the loops read.\<close>

definition float_sample :: "byte list list \<Rightarrow> bool \<Rightarrow> nat \<Rightarrow> nat \<Rightarrow> nat \<Rightarrow> byte list option" where
  "float_sample ps planar channels i c =
     map_option (pcm_bytes \<circ> to_pcm)
       (single_value (le32 (take 4 (drop ((if planar then i else i * channels + c) * 4) (ps ! (if planar then c else 0))))))"

lemma float_channels_spec:
  "(\<And>c. channel \<le> c \<Longrightarrow> c < channel + n \<Longrightarrow>
      (if planar then c else 0) < length ps \<and>
      (if planar then i else i * channels + c) * 4 + 4 \<le> length (ps ! (if planar then c else 0))) \<Longrightarrow>
    float_channels ps planar channels i channel n =
      Some (map_option concat (those (map (float_sample ps planar channels i) [channel..<channel + n])))"
proof (induction n arbitrary: channel)
  case (Suc n)
  let ?c = "if planar then channel else 0" and ?k = "if planar then i else i * channels + channel"
  have b: "?c < length ps" "?k * 4 + 4 \<le> length (ps ! ?c)" using Suc.prems [of channel] by auto
  have r: "rd ps ?c = Some (ps ! ?c)" "rdn (ps ! ?c) (?k * 4) 4 = Some (take 4 (drop (?k * 4) (ps ! ?c)))"
    using b by (simp_all only: rd_Some rdn_Some)
  have IH: "float_channels ps planar channels i (channel + 1) n =
      Some (map_option concat (those (map (float_sample ps planar channels i) [channel + 1..<channel + 1 + n])))"
    by (rule Suc.IH) (use Suc.prems in auto)
  have up: "[channel..<channel + Suc n] = channel # [channel + 1..<channel + 1 + n]" by (simp add: upt_conv_Cons)
  have s: "float_sample ps planar channels i channel =
      map_option (pcm_bytes \<circ> to_pcm) (single_value (le32 (take 4 (drop (?k * 4) (ps ! ?c)))))" by (simp only: float_sample_def)
  show ?case unfolding up float_channels.simps r IH Option.bind.simps list.map those.simps s
    by (simp split: option.split add: option.map_comp o_def)
qed simp

lemma float_samples_spec:
  "(\<And>k c. i \<le> k \<Longrightarrow> k < i + n \<Longrightarrow> c < channels \<Longrightarrow>
      (if planar then c else 0) < length ps \<and>
      (if planar then k else k * channels + c) * 4 + 4 \<le> length (ps ! (if planar then c else 0))) \<Longrightarrow>
    float_samples ps planar channels i n =
      Some (map_option concat (those (map (\<lambda>k. map_option concat (those (map (float_sample ps planar channels k) [0..<channels]))) [i..<i + n])))"
proof (induction n arbitrary: i)
  case (Suc n)
  have row: "float_channels ps planar channels i 0 channels =
      Some (map_option concat (those (map (float_sample ps planar channels i) [0..<channels])))"
    using float_channels_spec [of 0 channels planar ps i channels] Suc.prems [of i] by simp
  have IH: "float_samples ps planar channels (i + 1) n =
      Some (map_option concat (those (map (\<lambda>k. map_option concat (those (map (float_sample ps planar channels k) [0..<channels]))) [i + 1..<i + 1 + n])))"
  proof (rule Suc.IH)
    fix k c assume "i + 1 \<le> k" "k < i + 1 + n" "c < channels"
    then show "(if planar then c else 0) < length ps \<and>
      (if planar then k else k * channels + c) * 4 + 4 \<le> length (ps ! (if planar then c else 0))" by (intro Suc.prems) auto
  qed
  have up: "[i..<i + Suc n] = i # [i + 1..<i + 1 + n]" by (simp add: upt_conv_Cons)
  show ?case unfolding up float_samples.simps row IH Option.bind.simps list.map those.simps
    by (simp split: option.split add: option.map_comp o_def)
qed simp

lemma index_bound: "k < n \<Longrightarrow> c < ch \<Longrightarrow> n * ch * w \<le> l \<Longrightarrow> (k * ch + c) * w + w \<le> (l :: nat)"
proof -
  assume a: "k < n" "c < ch" "n * ch * w \<le> l"
  have "k * ch + c + 1 \<le> (k + 1) * ch" using a(2) by simp
  also have "\<dots> \<le> n * ch" using a(1) by (intro mult_le_mono1) simp
  finally have "(k * ch + c + 1) * w \<le> n * ch * w" by (rule mult_le_mono1)
  then show ?thesis using a(3) by (simp add: algebra_simps)
qed

lemma aac_pcm_spec:
  assumes "frame_ok f" and "nb_samples f = int n" and "nb_channels f = int ch" and "0 < ch" and "0 < n"
  shows "aac_pcm f ch n = Some (frame_pcm f ch n)"
proof (cases "frame_format f")
  case S16
  have p: "planes f \<noteq> []" "n * ch * 2 \<le> length (planes f ! 0)" using assms S16 by (simp_all add: frame_ok_def sample_width_def)
  have sb: "sample_bytes f ch i = (\<lambda>c. Some (take 2 (drop ((i * ch + c) * 2) (planes f ! 0))))" for i
    by (simp add: fun_eq_iff sample_bytes_def S16)
  have row: "concat (map (\<lambda>c. take 2 (drop ((i * ch + c) * 2) (planes f ! 0))) [0..<ch]) = take (ch * 2) (drop (i * (ch * 2)) (planes f ! 0))" for i
    using chunks [of 2 "drop (i * (ch * 2)) (planes f ! 0)" ch] by (simp add: algebra_simps)
  have "frame_row f ch = (\<lambda>i. Some (take (ch * 2) (drop (i * (ch * 2)) (planes f ! 0))))"
    by (intro ext) (simp only: frame_row_def sb those_Some row option.map)
  then have "frame_pcm f ch n = Some (take (n * (ch * 2)) (planes f ! 0))" by (simp add: frame_pcm_def those_Some chunks)
  then show ?thesis using p S16 by (simp add: aac_pcm_def mem_simps mult.assoc)
next
  case S16P
  have p: "ch \<le> length (planes f)" "list_all (\<lambda>p. (0 + n) * 2 \<le> length p) (planes f)" using assms S16P by (simp_all add: frame_ok_def sample_width_def)
  have "sample_bytes f ch i = (\<lambda>c. Some (take 2 (drop (i * 2) (planes f ! c))))" for i by (simp add: fun_eq_iff sample_bytes_def S16P)
  then have "frame_row f ch = (\<lambda>i. Some (concat (map (\<lambda>c. take 2 (drop (i * 2) (planes f ! c))) [0..<ch])))"
    by (intro ext) (simp add: frame_row_def those_Some)
  then show ?thesis using interleave_samples_spec [OF p] by (simp add: aac_pcm_def frame_pcm_def S16P those_Some)
next
  case FLT
  have p: "planes f \<noteq> []" "n * ch * 4 \<le> length (planes f ! 0)" using assms FLT by (simp_all add: frame_ok_def sample_width_def)
  then have "(if False then c else 0) < length (planes f) \<and> (if False then k else k * ch + c) * 4 + 4 \<le> length (planes f ! (if False then c else 0))"
    if "0 \<le> k" "k < 0 + n" "c < ch" for k c using index_bound [of k n c ch 4] that by simp
  note spec = float_samples_spec [OF this]
  have "sample_bytes f ch = float_sample (planes f) False ch" by (intro ext) (simp add: sample_bytes_def float_sample_def FLT)
  then have "frame_row f ch = (\<lambda>i. map_option concat (those (map (float_sample (planes f) False ch i) [0..<ch])))"
    by (intro ext) (simp add: frame_row_def)
  then show ?thesis using spec by (simp add: aac_pcm_def frame_pcm_def FLT)
next
  case FLTP
  have p: "ch \<le> length (planes f)" "list_all (\<lambda>p. n * 4 \<le> length p) (planes f)" using assms FLTP by (simp_all add: frame_ok_def sample_width_def)
  have "(if True then c else 0) < length (planes f) \<and> (if True then k else k * ch + c) * 4 + 4 \<le> length (planes f ! (if True then c else 0))"
    if "0 \<le> k" "k < 0 + n" "c < ch" for k c
  proof -
    have "n * 4 \<le> length (planes f ! c)" using p that by (simp add: list_all_length)
    then show ?thesis using that p by simp
  qed
  note spec = float_samples_spec [OF this]
  have "sample_bytes f ch = float_sample (planes f) True ch" by (intro ext) (simp add: sample_bytes_def float_sample_def FLTP)
  then have "frame_row f ch = (\<lambda>i. map_option concat (those (map (float_sample (planes f) True ch i) [0..<ch])))"
    by (intro ext) (simp add: frame_row_def)
  then show ?thesis using spec by (simp add: aac_pcm_def frame_pcm_def FLTP)
next
  case OtherFormat
  show ?thesis using assms(4,5) by (cases n; cases ch) (simp_all add: aac_pcm_def frame_pcm_def frame_row_def sample_bytes_def OtherFormat upt_conv_Cons del: upt_Suc)
qed

lemma length_concat_same: "those xs = Some ys \<Longrightarrow> (\<And>x y. x \<in> set xs \<Longrightarrow> x = Some y \<Longrightarrow> length y = w) \<Longrightarrow> length (concat ys) = length xs * w"
proof (induction xs arbitrary: ys)
  case (Cons x xs)
  then obtain y zs where y: "x = Some y" "those xs = Some zs" "ys = y # zs" by (auto split: option.splits)
  have "length (concat zs) = length xs * w" by (rule Cons.IH) (use Cons.prems y in auto)
  then show ?case using Cons.prems(2) [of x y] y by simp
qed simp

lemma frame_bounds:
  assumes "frame_ok f" and "nb_samples f = int n" and "nb_channels f = int ch" and "i < n" and "c < ch"
  shows "frame_format f = S16 \<Longrightarrow> (i * ch + c) * 2 + 2 \<le> length (planes f ! 0)"
    and "frame_format f = S16P \<Longrightarrow> i * 2 + 2 \<le> length (planes f ! c)"
proof -
  show "(i * ch + c) * 2 + 2 \<le> length (planes f ! 0)" if "frame_format f = S16"
    using assms that index_bound [of i n c ch 2 "length (planes f ! 0)"] by (simp add: frame_ok_def sample_width_def)
  show "i * 2 + 2 \<le> length (planes f ! c)" if k: "frame_format f = S16P"
  proof -
    have "n * 2 \<le> length (planes f ! c)" using assms k by (simp add: frame_ok_def sample_width_def list_all_length)
    then show ?thesis using assms(4) by simp
  qed
qed

lemma frame_pcm_length:
  assumes "frame_ok f" and "nb_samples f = int n" and "nb_channels f = int ch" and "frame_pcm f ch n = Some p"
  shows "length p = n * ch * 2"
proof -
  have s: "length b = 2" if "sample_bytes f ch i c = Some b" "i < n" "c < ch" for i c b
    using that frame_bounds [OF assms(1-3) that(2,3)]
    by (auto simp: sample_bytes_def pcm_bytes_def split: sample_format.splits)
  have r: "length b = ch * 2" if h: "frame_row f ch i = Some b" "i < n" for i b
  proof -
    obtain bs where "those (map (sample_bytes f ch i) [0..<ch]) = Some bs" "b = concat bs" using h by (auto simp: frame_row_def)
    then show ?thesis using length_concat_same [of _ bs 2] s [OF _ h(2)] by fastforce
  qed
  obtain bs where "those (map (frame_row f ch) [0..<n]) = Some bs" "p = concat bs" using assms(4) by (auto simp: frame_pcm_def)
  then show ?thesis using length_concat_same [of _ bs "ch * 2"] r by fastforce
qed

section \<open>Decoding a packet\<close>

definition frames_ok :: "'c av_codec \<Rightarrow> bool" where
  "frames_ok av \<longleftrightarrow> (\<forall>c p f c'. av_decode av c p = (Some f, c') \<longrightarrow> frame_ok f)"

text \<open>What a packet gives: the frame FFmpeg returns for it, when the decoder may look at it.\<close>

definition packet_frame :: "'c av_codec \<Rightarrow> 'c \<Rightarrow> byte list \<Rightarrow> av_frame option" where
  "packet_frame av c packet =
     (if packet = [] \<or> length packet > 32768 \<or> \<not> av_packet av (length packet) then None else fst (av_decode av c packet))"

definition aac_ok :: "'c airtizen_aac \<Rightarrow> bool" where
  "aac_ok d \<longleftrightarrow> aa_channels d = 2 \<and> (aa_rate d = 44100 \<or> aa_rate d = 48000) \<and>
     (aa_type d = 4 \<and> aa_frames d = 1024 \<or> aa_type d = 8 \<and> aa_rate d = 44100 \<and> aa_frames d = 480)"

definition aac_result :: "'c av_codec \<Rightarrow> 'c airtizen_aac \<Rightarrow> byte list \<Rightarrow> nat \<Rightarrow> byte list" where
  "aac_result av d packet capacity =
     (case aa_context d \<bind> (\<lambda>c. packet_frame av c packet) of
        None \<Rightarrow> []
      | Some f \<Rightarrow>
          if nb_samples f = uint (aa_frames d) \<and> nb_channels f = uint (aa_channels d) \<and> frame_rate f = uint (aa_rate d) \<and>
             unat (aa_frames d) * unat (aa_channels d) * 2 \<le> capacity
          then (case frame_pcm f (unat (aa_channels d)) (unat (aa_frames d)) of None \<Rightarrow> [] | Some p \<Rightarrow> p)
          else [])"

lemma aac_create_ok: "airtizen_aac_create av kind r ch frames = Some d \<Longrightarrow> aac_ok d"
  by (auto simp: airtizen_aac_create_def aac_ok_def split: if_splits option.splits)

lemma aac_flush_ok: "aac_ok d \<Longrightarrow> airtizen_aac_flush av (Some d) = Some d' \<Longrightarrow> aac_ok d'"
  by (auto simp: airtizen_aac_flush_def aac_ok_def split: option.splits)

lemma aac_decode_spec:
  assumes "aac_ok d" and "frames_ok av"
  shows "\<exists>d'. airtizen_aac_decode av (Some d) (Some packet) capacity = Some (aac_result av d packet capacity, Some d') \<and> aac_ok d'"
proof (cases "aa_context d \<bind> (\<lambda>c. packet_frame av c packet)")
  case None
  then show ?thesis using assms(1)
    by (auto simp: airtizen_aac_decode_def aac_result_def packet_frame_def aac_ok_def Let_def split: option.splits prod.splits if_splits)
next
  case (Some f)
  then obtain c c' where c: "aa_context d = Some c" "packet \<noteq> []" "length packet \<le> 32768" "av_packet av (length packet)"
    "av_decode av c packet = (Some f, c')"
    by (cases "aa_context d"; cases "av_decode av (the (aa_context d)) packet") (auto simp: packet_frame_def split: if_splits)
  have f: "frame_ok f" using assms(2) c(5) by (auto simp: frames_ok_def)
  have pos: "0 < unat (aa_channels d)" "0 < unat (aa_frames d)" using assms(1) by (auto simp: aac_ok_def)
  have pcm: "aac_pcm f (unat (aa_channels d)) (unat (aa_frames d)) = Some (frame_pcm f (unat (aa_channels d)) (unat (aa_frames d)))"
    if "nb_samples f = uint (aa_frames d)" "nb_channels f = uint (aa_channels d)"
    by (rule aac_pcm_spec) (use f that pos in \<open>simp_all\<close>)
  let ?d = "d\<lparr>aa_context := Some c'\<rparr>"
  let ?ok = "nb_samples f = uint (aa_frames d) \<and> nb_channels f = uint (aa_channels d) \<and> frame_rate f = uint (aa_rate d) \<and>
    unat (aa_frames d) * unat (aa_channels d) * 2 \<le> capacity"
  have dec: "airtizen_aac_decode av (Some d) (Some packet) capacity =
    (if \<not> ?ok then Some ([], Some ?d)
     else aac_pcm f (unat (aa_channels d)) (unat (aa_frames d)) \<bind> (\<lambda>pcm. Some (case pcm of None \<Rightarrow> [] | Some p \<Rightarrow> p, Some ?d)))"
    using c by (simp add: airtizen_aac_decode_def not_less not_le)
  have res: "aac_result av d packet capacity =
    (if ?ok then (case frame_pcm f (unat (aa_channels d)) (unat (aa_frames d)) of None \<Rightarrow> [] | Some p \<Rightarrow> p) else [])"
    by (simp only: aac_result_def Some option.case)
  have ok: "aac_ok ?d" using assms(1) by (simp add: aac_ok_def)
  show ?thesis
  proof (cases ?ok)
    case True
    then show ?thesis using pcm ok unfolding dec res by simp
  next
    case False
    then show ?thesis using ok unfolding dec res by (simp only: if_False if_True not_False_eq_True) blast
  qed
qed

definition alac_ok :: "'c airtizen_alac \<Rightarrow> bool" where
  "alac_ok d \<longleftrightarrow> al_channels d \<noteq> 0 \<and> al_channels d \<le> 2 \<and> al_frames d \<noteq> 0 \<and> al_frames d \<le> 4096"

definition alac_result :: "'c av_codec \<Rightarrow> 'c airtizen_alac \<Rightarrow> byte list \<Rightarrow> nat \<Rightarrow> byte list" where
  "alac_result av d packet capacity =
     (case packet_frame av (al_context d) packet of
        None \<Rightarrow> []
      | Some f \<Rightarrow>
          if 1 \<le> nb_samples f \<and> nb_samples f \<le> uint (al_frames d) \<and> nb_channels f = uint (al_channels d) \<and>
             frame_rate f = av_rate av (snd (av_decode av (al_context d) packet)) \<and> (frame_format f = S16 \<or> frame_format f = S16P) \<and>
             nat (nb_samples f) * unat (al_channels d) * 2 \<le> capacity
          then (case frame_pcm f (unat (al_channels d)) (nat (nb_samples f)) of None \<Rightarrow> [] | Some p \<Rightarrow> p)
          else [])"

lemma alac_create_ok: "airtizen_alac_create av r ch frames = Some d \<Longrightarrow> alac_ok d"
  by (auto simp: airtizen_alac_create_def alac_ok_def not_less split: if_splits option.splits)

lemma alac_flush_ok: "alac_ok d \<Longrightarrow> airtizen_alac_flush av (Some d) = Some d' \<Longrightarrow> alac_ok d'"
  by (auto simp: airtizen_alac_flush_def alac_ok_def)

lemma pcm_16_bit:
  assumes "frame_ok f" and "nb_samples f = int n" and "nb_channels f = int ch" and "0 < ch" and "0 < n"
    and "frame_format f = S16 \<or> frame_format f = S16P"
  shows "(if frame_format f = S16 then rd (planes f) 0 \<bind> (\<lambda>p. rdn p 0 (n * ch * 2)) else interleave_samples (planes f) ch 0 n) =
    Some (case frame_pcm f ch n of None \<Rightarrow> [] | Some p \<Rightarrow> p)"
  using aac_pcm_spec [OF assms(1-5)] assms(6) by (cases "frame_pcm f ch n") (auto simp: aac_pcm_def)

lemma alac_decode_spec:
  assumes "alac_ok d" and "frames_ok av"
  shows "\<exists>d'. airtizen_alac_decode av (Some d) (Some packet) capacity = Some (alac_result av d packet capacity, Some d') \<and> alac_ok d'"
proof (cases "packet_frame av (al_context d) packet")
  case None
  then show ?thesis using assms(1)
    by (auto simp: airtizen_alac_decode_def alac_result_def packet_frame_def alac_ok_def Let_def split: option.splits prod.splits if_splits)
next
  case (Some f)
  then obtain c' where c: "packet \<noteq> []" "length packet \<le> 32768" "av_packet av (length packet)" "av_decode av (al_context d) packet = (Some f, c')"
    by (cases "av_decode av (al_context d) packet") (auto simp: packet_frame_def split: if_splits)
  have f: "frame_ok f" using assms(2) c(4) by (auto simp: frames_ok_def)
  let ?d = "d\<lparr>al_context := c'\<rparr>" and ?n = "nat (nb_samples f)" and ?ch = "unat (al_channels d)"
  let ?ok = "1 \<le> nb_samples f \<and> nb_samples f \<le> uint (al_frames d) \<and> nb_channels f = uint (al_channels d) \<and>
    frame_rate f = av_rate av c' \<and> (frame_format f = S16 \<or> frame_format f = S16P) \<and> ?n * ?ch * 2 \<le> capacity"
  have dec: "airtizen_alac_decode av (Some d) (Some packet) capacity =
    (if \<not> ?ok then Some ([], Some ?d)
     else (if frame_format f = S16 then rd (planes f) 0 \<bind> (\<lambda>p. rdn p 0 (?n * ?ch * 2)) else interleave_samples (planes f) ?ch 0 ?n)
            \<bind> (\<lambda>pcm. Some (pcm, Some ?d)))"
    using c by (auto simp: airtizen_alac_decode_def Let_def not_less not_le)
  have res: "alac_result av d packet capacity =
    (if ?ok then (case frame_pcm f ?ch ?n of None \<Rightarrow> [] | Some p \<Rightarrow> p) else [])"
    by (simp only: alac_result_def Some option.case c(4) snd_conv)
  have ok: "alac_ok ?d" using assms(1) by (simp add: alac_ok_def)
  show ?thesis
  proof (cases ?ok)
    case True
    have pos: "0 < ?ch" using assms(1) by (simp add: alac_ok_def unat_gt_0)
    have "(if frame_format f = S16 then rd (planes f) 0 \<bind> (\<lambda>p. rdn p 0 (?n * ?ch * 2)) else interleave_samples (planes f) ?ch 0 ?n) =
      Some (case frame_pcm f ?ch ?n of None \<Rightarrow> [] | Some p \<Rightarrow> p)"
      by (rule pcm_16_bit) (use f True pos in simp_all)
    then show ?thesis using True ok unfolding dec res by simp
  next
    case False
    then show ?thesis using ok unfolding dec res by (simp only: if_False if_True not_False_eq_True) blast
  qed
qed

section \<open>Negotiation\<close>

lemma narrow_frames:
  assumes "f \<noteq> 0" "f \<le> 4096"
  shows "(ucast (f :: u64) :: u32) \<noteq> 0 \<and> (ucast f :: u32) \<le> 4096"
proof -
  have u: "unat f \<le> 4096" "unat f \<noteq> 0" using assms by (simp_all add: word_le_nat_alt unat_eq_zero)
  have n: "unat (ucast f :: u32) = unat f" using u by (simp add: unsigned_ucast_eq take_bit_nat_eq_self)
  then have "(ucast f :: u32) \<noteq> 0" using u by (metis unat_eq_zero)
  then show ?thesis using u n by (simp add: word_le_nat_alt)
qed

lemma narrow_channels:
  assumes "c \<noteq> 0" "c \<le> 2"
  shows "c = 1 \<or> c = (2 :: u64)"
proof -
  have u: "unat c \<le> 2" "unat c \<noteq> 0" using assms by (simp_all add: word_le_nat_alt unat_eq_zero)
  then have "unat c = 1 \<or> unat c = 2" by linarith
  then show ?thesis by (auto simp: word_unat_eq_iff)
qed

text \<open>The configurations the receiver supports.\<close>

definition supported :: "u32 \<Rightarrow> u32 \<Rightarrow> u32 \<Rightarrow> u32 \<Rightarrow> bool" where
  "supported ct frames r ch \<longleftrightarrow>
     (r = 44100 \<or> r = 48000) \<and>
     (ct = 2 \<and> frames \<noteq> 0 \<and> frames \<le> 4096 \<and> ch \<noteq> 0 \<and> ch \<le> 2 \<or>
      ct = 4 \<and> frames = 1024 \<and> ch = 2 \<or> ct = 8 \<and> frames = 480 \<and> r = 44100 \<and> ch = 2)"

lemma check_supported:
  assumes "check_parameters c f r0 n = Some (ct, frames, r, ch)"
  shows "supported ct frames r ch"
proof -
  have eq: "ct = ucast c" "frames = ucast f" "r = ucast r0" "ch = ucast n"
    and g: "c = 2 \<or> c = 4 \<or> c = 8" "f \<noteq> 0" "f \<le> 4096" "r0 = 44100 \<or> r0 = 48000" "n \<noteq> 0" "n \<le> 2"
      "c = 8 \<longrightarrow> f = 480 \<and> r0 = 44100 \<and> n = 2" "c = 4 \<longrightarrow> f = 1024 \<and> n = 2"
    using assms unfolding check_parameters_def by (simp_all only: not_less split: if_split_asm) auto
  have f: "frames \<noteq> 0 \<and> frames \<le> 4096" using narrow_frames [OF g(2,3)] eq by simp
  have n: "ch = 1 \<or> ch = 2" using narrow_channels [OF g(5,6)] eq by auto
  have r: "r = 44100 \<or> r = 48000" using g(4) eq by auto
  from g(1) show ?thesis
  proof (elim disjE)
    assume "c = 2"
    then show ?thesis using eq(1) f n r by (auto simp: supported_def)
  next
    assume "c = 4"
    then show ?thesis using eq r g(8) by (simp add: supported_def)
  next
    assume "c = 8"
    then show ?thesis using eq g(7) by (simp add: supported_def)
  qed
qed

lemma parameters_supported:
  assumes "airtizen_audio_parameters s = Some (ct, frames, r, ch)"
  shows "supported ct frames r ch"
proof -
  obtain c r1 k where n: "negotiated_format s = Some (c, r1, k)"
    using assms by (cases "negotiated_format s") (auto simp: airtizen_audio_parameters_def)
  obtain f r0 n where "check_parameters c f r0 n = Some (ct, frames, r, ch)"
    using assms by (simp only: airtizen_audio_parameters_def n option.case prod.case bind_eq_Some_conv) blast
  then show ?thesis by (rule check_supported)
qed

text \<open>Every supported configuration can be asked for, by naming all four values.\<close>

definition explicit_stream :: "u32 \<Rightarrow> u32 \<Rightarrow> u32 \<Rightarrow> u32 \<Rightarrow> plist" where
  "explicit_stream ct frames r ch = PDict [(str ''ct'', PUint (ucast ct)), (str ''spf'', PUint (ucast frames)), (str ''sr'', PUint (ucast r)),
     (str ''ch'', PUint (ucast ch))]"

lemma explicit_stream_accepted:
  assumes "supported ct frames r ch"
  shows "airtizen_audio_parameters (Some (explicit_stream ct frames r ch)) = Some (ct, frames, r, ch)"
proof -
  have item: "plist_dict_get_item (Some (explicit_stream ct frames r ch)) (str ''ct'') = Some (PUint (ucast ct))"
    "plist_dict_get_item (Some (explicit_stream ct frames r ch)) (str ''audioFormat'') = None"
    "plist_dict_get_item (Some (explicit_stream ct frames r ch)) (str ''spf'') = Some (PUint (ucast frames))"
    "plist_dict_get_item (Some (explicit_stream ct frames r ch)) (str ''sr'') = Some (PUint (ucast r))"
    "plist_dict_get_item (Some (explicit_stream ct frames r ch)) (str ''ch'') = Some (PUint (ucast ch))"
    by (simp_all add: plist_dict_get_item_def explicit_stream_def)
  have up: "unat (ucast (x :: u32) :: u64) = unat x" "(ucast (ucast x :: u64) :: u32) = x" for x
    by (simp_all add: bit_eq_iff bit_simps)
  have zero: "(ucast (x :: u32) :: u64) = 0 \<longleftrightarrow> x = 0" for x using up(1) [of x] by (metis unat_eq_zero)
  have le: "(ucast (x :: u32) :: u64) \<le> 4096 \<longleftrightarrow> x \<le> 4096" "(ucast x :: u64) \<le> 2 \<longleftrightarrow> x \<le> 2" for x
    by (simp_all add: word_le_nat_alt up(1))
  have "check_parameters (ucast ct) (ucast frames) (ucast r) (ucast ch) = Some (ct, frames, r, ch)"
    using assms by (auto simp: supported_def check_parameters_def up(2) zero le not_less)
  then show ?thesis by (simp add: airtizen_audio_parameters_def negotiated_format_def bound_item_def uint_item_def item)
qed

section \<open>Histories of a decoder\<close>

datatype decoder_op = Flush | Decode "byte list" nat

definition aac_step :: "'c av_codec \<Rightarrow> decoder_op \<Rightarrow> 'c airtizen_aac \<Rightarrow> 'c airtizen_aac" where
  "aac_step av op d =
     (case op of
        Flush \<Rightarrow> the (airtizen_aac_flush av (Some d))
      | Decode packet capacity \<Rightarrow>
          (case airtizen_aac_decode av (Some d) (Some packet) capacity of Some (_, Some d') \<Rightarrow> d' | _ \<Rightarrow> d))"

definition alac_step :: "'c av_codec \<Rightarrow> decoder_op \<Rightarrow> 'c airtizen_alac \<Rightarrow> 'c airtizen_alac" where
  "alac_step av op d =
     (case op of
        Flush \<Rightarrow> the (airtizen_alac_flush av (Some d))
      | Decode packet capacity \<Rightarrow>
          (case airtizen_alac_decode av (Some d) (Some packet) capacity of Some (_, Some d') \<Rightarrow> d' | _ \<Rightarrow> d))"

lemma aac_history: "frames_ok av \<Longrightarrow> aac_ok d \<Longrightarrow> aac_ok (fold (aac_step av) ops d)"
proof (induction ops arbitrary: d)
  case (Cons op ops)
  have "aac_ok (aac_step av op d)"
  proof (cases op)
    case Flush
    have "airtizen_aac_flush av (Some d) = Some (the (airtizen_aac_flush av (Some d)))" by (simp add: airtizen_aac_flush_def)
    then show ?thesis using aac_flush_ok [OF Cons.prems(2)] Flush by (simp add: aac_step_def)
  next
    case (Decode packet capacity)
    then show ?thesis using aac_decode_spec [OF Cons.prems(2,1), of packet capacity] by (auto simp: aac_step_def)
  qed
  then show ?case using Cons.IH Cons.prems(1) by simp
qed simp

lemma alac_history: "frames_ok av \<Longrightarrow> alac_ok d \<Longrightarrow> alac_ok (fold (alac_step av) ops d)"
proof (induction ops arbitrary: d)
  case (Cons op ops)
  have "alac_ok (alac_step av op d)"
  proof (cases op)
    case Flush
    then show ?thesis using alac_flush_ok [OF Cons.prems(2)] by (simp add: alac_step_def airtizen_alac_flush_def)
  next
    case (Decode packet capacity)
    then show ?thesis using alac_decode_spec [OF Cons.prems(2,1), of packet capacity] by (auto simp: alac_step_def)
  qed
  then show ?case using Cons.IH Cons.prems(1) by simp
qed simp

lemma packet_frame_ok: "frames_ok av \<Longrightarrow> packet_frame av c packet = Some f \<Longrightarrow> frame_ok f"
  by (cases "av_decode av c packet") (auto simp: packet_frame_def frames_ok_def split: if_splits)

lemma aac_result_length:
  assumes "frames_ok av"
  shows "length (aac_result av d packet capacity) \<in> {0, unat (aa_frames d) * unat (aa_channels d) * 2} \<and>
    length (aac_result av d packet capacity) \<le> capacity"
proof (cases "aa_context d \<bind> (\<lambda>c. packet_frame av c packet)")
  case (Some f)
  then have f: "frame_ok f" using packet_frame_ok [OF assms] by (cases "aa_context d") auto
  show ?thesis
    using frame_pcm_length [OF f, of "unat (aa_frames d)" "unat (aa_channels d)"]
    by (auto simp: aac_result_def Some split: option.split)
qed (simp add: aac_result_def)

lemma alac_result_length:
  assumes "frames_ok av"
  shows "length (alac_result av d packet capacity) \<le> capacity"
proof (cases "packet_frame av (al_context d) packet")
  case (Some f)
  have f: "frame_ok f" using packet_frame_ok [OF assms Some] .
  show ?thesis
    using frame_pcm_length [OF f, of "nat (nb_samples f)" "unat (al_channels d)"]
    by (auto simp: alac_result_def Some split: option.split)
qed (simp add: alac_result_def)

section \<open>Main results\<close>


definition sample_codec :: "av_frame \<Rightarrow> unit av_codec" where
  "sample_codec f = \<lparr>av_available = True, av_open = (\<lambda>_ _ _. Some ()), av_rate = (\<lambda>_. 44100), av_flush = id, av_packet = (\<lambda>_. True),
     av_decode = (\<lambda>_ _. (Some f, ()))\<rparr>"



text \<open>
  Likewise for the ALAC decoder: any packet, after any history, gives nothing or the
  16-bit samples of its frame in order, interleaved when the planes are separate, within the capacity.
\<close>

theorem alac_decode_exact:
  fixes ops :: "decoder_op list"
  assumes "airtizen_alac_create av r ch frames = Some d0" and "frames_ok av"
  defines "d \<equiv> fold (alac_step av) ops d0"
  shows "(\<exists>d'. airtizen_alac_decode av (Some d) (Some packet) capacity = Some (alac_result av d packet capacity, Some d')) \<and>
    length (alac_result av d packet capacity) \<le> capacity"
proof -
  have "alac_ok d" unfolding d_def by (rule alac_history [OF assms(2) alac_create_ok [OF assms(1)]])
  then show ?thesis using alac_decode_spec [OF _ assms(2)] alac_result_length [OF assms(2)] by blast
qed

definition planar_frame :: av_frame where
  "planar_frame = \<lparr>nb_samples = 2, nb_channels = 2, frame_rate = 44100, frame_format = S16P, planes = [[1, 2, 3, 4], [5, 6, 7, 8]]\<rparr>"

theorem alac_decode_exact_witness:
  "\<exists>d'. airtizen_alac_decode (sample_codec planar_frame) (Some \<lparr>al_context = (), al_frames = 352, al_channels = 2\<rparr>) (Some [9]) 8 =
    Some ([1, 2, 5, 6, 3, 4, 7, 8], Some d')"
proof -
  let ?d = "\<lparr>al_context = (), al_frames = 352, al_channels = 2\<rparr> :: unit airtizen_alac"
  have "airtizen_alac_create (sample_codec planar_frame) 44100 2 352 = Some ?d" by (simp add: airtizen_alac_create_def sample_codec_def)
  moreover have "frames_ok (sample_codec planar_frame)"
    by (simp add: frames_ok_def sample_codec_def planar_frame_def frame_ok_def sample_width_def)
  moreover have "alac_result (sample_codec planar_frame) ?d [9] 8 = [1, 2, 5, 6, 3, 4, 7, 8]" by code_simp
  ultimately show ?thesis using alac_decode_exact [where packet = "[9]" and capacity = 8 and ops = "[]" and ?d0.0 = ?d and av = "sample_codec planar_frame"] by simp
qed

definition stereo_frame :: av_frame where
  "stereo_frame = \<lparr>nb_samples = 480, nb_channels = 2, frame_rate = 44100, frame_format = S16, planes = [replicate 1920 7]\<rparr>"


text \<open>
  The conversion of a float sample to 16 bits never leaves the range of the type,
  is monotone, loses less than one step of the 16-bit scale inside the range, and saturates outside it;
  so no sample, however loud, wraps around.
\<close>

theorem pcm_conversion_exact:
  "-32768 \<le> to_pcm v \<and> to_pcm v \<le> 32767 \<and>
   (if v * 32768 > 32767 then to_pcm v = 32767 else if v * 32768 < -32768 then to_pcm v = -32768
    else \<bar>of_int (to_pcm v) - v * 32768\<bar> < 1 \<and> \<bar>of_int (to_pcm v)\<bar> \<le> \<bar>v * 32768\<bar>) \<and>
   to_pcm v \<le> to_pcm (v + \<bar>d\<bar>)"
proof -
  define clamp where "clamp x = (let s1 = (if x > 32767 then 32767 else x) in if s1 < -32768 then -32768 else s1)" for x :: rat
  have p: "to_pcm w = truncate (clamp (w * 32768))" for w by (simp add: to_pcm_def clamp_def Let_def)
  have mono: "truncate x \<le> truncate y" if "x \<le> y" for x y
  proof -
    have "\<lceil>x\<rceil> \<le> 0" if "x < 0" using that by (simp add: ceiling_le_iff)
    moreover have "0 \<le> \<lfloor>y\<rfloor>" if "\<not> y < 0" using that by (simp add: le_floor_iff)
    ultimately show ?thesis using that order_trans [of "\<lceil>x\<rceil>" 0 "\<lfloor>y\<rfloor>"] by (auto simp: truncate_def intro: ceiling_mono floor_mono)
  qed
  have c: "-32768 \<le> clamp x" "clamp x \<le> 32767" for x by (auto simp: clamp_def Let_def)
  have ends: "truncate (-32768) = -32768" "truncate 32767 = 32767" by (simp_all add: truncate_def)
  have "clamp (v * 32768) \<le> clamp ((v + \<bar>d\<bar>) * 32768)" by (auto simp: clamp_def Let_def algebra_simps) 
  then have m: "to_pcm v \<le> to_pcm (v + \<bar>d\<bar>)" unfolding p by (rule mono)
  have r: "-32768 \<le> to_pcm v" "to_pcm v \<le> 32767" using mono [OF c(1)] mono [OF c(2)] unfolding p ends by auto
  have t: "\<bar>of_int (truncate x) - x\<bar> < 1 \<and> \<bar>of_int (truncate x)\<bar> \<le> \<bar>x\<bar>" for x
  proof (cases "x < 0")
    case True
    then have "\<lceil>x\<rceil> \<le> 0" by (simp add: ceiling_le_iff)
    then have k: "of_int \<lceil>x\<rceil> \<le> (0 :: rat)" "of_int \<lceil>x\<rceil> - 1 < x" "x \<le> of_int \<lceil>x\<rceil>" using ceiling_correct [of x] by simp_all
    then have "\<bar>of_int \<lceil>x\<rceil> - x\<bar> = of_int \<lceil>x\<rceil> - x" "\<bar>of_int \<lceil>x\<rceil> :: rat\<bar> = - of_int \<lceil>x\<rceil>" "\<bar>x\<bar> = - x"
      using True by (simp_all only: abs_of_nonneg abs_of_nonpos abs_of_neg diff_ge_0_iff_ge)
    then show ?thesis using True k by (simp only: truncate_def if_True) linarith
  next
    case False
    then have "0 \<le> \<lfloor>x\<rfloor>" by simp
    then have k: "(0 :: rat) \<le> of_int \<lfloor>x\<rfloor>" "of_int \<lfloor>x\<rfloor> \<le> x" "x < of_int \<lfloor>x\<rfloor> + 1" using floor_correct [of x] by simp_all
    then have "\<bar>of_int \<lfloor>x\<rfloor> - x\<bar> = - (of_int \<lfloor>x\<rfloor> - x)" "\<bar>of_int \<lfloor>x\<rfloor> :: rat\<bar> = of_int \<lfloor>x\<rfloor>" "\<bar>x\<bar> = x"
      using False by (simp_all only: abs_of_nonneg abs_of_nonpos not_less diff_le_0_iff_le)
    then show ?thesis using False k by (simp add: truncate_def)
  qed
  have inside: "clamp x = x" if "\<not> x > 32767" "\<not> x < -32768" for x using that by (simp add: clamp_def)
  have above: "clamp x = 32767" if "x > 32767" for x using that by (simp add: clamp_def)
  have below: "clamp x = -32768" if "x < -32768" for x using that by (simp add: clamp_def Let_def)
  show ?thesis using r m t [of "v * 32768"] ends unfolding p by (auto simp: inside above below)
qed

end
