(* ===== verification/Airplay.thy ===== *)
theory Airplay
  imports Core Audio_Format
begin

text \<open>
  The requests on the AirPlay port that AirTizen adds to the RAOP server: the playback and photo requests
  (\<open>native/include/airtizen_airplay_http.h\<close>).

  Parameters: the property list parser and the XML writer of libplist, \<open>strtod\<close>, and whether
  allocations succeed. A request is what the HTTP parser of the RAOP server delivers. \<open>ap_asserts\<close> tells
  whether the receiver is built with assertions, which the accessors of libplist contain: a failed
  assertion, like an access out of bounds, is \<open>None\<close>.
\<close>

section \<open>Requests and responses\<close>

record http_request =
  rq_method :: "cstring option"
  rq_url :: "cstring option"
  rq_protocol :: cstring
  rq_headers :: "(cstring \<times> cstring option) list"
  rq_data :: "byte list option"

definition http_request_get_header :: "http_request \<Rightarrow> cstring \<Rightarrow> cstring option" where
  "http_request_get_header rq name = (case List.find (\<lambda>(n, v). strcaseeq n name) (rq_headers rq) of None \<Rightarrow> None | Some (n, v) \<Rightarrow> v)"

definition rq_length :: "http_request \<Rightarrow> nat" where
  "rq_length rq = (case rq_data rq of None \<Rightarrow> 0 | Some d \<Rightarrow> length d)"

record http_response =
  rs_start :: cstring
  rs_code :: nat
  rs_reason :: cstring
  rs_headers :: "(cstring \<times> cstring) list"
  rs_body :: cstring

definition reply_reason :: "nat \<Rightarrow> cstring" where
  "reply_reason code =
     (if code = 200 then str ''OK'' else if code = 404 then str ''Not Found'' else if code = 501 then str ''Not Implemented''
      else if code = 412 then str ''Precondition Failed'' else if code = 413 then str ''Content Too Large''
      else if code = 503 then str ''Service Unavailable'' else str ''Bad Request'')"

definition airtizen_http_reply :: "nat \<Rightarrow> cstring option \<Rightarrow> cstring \<Rightarrow> http_response" where
  "airtizen_http_reply code kind body =
     \<lparr>rs_start = str ''HTTP/1.1'', rs_code = code, rs_reason = reply_reason code,
      rs_headers = (case kind of None \<Rightarrow> [] | Some k \<Rightarrow> [(str ''Content-Type'', k)]) @
        (if body = [] then [(str ''Content-Length'', str ''0'')] else []),
      rs_body = body\<rparr>"

section \<open>The library\<close>

record airplay_env =
  ap_asserts :: bool
  ap_from_bin :: "byte list \<Rightarrow> plist option"
  ap_to_xml :: "plist \<Rightarrow> cstring"
  ap_strtod :: "cstring \<Rightarrow> (cdouble \<times> cstring) option"
  ap_malloc :: bool
  ap_strdup :: "cstring \<Rightarrow> bool"
  ap_photo_alloc :: bool

text \<open>\<open>plist_get_string_val\<close>: sets the string when the node is one; the assertion at its end reads the
  length of the value, which is a null pointer when nothing was set.\<close>

definition plist_get_string_val :: "airplay_env \<Rightarrow> plist option \<Rightarrow> cstring option option" where
  "plist_get_string_val env node =
     (case node of Some (PString s) \<Rightarrow> Some (Some s) | _ \<Rightarrow> if ap_asserts env then None else Some None)"

text \<open>\<open>plist_get_uint_val\<close>: likewise, its assertion wants the size of an unsigned value.\<close>

definition plist_get_uint_val :: "airplay_env \<Rightarrow> plist option \<Rightarrow> u64 \<Rightarrow> u64 option" where
  "plist_get_uint_val env node old =
     (case node of Some (PUint v) \<Rightarrow> Some v | _ \<Rightarrow> if ap_asserts env then None else Some old)"

definition is_binary_plist :: "byte list \<Rightarrow> bool" where
  "is_binary_plist d = strprefix (str ''bplist00'') d"

section \<open>Server information\<close>

definition server_info :: "mdns_module \<Rightarrow> plist" where
  "server_info s =
     PDict [(str ''deviceid'', PString (snd (airtizen_mdns_identity 96 32 s))),
            (str ''features'', PUint (airtizen_discovery_features s)),
            (str ''model'', PString (airtizen_discovery_model s)),
            (str ''protovers'', PString (str ''1.0'')),
            (str ''srcvers'', PString AIRTIZEN_SOURCE_VERSION)]"

section \<open>Photos\<close>

definition photo_request :: "airplay_env \<Rightarrow> http_request \<Rightarrow> 'm receiver \<Rightarrow> (http_response \<times> 'm receiver) option" where
  "photo_request env rq r =
     (let action = http_request_get_header rq (str ''X-Apple-AssetAction'') in do {
        (result, ph) \<leftarrow> airtizen_photo_put (ap_photo_alloc env) action (http_request_get_header rq (str ''X-Apple-AssetKey''))
            (http_request_get_header rq (str ''X-Apple-Session-ID'')) (http_request_get_header rq (str ''X-Apple-Transition''))
            (rq_data rq) (rq_length rq) (rc_photo r);
        let r1 = r\<lparr>rc_photo := ph\<rparr>;
        let r2 = (if result = 200 \<and> action \<noteq> Some (str ''cacheOnly'')
                  then r1\<lparr>rc_playback := airtizen_playback_stop (rc_playback r1), rc_video := airtizen_video_reset (rc_video r1)\<rparr>
                  else r1);
        Some (airtizen_http_reply result None [], r2)
      })"

section \<open>Play requests\<close>

text \<open>A request in a binary property list. The conversion of an unsigned start position to a double is
  exact up to \<open>2 ^ 53\<close>; above, the position is refused in any case.\<close>

definition play_position :: "plist option \<Rightarrow> cdouble" where
  "play_position node =
     (case node of None \<Rightarrow> Fin 0 | Some (PReal x) \<Rightarrow> x | Some (PUint v) \<Rightarrow> Fin (of_nat (unat v)) | Some _ \<Rightarrow> NaN)"

definition play_binary :: "airplay_env \<Rightarrow> byte list \<Rightarrow> airtizen_playback_state \<Rightarrow> (int \<times> airtizen_playback_state) option" where
  "play_binary env data b =
     (case ap_from_bin env data of
        Some (PDict kvs) \<Rightarrow> do {
          let root = Some (PDict kvs);
          location \<leftarrow> plist_get_string_val env (plist_dict_get_item root (str ''Content-Location''));
          Some (airtizen_playback_play location (play_position (plist_dict_get_item root (str ''Start-Position''))) b)
        }
      | _ \<Rightarrow> Some (-1, b))"

text \<open>A request in text: the non-empty lines (\<open>strtok_r\<close> at CR and LF), the first location and the last
  position; a second location ends the loop with neither.\<close>

fun strtok_lines :: "cstring \<Rightarrow> cstring \<Rightarrow> cstring list" where
  "strtok_lines line [] = (if line = [] then [] else [line])"
| "strtok_lines line (c # cs) =
     (if c = 13 \<or> c = 10 then (if line = [] then strtok_lines [] cs else line # strtok_lines [] cs) else strtok_lines (line @ [c]) cs)"

definition line_value :: "nat \<Rightarrow> cstring \<Rightarrow> cstring" where
  "line_value n line = dropWhile (\<lambda>c. c = 32) (drop n line)"

definition number_at :: "airplay_env \<Rightarrow> cstring \<Rightarrow> cdouble" where
  "number_at env v = (case ap_strtod env v of Some (x, []) \<Rightarrow> x | _ \<Rightarrow> NaN)"

fun play_lines :: "airplay_env \<Rightarrow> cstring list \<Rightarrow> cstring option \<Rightarrow> cdouble \<Rightarrow> cstring option \<times> cdouble" where
  "play_lines env [] location start = (location, start)"
| "play_lines env (line # lines) location start =
     (if strcaseeq (take 17 line) (str ''Content-Location:'') then
        (if location \<noteq> None then (None, NaN)
         else let v = line_value 17 line in play_lines env lines (if ap_strdup env v then Some v else None) start)
      else if strcaseeq (take 15 line) (str ''Start-Position:'') then
        play_lines env lines location (number_at env (line_value 15 line))
      else play_lines env lines location start)"

definition play_text :: "airplay_env \<Rightarrow> byte list \<Rightarrow> airtizen_playback_state \<Rightarrow> int \<times> airtizen_playback_state" where
  "play_text env data b =
     (if \<not> ap_malloc env then (-1, b)
      else (case play_lines env (strtok_lines [] data) None (Fin 0) of (location, start) \<Rightarrow> airtizen_playback_play location start b))"

definition play_request :: "airplay_env \<Rightarrow> http_request \<Rightarrow> 'm receiver \<Rightarrow> (http_response \<times> 'm receiver) option" where
  "play_request env rq r = do {
     (result, b) \<leftarrow>
       (case rq_data rq of
          None \<Rightarrow> Some (-1, rc_playback r)
        | Some data \<Rightarrow>
            if length data \<ge> 40 \<and> length data \<le> 8192 \<and> is_binary_plist data then play_binary env data (rc_playback r)
            else if length data > 0 \<and> length data \<le> 8192 \<and> 0 \<notin> set data then Some (play_text env data (rc_playback r))
            else Some (-1, rc_playback r));
     let r1 = r\<lparr>rc_playback := b\<rparr>;
     let r2 = (if result = 0 then r1\<lparr>rc_photo := airtizen_photo_reset (rc_photo r1)\<rparr> else r1);
     Some (airtizen_http_reply (if result = 0 then 200 else 400) None [], r2)
   }"

section \<open>Playback control\<close>

definition control_request :: "airplay_env \<Rightarrow> cstring \<Rightarrow> 'm receiver \<Rightarrow> http_response \<times> 'm receiver" where
  "control_request env path r =
     (let is_seek = strprefix (str ''/scrub?position='') path; v = drop (if is_seek then 16 else 12) path;
          (result, b) = (case ap_strtod env v of
                           Some (x, []) \<Rightarrow>
                             if isfinite x then (if is_seek then airtizen_playback_seek x (rc_playback r) else airtizen_playback_rate x (rc_playback r))
                             else (-1, rc_playback r)
                         | _ \<Rightarrow> (-1, rc_playback r))
      in (airtizen_http_reply (if result = 0 then 200 else 400) None [], r\<lparr>rc_playback := b\<rparr>))"

text \<open>\<open>%.6f\<close> of a double: its value in millionths, rounded to the nearest, ties to even.\<close>

definition round_even :: "rat \<Rightarrow> nat" where
  "round_even x = (let n = nat \<lfloor>x\<rfloor>; d = x - of_nat n in if d < 1 / 2 then n else if d > 1 / 2 then n + 1 else if even n then n else n + 1)"

definition fixed6 :: "cdouble \<Rightarrow> cstring" where
  "fixed6 x = (case x of
       Fin v \<Rightarrow> (if v < 0 then [45] else []) @ seconds6 (round_even (\<bar>v\<bar> * 1000000))
     | PosInf \<Rightarrow> str ''inf'' | NegInf \<Rightarrow> str ''-inf'' | NaN \<Rightarrow> str ''nan'')"

definition scrub_text :: "airtizen_playback_state \<Rightarrow> cstring" where
  "scrub_text b = str ''duration: '' @ fixed6 (duration b) @ [13, 10] @ str ''position: '' @ fixed6 (position b) @ [13, 10]"

text \<open>The text is written to a buffer of 160 bytes, but as many bytes are sent as the whole text has:
  a longer one would be read out of bounds.\<close>

definition scrub_reply :: "airtizen_playback_state \<Rightarrow> http_response option" where
  "scrub_reply b =
     (if length (scrub_text b) < 160 then Some (airtizen_http_reply 200 (Some (str ''text/parameters'')) (scrub_text b)) else None)"

definition playback_info :: "airtizen_playback_state \<Rightarrow> plist" where
  "playback_info b =
     PDict [(str ''duration'', PReal (duration b)), (str ''position'', PReal (position b)),
            (str ''rate'', PReal (if ready b then rate b else Fin 0)), (str ''readyToPlay'', PBool (ready b)),
            (str ''playbackBufferEmpty'', PBool (\<not> ready b)), (str ''playbackBufferFull'', PBool (ready b))]"

section \<open>Dispatch\<close>

text \<open>The inner option is whether the request was one of these; the outer \<open>None\<close> is a crash.\<close>

definition airtizen_airplay_http ::
  "airplay_env \<Rightarrow> http_request \<Rightarrow> 'm receiver \<Rightarrow> (http_response option \<times> 'm receiver) option" where
  "airtizen_airplay_http env rq r =
     (case (rq_method rq, rq_url rq) of
        (Some verb, Some path) \<Rightarrow>
          if verb = str ''POST'' \<and> path = str ''/reverse'' then Some (Some (airtizen_http_reply 501 None []), r)
          else if verb = str ''GET'' \<and> path = str ''/server-info'' then
            Some (Some (airtizen_http_reply 200 (Some (str ''text/x-apple-plist+xml'')) (ap_to_xml env (server_info (rc_mdns r)))), r)
          else if verb = str ''PUT'' \<and> path = str ''/photo'' then
            map_option (map_prod Some id) (photo_request env rq r)
          else if verb = str ''POST'' \<and> path = str ''/play'' then
            map_option (map_prod Some id) (play_request env rq r)
          else if verb = str ''POST'' \<and> path = str ''/stop'' then
            Some (Some (airtizen_http_reply 200 None []),
              r\<lparr>rc_playback := airtizen_playback_stop (rc_playback r), rc_photo := airtizen_photo_reset (rc_photo r)\<rparr>)
          else if verb = str ''POST'' \<and> (strprefix (str ''/rate?value='') path \<or> strprefix (str ''/scrub?position='') path) then
            Some (map_prod Some id (control_request env path r))
          else if verb = str ''GET'' \<and> path = str ''/scrub'' then
            map_option (\<lambda>reply. (Some reply, r)) (scrub_reply (airtizen_playback_snapshot (rc_playback r)))
          else if verb = str ''GET'' \<and> path = str ''/playback-info'' then
            Some (Some (airtizen_http_reply 200 (Some (str ''text/x-apple-plist+xml''))
                     (ap_to_xml env (playback_info (airtizen_playback_snapshot (rc_playback r))))), r)
          else Some (None, r)
      | _ \<Rightarrow> Some (None, r))"

section \<open>What is on screen\<close>

lemma photo_put_shown:
  assumes inv: "photo_inv s" and sz: "\<And>x. d = Some x \<Longrightarrow> sz = length x"
    and p: "airtizen_photo_put alloc action k t tr d sz s = Some (rc, s')"
  shows "ph_state s' = ph_state s \<or> (rc = 200 \<and> action \<noteq> Some (str ''cacheOnly''))"
proof (rule ccontr)
  assume n: "\<not> ?thesis"
  let ?key = "case k of None \<Rightarrow> [] | Some x \<Rightarrow> x" and ?ses = "case t of None \<Rightarrow> [] | Some x \<Rightarrow> x"
  have ne: "s' \<noteq> s" using n by blast
  have up: "action \<noteq> Some (str ''displayCached'')" using p ne n by (auto simp: airtizen_photo_put_def split: if_splits option.splits)
  then obtain x where x: "d = Some x" using p ne by (auto simp: airtizen_photo_put_def Let_def split: if_splits option.splits)
  obtain dd where dd: "dimensions x = Some dd" using dimensions_safe by blast
  from p ne up x sz dd have c: "alloc" "put_arguments_ok action ?key ?ses tr" "length x \<le> AIRTIZEN_PHOTO_MAX_BYTES" "dd \<noteq> None"
    "action = Some (str ''cacheOnly'') \<Longrightarrow> displayed s \<noteq> None \<Longrightarrow> find_slot s ?key ?ses \<noteq> displayed s"
    by (auto simp: airtizen_photo_put_def rdn_def Let_def split: if_splits option.splits)
  then obtain w h mime where "dd = Some (w, h, mime)" by auto
  with dd have dd2: "dimensions x = Some (Some (w, h, mime))" by simp
  from photo_put_store [OF inv c(2) up c(3) dd2 c(5)] obtain slot s2 where
    st: "airtizen_photo_put True action k t tr (Some x) (length x) s =
      Some (200, if action = Some (str ''cacheOnly'') then s2 else show_photo slot ?ses tr s2)" "stored s s2 slot x mime ?key ?ses" by blast
  have "rc = 200 \<and> s' = (if action = Some (str ''cacheOnly'') then s2 else show_photo slot ?ses tr s2)"
    using st(1) p c(1) x sz by simp
  then show False using n st(2) by (auto simp: stored_def split: if_splits)
qed

definition one_screen :: "'m receiver \<Rightarrow> bool" where
  "one_screen r \<longleftrightarrow> \<not> (ps_active (ph_state (rc_photo r)) \<and> active (rc_playback r))"

lemma reset_screen [simp]: "ps_active (ph_state (airtizen_photo_reset p)) = False" "active (airtizen_playback_stop b) = False"
  by (simp_all add: airtizen_photo_reset_def photo_zero_def airtizen_playback_stop_def playback_zero_def)

text \<open>What the callbacks do to it: nothing, or both are dismissed.\<close>

definition same_screen :: "'m receiver \<Rightarrow> 'm receiver \<Rightarrow> bool" where
  "same_screen r r' \<longleftrightarrow> (rc_photo r' = rc_photo r \<and> rc_playback r' = rc_playback r) \<or>
     (rc_photo r' = airtizen_photo_reset (rc_photo r) \<and> rc_playback r' = airtizen_playback_stop (rc_playback r))"

lemma same_screenI: "rc_photo r' = rc_photo r \<Longrightarrow> rc_playback r' = rc_playback r \<Longrightarrow> same_screen r r'"
  by (simp add: same_screen_def)

lemma same_screen_one: "same_screen r r' \<Longrightarrow> one_screen r \<Longrightarrow> one_screen r'"
  by (auto simp: same_screen_def one_screen_def)

lemma on_core_screen [simp]: "rc_photo (on_core f r) = rc_photo r" "rc_playback (on_core f r) = rc_playback r"
  by (simp_all add: on_core_def)

lemma deliver_screen:
  assumes d: "deliver ff dev mode e r = Some r'"
  shows "same_screen r r'"
proof -
  obtain now ev where e: "e = (now, ev)" by (cases e)
  show ?thesis
  proof (cases ev)
    case (AudioProcess x nm)
    then obtain t where "cb_audio_process dev mode now x nm r = Some (r', t)" using d by (auto simp: deliver_def e)
    then show ?thesis
      by (auto simp: cb_audio_process_def core_fail_def bind_eq_Some_conv split: option.splits if_splits intro!: same_screenI)
  next
    case (VideoProcess alloc x nm)
    then have "cb_video_process ff alloc now x nm r = Some r'" using d by (simp add: deliver_def e)
    then show ?thesis
      by (auto simp: cb_video_process_def Let_def same_screen_def bind_eq_Some_conv split: option.splits if_splits)
  next
    case Disconnected
    then show ?thesis using d by (auto simp: deliver_def e cb_disconnected_def cb_audio_flush_def Let_def intro!: same_screenI)
  next
    case (SetVolume v)
    then show ?thesis using d by (cases v) (auto simp: deliver_def e cb_audio_set_volume_def Let_def intro!: same_screenI)
  next
    case (MetadataData x)
    then show ?thesis using d
      by (auto simp: deliver_def e cb_metadata_def Let_def bind_eq_Some_conv split: prod.splits if_splits option.splits intro!: same_screenI)
  qed (use d in \<open>auto simp: deliver_def e cb_artwork_def cb_progress_def cb_audio_format_def cb_pairing_verified_def cb_connected_def
      cb_audio_flush_def cb_video_flush_def Let_def split: prod.splits if_splits option.splits intro!: same_screenI\<close>)
qed

section \<open>The requests keep the receiver sound\<close>

lemma play_cases:
  "airtizen_playback_play u f b = (rc, b') \<Longrightarrow> (rc = 0 \<and> active b') \<or> (rc = -1 \<and> b' = b)"
  by (auto simp: airtizen_playback_play_def split: option.splits if_splits)

lemma playback_ops_inv:
  assumes "playback_inv b"
  shows "playback_inv (snd (airtizen_playback_play u f b))" "playback_inv (snd (airtizen_playback_rate x b))"
    "playback_inv (snd (airtizen_playback_seek x b))"
  using playback.step_inv [OF assms, of "Play u f"] playback.step_inv [OF assms, of "Rate x"] playback.step_inv [OF assms, of "Seek x"]
  by (simp_all add: playback_step_def)

lemma length_seconds: "us \<le> 604800000000 \<Longrightarrow> length (seconds6 us) \<le> 27"
  by (rule length_seconds6) simp

lemma fixed6_bound: "in_range 0 604800 x \<Longrightarrow> length (fixed6 x) \<le> 27"
proof -
  assume r: "in_range 0 604800 x"
  then obtain v where v: "x = Fin v" "0 \<le> v" "v \<le> 604800" by (cases x) (auto simp: in_range_def)
  have "\<lfloor>v * 1000000\<rfloor> \<le> \<lfloor>604800000000 :: rat\<rfloor>" using v(3) by (intro floor_mono) simp
  then have "nat \<lfloor>v * 1000000\<rfloor> \<le> 604800000000" by (simp only: floor_numeral nat_le_iff of_nat_numeral)
  then have "round_even (v * 1000000) \<le> 604800000000 + 1" by (simp only: round_even_def Let_def split: if_split) linarith
  then have "length (seconds6 (round_even (v * 1000000))) \<le> 27" by (intro length_seconds6) simp
  then show ?thesis using v by (simp add: fixed6_def)
qed

lemma scrub_fits: "playback_inv b \<Longrightarrow> scrub_reply b = Some (airtizen_http_reply 200 (Some (str ''text/parameters'')) (scrub_text b))"
  using fixed6_bound [of "duration b"] fixed6_bound [of "position b"] by (simp add: scrub_reply_def scrub_text_def playback_inv_def)

text \<open>Without assertions every request is answered.\<close>

definition sound :: "'m receiver \<Rightarrow> bool" where
  "sound r \<longleftrightarrow> receiver_inv r \<and> one_screen r"

lemma photo_request_sound:
  assumes "sound r"
  shows "\<exists>reply r'. photo_request env rq r = Some (reply, r') \<and> sound r'"
proof -
  let ?action = "http_request_get_header rq (str ''X-Apple-AssetAction'')"
  have inv: "receiver_inv r" "photo_inv (rc_photo r)" using assms receiver_parts(4) by (auto simp: sound_def)
  have sz: "\<And>x. rq_data rq = Some x \<Longrightarrow> rq_length rq = length x" by (simp add: rq_length_def)
  from photo_put_total [OF inv(2) sz] obtain rc ph where p: "airtizen_photo_put (ap_photo_alloc env) ?action
      (http_request_get_header rq (str ''X-Apple-AssetKey'')) (http_request_get_header rq (str ''X-Apple-Session-ID''))
      (http_request_get_header rq (str ''X-Apple-Transition'')) (rq_data rq) (rq_length rq) (rc_photo r) = Some (rc, ph)"
    and ph: "photo_inv ph" by blast
  have shown: "ph_state ph = ph_state (rc_photo r) \<or> (rc = 200 \<and> ?action \<noteq> Some (str ''cacheOnly''))"
    by (rule photo_put_shown [OF inv(2) sz p])
  have r1: "receiver_inv (r\<lparr>rc_photo := ph\<rparr>)" by (rule receiver_updates(3) [OF inv(1) ph])
  have r2: "receiver_inv (r\<lparr>rc_photo := ph, rc_playback := airtizen_playback_stop (rc_playback r), rc_video := airtizen_video_reset (rc_video r)\<rparr>)"
    by (intro receiver_updates(2,4) r1 playback_stop_inv video_reset_inv) (use inv(1) in \<open>simp_all add: receiver_parts\<close>)
  show ?thesis
  proof (cases "rc = 200 \<and> ?action \<noteq> Some (str ''cacheOnly'')")
    case True
    then show ?thesis using p r2 by (simp add: photo_request_def Let_def sound_def one_screen_def)
  next
    case False
    then have "one_screen (r\<lparr>rc_photo := ph\<rparr>)" using shown assms by (auto simp: sound_def one_screen_def)
    then show ?thesis using p False r1 by (auto simp: photo_request_def Let_def sound_def)
  qed
qed

lemma playback_update_sound:
  assumes "sound r" and "playback_inv b" and "active b \<Longrightarrow> active (rc_playback r)"
  shows "sound (r\<lparr>rc_playback := b\<rparr>)"
  using assms receiver_updates(4) by (auto simp: sound_def one_screen_def)

lemma play_result_sound:
  assumes "sound r" and "playback_inv b" and "(rc = 0 \<and> active b) \<or> (rc = -1 \<and> b = rc_playback r)"
  shows "sound (if rc = 0 then (r\<lparr>rc_playback := b\<rparr>)\<lparr>rc_photo := airtizen_photo_reset (rc_photo r)\<rparr> else r\<lparr>rc_playback := b\<rparr>)"
proof (cases "rc = 0")
  case True
  have "receiver_inv ((r\<lparr>rc_playback := b\<rparr>)\<lparr>rc_photo := airtizen_photo_reset (rc_photo r)\<rparr>)"
    by (intro receiver_updates(3,4) photo_reset_inv) (use assms in \<open>simp_all add: sound_def receiver_parts\<close>)
  then show ?thesis using True by (simp add: sound_def one_screen_def)
next
  case False
  then show ?thesis using assms by simp
qed

lemma string_val_defined: "\<not> ap_asserts env \<Longrightarrow> \<exists>l. plist_get_string_val env node = Some l"
  by (cases node) (auto simp: plist_get_string_val_def split: plist.splits)

lemma play_binary_cases:
  assumes "\<not> ap_asserts env"
  shows "\<exists>rc b'. play_binary env data b = Some (rc, b') \<and> ((rc = 0 \<and> active b') \<or> (rc = -1 \<and> b' = b)) \<and> (playback_inv b \<longrightarrow> playback_inv b')"
proof (cases "ap_from_bin env data")
  case (Some node)
  show ?thesis
  proof (cases node)
    case (PDict kvs)
    let ?root = "Some (PDict kvs)"
    obtain location where l: "plist_get_string_val env (plist_dict_get_item ?root (str ''Content-Location'')) = Some location"
      using string_val_defined [OF assms] by blast
    let ?p = "airtizen_playback_play location (play_position (plist_dict_get_item ?root (str ''Start-Position''))) b"
    have "play_binary env data b = Some ?p" using Some PDict l by (simp add: play_binary_def)
    moreover obtain rc b' where p: "?p = (rc, b')" by fastforce
    moreover have "playback_inv b \<Longrightarrow> playback_inv b'" using playback_ops_inv(1) [of b] p by (metis snd_conv)
    ultimately show ?thesis using play_cases [OF p] by auto
  qed (use Some in \<open>simp_all add: play_binary_def\<close>)
qed (simp add: play_binary_def)

lemma play_text_cases:
  "\<exists>rc b'. play_text env data b = (rc, b') \<and> ((rc = 0 \<and> active b') \<or> (rc = -1 \<and> b' = b)) \<and> (playback_inv b \<longrightarrow> playback_inv b')"
proof (cases "ap_malloc env")
  case True
  obtain location start where l: "play_lines env (strtok_lines [] data) None (Fin 0) = (location, start)" by fastforce
  obtain rc b' where p: "airtizen_playback_play location start b = (rc, b')" by fastforce
  show ?thesis using True l p play_cases [OF p] playback_ops_inv(1) [of b location start] by (simp add: play_text_def)
qed (simp add: play_text_def)

lemma play_request_sound:
  assumes "sound r" and "\<not> ap_asserts env"
  shows "\<exists>reply r'. play_request env rq r = Some (reply, r') \<and> sound r'"
proof -
  define attempt where "attempt = (case rq_data rq of
      None \<Rightarrow> Some (-1, rc_playback r)
    | Some data \<Rightarrow>
        if length data \<ge> 40 \<and> length data \<le> 8192 \<and> is_binary_plist data then play_binary env data (rc_playback r)
        else if length data > 0 \<and> length data \<le> 8192 \<and> 0 \<notin> set data then Some (play_text env data (rc_playback r))
        else Some (-1, rc_playback r))"
  have inv: "playback_inv (rc_playback r)" using assms(1) by (simp add: sound_def receiver_parts)
  obtain rc b where a: "attempt = Some (rc, b)" "(rc = 0 \<and> active b) \<or> (rc = -1 \<and> b = rc_playback r)" "playback_inv b"
    using inv play_binary_cases [OF assms(2), of _ "rc_playback r"] play_text_cases [of env _ "rc_playback r"]
    unfolding attempt_def by (fastforce split: option.splits if_splits)
  have "sound (if rc = 0 then (r\<lparr>rc_playback := b\<rparr>)\<lparr>rc_photo := airtizen_photo_reset (rc_photo r)\<rparr> else r\<lparr>rc_playback := b\<rparr>)"
    by (rule play_result_sound [OF assms(1) a(3,2)])
  then show ?thesis using a(1) unfolding attempt_def play_request_def by (auto simp: Let_def)
qed

lemma control_request_sound: "sound r \<Longrightarrow> \<exists>reply r'. control_request env p r = (reply, r') \<and> sound r'"
proof -
  assume s: "sound r"
  then have inv: "playback_inv (rc_playback r)" by (simp add: sound_def receiver_parts)
  have "playback_inv (snd (airtizen_playback_rate x (rc_playback r))) \<and> active (snd (airtizen_playback_rate x (rc_playback r))) = active (rc_playback r)"
    "playback_inv (snd (airtizen_playback_seek x (rc_playback r))) \<and> active (snd (airtizen_playback_seek x (rc_playback r))) = active (rc_playback r)" for x
    using playback_ops_inv [OF inv] by (simp_all add: airtizen_playback_rate_def airtizen_playback_seek_def)
  then have "sound (r\<lparr>rc_playback := snd (airtizen_playback_rate x (rc_playback r))\<rparr>)"
    "sound (r\<lparr>rc_playback := snd (airtizen_playback_seek x (rc_playback r))\<rparr>)" for x
    by (intro playback_update_sound s; simp)+
  then have u: "airtizen_playback_rate x (rc_playback r) = (rc, b) \<Longrightarrow> sound (r\<lparr>rc_playback := b\<rparr>)"
    "airtizen_playback_seek x (rc_playback r) = (rc, b) \<Longrightarrow> sound (r\<lparr>rc_playback := b\<rparr>)" for x rc b
    by (metis snd_conv)+
  show ?thesis using s by (auto simp: control_request_def Let_def split: option.split list.split prod.split intro: u)
qed

lemma airplay_http_sound:
  assumes "sound r" and "\<not> ap_asserts env"
  shows "\<exists>reply r'. airtizen_airplay_http env rq r = Some (reply, r') \<and> sound r'"
proof (cases "rq_method rq"; cases "rq_url rq")
  fix verb p assume v: "rq_method rq = Some verb" "rq_url rq = Some p"
  have inv: "receiver_inv r" using assms(1) by (simp add: sound_def)
  have stop: "sound (r\<lparr>rc_playback := airtizen_playback_stop (rc_playback r), rc_photo := airtizen_photo_reset (rc_photo r)\<rparr>)"
    using inv by (auto simp: sound_def one_screen_def intro!: receiver_updates(3,4) photo_reset_inv playback_stop_inv receiver_parts)
  obtain reply1 r1 where 1: "photo_request env rq r = Some (reply1, r1)" "sound r1" using photo_request_sound [OF assms(1)] by blast
  obtain reply2 r2 where 2: "play_request env rq r = Some (reply2, r2)" "sound r2" using play_request_sound [OF assms] by blast
  obtain reply3 r3 where 3: "control_request env p r = (reply3, r3)" "sound r3" using control_request_sound [OF assms(1)] by blast
  have 4: "scrub_reply (rc_playback r) = Some (airtizen_http_reply 200 (Some (str ''text/parameters'')) (scrub_text (rc_playback r)))"
    using scrub_fits receiver_parts(5) [OF inv] .
  show ?thesis unfolding airtizen_airplay_http_def v option.case prod.case 1 2 3 airtizen_playback_snapshot_def 4
    using 1 2 3 stop assms(1) by simp
qed (use assms(1) in \<open>simp_all add: airtizen_airplay_http_def\<close>)

section \<open>Histories\<close>

text \<open>What changes the screen: requests on the AirPlay port, the callbacks of the streams, and the reports of
  the TV page.\<close>

datatype airplay_op =
    Request airplay_env http_request
  | StreamEvent nat core_event
  | PhotoReport u32 bool
  | PlaybackReport u32 cdouble cdouble bool bool bool

definition release :: "airplay_env \<Rightarrow> airplay_env" where
  "release env = env\<lparr>ap_asserts := False\<rparr>"

definition airplay_step :: "'m ffmpeg \<Rightarrow> audio_env \<Rightarrow> cstring \<Rightarrow> airplay_op \<Rightarrow> 'm receiver \<Rightarrow> 'm receiver" where
  "airplay_step ff dev mode op r =
     (case op of
        Request env rq \<Rightarrow> snd (the (airtizen_airplay_http (release env) rq r))
      | StreamEvent now ev \<Rightarrow> the (deliver ff dev mode (now, ev) r)
      | PhotoReport g failure \<Rightarrow> r\<lparr>rc_photo := snd (airtizen_photo_report g failure (rc_photo r))\<rparr>
      | PlaybackReport g pos dur rdy failure ended \<Rightarrow>
          r\<lparr>rc_playback := snd (airtizen_playback_report g pos dur rdy failure ended (rc_playback r))\<rparr>)"

lemma airplay_step_sound:
  assumes s: "sound r"
  shows "sound (airplay_step ff dev mode op r)"
proof (cases op)
  case (Request env rq)
  have "\<not> ap_asserts (release env)" by (simp add: release_def)
  from airplay_http_sound [OF s this, of rq] show ?thesis by (auto simp: airplay_step_def Request)
next
  case (StreamEvent now ev)
  obtain r' where r': "deliver ff dev mode (now, ev) r = Some r'" "receiver_inv r'"
    using deliver_inv [of r ff dev mode "(now, ev)"] s by (auto simp: sound_def)
  then show ?thesis using same_screen_one [OF deliver_screen [OF r'(1)]] s by (simp add: airplay_step_def StreamEvent sound_def)
next
  case (PhotoReport g failure)
  have "receiver_inv (r\<lparr>rc_photo := photo_step (photo_op.Report g failure) (rc_photo r)\<rparr>)"
    by (intro receiver_updates(3) photo.step_inv) (use s in \<open>simp_all add: sound_def receiver_parts\<close>)
  moreover have "ps_active (ph_state (snd (airtizen_photo_report g failure (rc_photo r)))) = ps_active (ph_state (rc_photo r))"
    by (simp add: airtizen_photo_report_def)
  ultimately show ?thesis using s by (simp add: airplay_step_def PhotoReport photo_step_def sound_def one_screen_def)
next
  case (PlaybackReport g pos dur rdy failure ended)
  have "playback_inv (playback_step (playback_op.Report g pos dur rdy failure ended) (rc_playback r))"
    by (rule playback.step_inv) (use s in \<open>simp add: sound_def receiver_parts\<close>)
  moreover have "active (snd (airtizen_playback_report g pos dur rdy failure ended (rc_playback r))) \<Longrightarrow> active (rc_playback r)"
    by (auto simp: airtizen_playback_report_def Let_def split: if_splits)
  ultimately show ?thesis using playback_update_sound [OF s] by (simp add: airplay_step_def PlaybackReport playback_step_def)
qed

lemma sound_init: "sound receiver_init"
  using receiver_init_inv by (simp add: sound_def one_screen_def receiver_init_def photo_init_def photo_zero_def)

interpretation screen: guarded_component receiver_init "airplay_step ff dev mode" sound
  by unfold_locales (rule sound_init, rule airplay_step_sound)

section \<open>Play requests in text\<close>

lemma strtok_line:
  "13 \<notin> set l \<Longrightarrow> 10 \<notin> set l \<Longrightarrow> line @ l \<noteq> [] \<Longrightarrow> strtok_lines line (l @ 10 # rest) = (line @ l) # strtok_lines [] rest"
  by (induction l arbitrary: line) auto

lemma spaces_dropped: "p = [] \<or> hd p \<noteq> 32 \<Longrightarrow> dropWhile (\<lambda>c. c = 32) (32 # p) = p"
  by (cases p) auto

text \<open>A printable URL has no line end, and does not start with a space.\<close>

definition line_text :: "cstring \<Rightarrow> bool" where
  "line_text t \<longleftrightarrow> 13 \<notin> set t \<and> 10 \<notin> set t \<and> 0 \<notin> set t \<and> (t = [] \<or> hd t \<noteq> 32)"

lemma url_line_text: "url_valid u \<Longrightarrow> line_text u"
proof -
  assume "url_valid u"
  then have l: "list_all url_char u" by (auto simp: url_valid_def Let_def split: option.splits if_splits)
  then have "c \<in> set u \<Longrightarrow> url_char c" for c by (simp add: list_all_iff)
  moreover have "\<not> url_char 13" "\<not> url_char 10" "\<not> url_char 0" "\<not> url_char 32" by (simp_all add: url_char_def)
  ultimately show ?thesis unfolding line_text_def by (metis hd_in_set)
qed

definition play_body :: "cstring \<Rightarrow> cstring \<Rightarrow> byte list" where
  "play_body u number = str ''Content-Location:'' @ 32 # u @ 10 # str ''Start-Position:'' @ 32 # number @ [10]"

lemma play_body_lines:
  assumes "line_text u" and "line_text number" and "ap_strdup env u" and "ap_strtod env number = Some (x, [])"
  shows "play_lines env (strtok_lines [] (play_body u number)) None (Fin 0) = (Some u, x)"
proof -
  let ?a = "str ''Content-Location:''" and ?b = "str ''Start-Position:''"
  have ab: "13 \<notin> set ?a" "10 \<notin> set ?a" "13 \<notin> set ?b" "10 \<notin> set ?b" by code_simp+
  have diff: "\<not> strcaseeq (take 17 (?b @ 32 # number)) ?a"
  proof
    assume "strcaseeq (take 17 (?b @ 32 # number)) ?a"
    then have "map lower (take 17 (?b @ 32 # number)) = map lower ?a" by (simp add: strcaseeq_def)
    then have "take 1 (map lower (take 17 (?b @ 32 # number))) = take 1 (map lower ?a)" by simp
    then have "take 1 (map lower ?b) = take 1 (map lower ?a)" by (simp add: take_map)
    then show False by (simp add: str_def lower_def)
  qed
  have lines: "strtok_lines [] (play_body u number) = [?a @ 32 # u, ?b @ 32 # number]"
    using assms(1,2) ab strtok_line [of "?a @ 32 # u" "[]" "?b @ 32 # number @ [10]"] strtok_line [of "?b @ 32 # number" "[]" "[]"]
    by (simp add: play_body_def line_text_def)
  have v: "line_value 17 (?a @ 32 # u) = u" "line_value 15 (?b @ 32 # number) = number"
    using assms(1,2) by (simp_all add: line_value_def line_text_def spaces_dropped del: dropWhile.simps)
  have h: "strcaseeq (take 17 (?a @ 32 # u)) ?a" "strcaseeq (take 15 (?b @ 32 # number)) ?b" by (simp_all add: strcaseeq_def)
  show ?thesis using assms(3,4) diff h by (simp only: lines play_lines.simps v) (simp add: number_at_def Let_def)
qed

section \<open>Main results\<close>


definition play_text_request :: "cstring \<Rightarrow> cstring \<Rightarrow> http_request" where
  "play_text_request u number = \<lparr>rq_method = Some (str ''POST''), rq_url = Some (str ''/play''), rq_protocol = str ''HTTP/1.1'',
     rq_headers = [], rq_data = Some (play_body u number)\<rparr>"

text \<open>
  C23: a play request in text, with a URL of the accepted grammar and a start position
  between 0 and 1 on separate lines, is answered 200: exactly that URL becomes the active item of the next
  generation, at exactly that position, and a photo on screen is dismissed.
\<close>

theorem airplay_play_text:
  assumes "url_valid u" and "length u \<le> 2048" and "in_range 0 1 x" and "length number \<le> 100"
    and "line_text number" and "ap_strtod env number = Some (x, [])" and "ap_malloc env" and "ap_strdup env u"
  shows "\<exists>r'. airtizen_airplay_http env (play_text_request u number) r = Some (Some (airtizen_http_reply 200 None []), r') \<and>
    active (rc_playback r') \<and> url (rc_playback r') = u \<and> fraction (rc_playback r') = x \<and>
    generation (rc_playback r') = generation (rc_playback r) + 1 \<and> \<not> ps_active (ph_state (rc_photo r'))"
proof -
  let ?rq = "play_text_request u number" and ?d = "play_body u number"
  have head: "take 1 ?d = str ''C''" by (simp add: play_body_def str_def)
  have bin: "\<not> is_binary_plist ?d"
  proof
    assume "is_binary_plist ?d"
    then have "take (length (str ''bplist00'')) ?d = str ''bplist00''" by (simp only: is_binary_plist_def strprefix_def)
    then have "take 1 (take (length (str ''bplist00'')) ?d) = take 1 (str ''bplist00'')" by (simp only:)
    then have "take 1 ?d = take 1 (str ''bplist00'')" by (simp only: take_take) simp
    then show False using head by (simp add: str_def)
  qed
  have len: "0 < length ?d" "length ?d \<le> 8192" using assms(2,4) by (simp_all add: play_body_def)
  have nul: "0 \<notin> set (str ''Content-Location:'')" "0 \<notin> set (str ''Start-Position:'')" by code_simp+
  have nn: "0 \<notin> set ?d" using nul url_line_text [OF assms(1)] assms(5) by (simp add: play_body_def line_text_def)
  have rng: "isfinite x \<and> \<not> dlt x (Fin 0) \<and> \<not> dlt (Fin 1) x" using assms(3) in_range_iff by blast
  have p: "play_text env ?d (rc_playback r) = (0, playback_zero\<lparr>generation := generation (rc_playback r) + 1, active := True, rate := Fin 1,
      seek := Fin (-1), fraction := x, url := u\<rparr>)"
    using play_body_lines [OF url_line_text [OF assms(1)] assms(5,8,6)] assms(1,2,7) rng
    by (simp add: play_text_def airtizen_playback_play_def)
  have route: "airtizen_airplay_http env ?rq r = map_option (map_prod Some id) (play_request env ?rq r)"
    by (simp add: airtizen_airplay_http_def play_text_request_def)
  have d: "rq_data ?rq = Some ?d" by (simp add: play_text_request_def)
  have "play_request env ?rq r = Some (airtizen_http_reply 200 None [],
      (r\<lparr>rc_playback := snd (play_text env ?d (rc_playback r))\<rparr>)\<lparr>rc_photo := airtizen_photo_reset (rc_photo r)\<rparr>)"
    unfolding play_request_def d option.case using bin len nn p by (simp add: Let_def)
  then show ?thesis using route p by simp
qed

definition sample_airplay :: airplay_env where
  "sample_airplay = \<lparr>ap_asserts = True, ap_from_bin = (\<lambda>_. Some (PDict [])), ap_to_xml = (\<lambda>_. []),
     ap_strtod = (\<lambda>t. if t = str ''0.5'' then Some (Fin (1 / 2), []) else None), ap_malloc = True, ap_strdup = (\<lambda>_. True),
     ap_photo_alloc = True\<rparr>"

theorem airplay_play_text_witness:
  "\<exists>r'. airtizen_airplay_http sample_airplay (play_text_request (str ''http://tv/a'') (str ''0.5'')) (receiver_init :: unit receiver) =
      Some (Some (airtizen_http_reply 200 None []), r') \<and> url (rc_playback r') = str ''http://tv/a''"
proof -
  have u: "url_valid (str ''http://tv/a'')" by code_simp
  have n: "line_text (str ''0.5'')" by (simp add: line_text_def str_def)
  show ?thesis using airplay_play_text [of "str ''http://tv/a''" "Fin (1 / 2)" "str ''0.5''" sample_airplay receiver_init] u n
    by (auto simp: sample_airplay_def in_range_def)
qed

text \<open>
  C25: in a build with assertions, a binary play request without a location stops the
  receiver: the accessor of the string asserts that there is one. A build without them answers 400.
\<close>

theorem airplay_assertions:
  assumes "rq_method rq = Some (str ''POST'')" and "rq_url rq = Some (str ''/play'')" and "rq_data rq = Some data"
    and "40 \<le> length data" and "length data \<le> 8192" and "is_binary_plist data" and "ap_from_bin env data = Some (PDict kvs)"
    and "map_of kvs (str ''Content-Location'') = None"
  shows "airtizen_airplay_http env rq r =
    (if ap_asserts env then None else Some (Some (airtizen_http_reply 400 None []), r\<lparr>rc_playback := rc_playback r\<rparr>))"
proof -
  have s: "plist_get_string_val env None = (if ap_asserts env then None else Some None)" by (simp add: plist_get_string_val_def)
  have b: "play_binary env data (rc_playback r) = (if ap_asserts env then None else Some (-1, rc_playback r))"
    using assms(7,8) s by (simp add: play_binary_def plist_dict_get_item_def airtizen_playback_play_def)
  have "play_request env rq r = (if ap_asserts env then None else Some (airtizen_http_reply 400 None [], r\<lparr>rc_playback := rc_playback r\<rparr>))"
    unfolding play_request_def assms(3) option.case using assms(4-6) b by simp
  then show ?thesis using assms(1,2) by (simp add: airtizen_airplay_http_def)
qed

theorem airplay_assertions_witness:
  "airtizen_airplay_http sample_airplay \<lparr>rq_method = Some (str ''POST''), rq_url = Some (str ''/play''), rq_protocol = str ''HTTP/1.1'',
     rq_headers = [], rq_data = Some (str ''bplist00'' @ replicate 40 0)\<rparr> (receiver_init :: unit receiver) = None"
  using airplay_assertions [where rq = "\<lparr>rq_method = Some (str ''POST''), rq_url = Some (str ''/play''), rq_protocol = str ''HTTP/1.1'',
     rq_headers = [], rq_data = Some (str ''bplist00'' @ replicate 40 0)\<rparr>" and data = "str ''bplist00'' @ replicate 40 0"
     and env = sample_airplay and kvs = "[]" and r = "receiver_init :: unit receiver"]
  by (simp add: sample_airplay_def is_binary_plist_def strprefix_def)

end
