(* ===== verification/Reverse.thy ===== *)
theory Reverse
  imports Airplay
begin

text \<open>
  The reverse channel (\<open>native/include/airtizen_reverse.h\<close>): a sender turns its connection around to be
  told what the TV plays. The connection is polled and sends one event at a time, each acknowledged by
  the sender; the receiver may change between polls in any way.

  The theory gives the protocol as an abstract automaton and shows that every run of the code is a run of
  it, that what an event says is true when it is sent, and that a change is never kept back.
\<close>

section \<open>State and operations\<close>

text \<open>The fields \<open>prepare_donor_sources.py\<close> adds to the connection of the RAOP server.\<close>

record reverse_conn =
  cn_photo_seen :: bool
  cn_photo_session :: u32
  cn_reverse :: int
  cn_waiting :: bool
  cn_state :: int
  cn_generation :: u32
  cn_time :: u64
  cn_session :: cstring

definition conn_zero :: reverse_conn where
  "conn_zero = \<lparr>cn_photo_seen = False, cn_photo_session = 0, cn_reverse = 0, cn_waiting = False, cn_state = 0, cn_generation = 0,
     cn_time = 0, cn_session = []\<rparr>"

text \<open>\<open>isalnum\<close> in the C locale, and the dash.\<close>

definition session_char :: "byte \<Rightarrow> bool" where
  "session_char c \<longleftrightarrow> (48 \<le> c \<and> c \<le> 57) \<or> (65 \<le> c \<and> c \<le> 90) \<or> (97 \<le> c \<and> c \<le> 122) \<or> c = 45"

text \<open>The photo of this connection's session is on screen.\<close>

definition photo_shown :: "'m receiver \<Rightarrow> reverse_conn \<Rightarrow> bool" where
  "photo_shown r c \<longleftrightarrow> (let photo = airtizen_photo_snapshot (rc_photo r) in
     ps_active photo \<and> \<not> ps_failed photo \<and> ps_session photo = cn_session c)"

definition see_photo :: "'m receiver \<Rightarrow> reverse_conn \<Rightarrow> reverse_conn" where
  "see_photo r c = c\<lparr>cn_photo_seen := True, cn_photo_session := ps_session_id (airtizen_photo_snapshot (rc_photo r))\<rparr>"

definition switching :: http_response where
  "switching = \<lparr>rs_start = str ''HTTP/1.1'', rs_code = 101, rs_reason = str ''Switching Protocols'',
     rs_headers = [(str ''Upgrade'', str ''PTTH/1.0''), (str ''Connection'', str ''Upgrade''), (str ''Content-Length'', str ''0'')],
     rs_body = []\<rparr>"

definition airtizen_reverse_upgrade :: "http_request \<Rightarrow> 'm receiver \<Rightarrow> reverse_conn \<Rightarrow> http_response option \<times> reverse_conn" where
  "airtizen_reverse_upgrade rq r c =
     (if rq_method rq \<noteq> Some (str ''POST'') \<or> rq_url rq \<noteq> Some (str ''/reverse'') then (None, c)
      else
        let session = http_request_get_header rq (str ''X-Apple-Session-ID'') in
        if (case session of None \<Rightarrow> False | Some s \<Rightarrow> length s > 64 \<or> \<not> list_all session_char s) then (None, c)
        else
          let c1 = (case session of None \<Rightarrow> c | Some s \<Rightarrow> c\<lparr>cn_session := fit 65 s\<rparr>);
              playback = airtizen_playback_snapshot (rc_playback r);
              c2 = c1\<lparr>cn_reverse := 1, cn_generation := generation playback, cn_state := (if active playback then -1 else 0)\<rparr>
          in (Some switching, if photo_shown r c2 then see_photo r c2 else c2))"

text \<open>A message on a connection that was turned around: an acknowledgement has no URL, a request ends the
  channel (the connection code \<open>prepare_donor_sources.py\<close> inserts).\<close>

definition reverse_message :: "cstring option \<Rightarrow> reverse_conn \<Rightarrow> reverse_conn" where
  "reverse_message target c =
     (if cn_reverse c \<noteq> 0 then (case target of None \<Rightarrow> c\<lparr>cn_waiting := False\<rparr> | Some u \<Rightarrow> c\<lparr>cn_reverse := -1\<rparr>) else c)"

definition playback_view :: "airtizen_playback_state \<Rightarrow> int" where
  "playback_view playback =
     (if \<not> active playback \<or> failed playback then 0 else if \<not> ready playback then 1 else if deq (rate playback) (Fin 0) then 2 else 3)"

definition view_name :: "int \<Rightarrow> cstring" where
  "view_name state = (if state = 0 then str ''stopped'' else if state = 1 then str ''loading'' else if state = 2 then str ''paused'' else str ''playing'')"

definition event_info :: "bool \<Rightarrow> int \<Rightarrow> reverse_conn \<Rightarrow> plist" where
  "event_info photo_stopped state c =
     PDict ([(str ''category'', PString (if photo_stopped then str ''photo'' else str ''video''))] @
       (if photo_stopped then [(str ''sessionID'', PUint (ucast (cn_photo_session c)))] else []) @
       [(str ''state'', PString (if photo_stopped then str ''stopped'' else view_name state))])"

text \<open>The event: a POST to /event with these headers and the information as its body.\<close>

record reverse_event =
  ev_headers :: "(cstring \<times> cstring) list"
  ev_info :: plist

definition reverse_event_of :: "plist \<Rightarrow> reverse_conn \<Rightarrow> reverse_event" where
  "reverse_event_of info c =
     \<lparr>ev_headers = (str ''Content-Type'', str ''text/x-apple-plist+xml'') #
        (if cn_session c \<noteq> [] then [(str ''X-Apple-Session-ID'', cn_session c)] else []),
      ev_info = info\<rparr>"

text \<open>One poll: the result code, the event, the connection; \<open>now\<close> is the clock in seconds and \<open>alloc\<close>
  whether the event can be allocated.\<close>

definition airtizen_reverse_poll :: "bool \<Rightarrow> u64 \<Rightarrow> 'm receiver \<Rightarrow> reverse_conn \<Rightarrow> int \<times> reverse_event option \<times> reverse_conn" where
  "airtizen_reverse_poll alloc now r c =
     (if cn_reverse c < 0 then (-1, None, c)
      else if cn_reverse c = 0 then (0, None, c)
      else if cn_waiting c then (if now - cn_time c > 10 then -1 else 0, None, c)
      else if photo_shown r c then (0, None, see_photo r c)
      else
        let playback = airtizen_playback_snapshot (rc_playback r);
            photo_stopped = cn_photo_seen c; c1 = c\<lparr>cn_photo_seen := False\<rparr>;
            state = playback_view playback
        in if \<not> photo_stopped \<and> state = cn_state c1 \<and> generation playback = cn_generation c1 then (0, None, c1)
           else if \<not> alloc then (-1, None, c1)
           else (1, Some (reverse_event_of (event_info photo_stopped state c1) c1),
                 c1\<lparr>cn_state := state, cn_generation := generation playback, cn_waiting := True, cn_time := now\<rparr>))"

section \<open>The protocol\<close>

text \<open>What happens on a channel: a photo of the session is noticed, an event about the playback or about
  the end of a photo is sent, an acknowledgement arrives.\<close>

datatype reverse_act = PhotoNoticed u32 | PlaybackSent int u32 | PhotoSent u32 int u32 | Acknowledged

text \<open>The automaton: whether an event is outstanding, the playback last told, and a photo whose end is
  still to be told.\<close>

record reverse_spec =
  sp_waiting :: bool
  sp_view :: "int \<times> u32"
  sp_photo :: "u32 option"

fun spec_act :: "reverse_act \<Rightarrow> reverse_spec \<Rightarrow> reverse_spec option" where
  "spec_act (PhotoNoticed n) s = (if sp_waiting s then None else Some (s\<lparr>sp_photo := Some n\<rparr>))"
| "spec_act (PlaybackSent v g) s =
     (if sp_waiting s \<or> sp_photo s \<noteq> None \<or> (v, g) = sp_view s then None else Some (s\<lparr>sp_waiting := True, sp_view := (v, g)\<rparr>))"
| "spec_act (PhotoSent n v g) s =
     (if sp_waiting s \<or> sp_photo s \<noteq> Some n then None else Some (s\<lparr>sp_waiting := True, sp_view := (v, g), sp_photo := None\<rparr>))"
| "spec_act Acknowledged s = Some (s\<lparr>sp_waiting := False\<rparr>)"

fun spec_run :: "reverse_act list \<Rightarrow> reverse_spec \<Rightarrow> reverse_spec option" where
  "spec_run [] s = Some s"
| "spec_run (a # as) s = Option.bind (spec_act a s) (spec_run as)"

lemma spec_run_append: "spec_run (as @ bs) s = Option.bind (spec_run as s) (spec_run bs)"
proof (induction as arbitrary: s)
  case (Cons a as)
  then show ?case by (cases "spec_act a s") simp_all
qed simp

definition abs_conn :: "reverse_conn \<Rightarrow> reverse_spec" where
  "abs_conn c = \<lparr>sp_waiting = cn_waiting c, sp_view = (cn_state c, cn_generation c),
     sp_photo = (if cn_photo_seen c then Some (cn_photo_session c) else None)\<rparr>"

text \<open>The inputs of a channel: a poll, with the receiver as it then is, or a message.\<close>

datatype 'm reverse_op = Poll bool u64 "'m receiver" | Message "cstring option"

text \<open>What an input does, read off the result of the poll and the event on the wire.\<close>

definition poll_acts :: "'m receiver \<Rightarrow> reverse_conn \<Rightarrow> int \<times> reverse_event option \<times> reverse_conn \<Rightarrow> reverse_act list" where
  "poll_acts r c outcome =
     (case outcome of (result, event, c1) \<Rightarrow>
        (case event of
           Some e \<Rightarrow>
             (case plist_dict_get_item (Some (ev_info e)) (str ''sessionID'') of
                Some (PUint n) \<Rightarrow> [PhotoSent (ucast n) (cn_state c1) (cn_generation c1)]
              | _ \<Rightarrow> [PlaybackSent (cn_state c1) (cn_generation c1)])
         | None \<Rightarrow> if cn_photo_seen c1 \<and> photo_shown r c \<and> \<not> cn_waiting c then [PhotoNoticed (cn_photo_session c1)] else []))"

text \<open>A connection whose poll fails is removed by the server.\<close>

fun reverse_run :: "'m reverse_op list \<Rightarrow> reverse_conn \<Rightarrow> reverse_act list \<times> reverse_conn" where
  "reverse_run [] c = ([], c)"
| "reverse_run (Poll alloc now r # ops) c =
     (case airtizen_reverse_poll alloc now r c of
        (result, event, c1) \<Rightarrow>
          if result < 0 then ([], c1)
          else (case reverse_run ops c1 of (as, c2) \<Rightarrow> (poll_acts r c (result, event, c1) @ as, c2)))"
| "reverse_run (Message target # ops) c =
     (case reverse_run ops (reverse_message target c) of
        (as, c2) \<Rightarrow> ((if cn_reverse c \<noteq> 0 \<and> target = None then [Acknowledged] else []) @ as, c2))"

section \<open>Every run follows the protocol\<close>

lemma event_session_id:
  "plist_dict_get_item (Some (event_info photo_stopped v c)) (str ''sessionID'') =
    (if photo_stopped then Some (PUint (ucast (cn_photo_session c))) else None)"
  by (simp add: event_info_def plist_dict_get_item_def)

lemma ucast_u32_u64_u32 [simp]: "ucast (ucast (x :: u32) :: u64) = x"
  by (simp add: bit_eq_iff bit_simps)

lemma poll_acts_run:
  assumes "cn_reverse c \<noteq> 0" and "airtizen_reverse_poll alloc now r c = (result, event, c1)" and "\<not> result < 0"
  shows "spec_run (poll_acts r c (result, event, c1)) (abs_conn c) = Some (abs_conn c1) \<and> cn_reverse c1 = cn_reverse c"
proof -
  let ?p = "airtizen_playback_snapshot (rc_playback r)"
  have pos: "\<not> cn_reverse c < 0" using assms(2,3) by (auto simp: airtizen_reverse_poll_def)
  consider (waiting) "cn_waiting c" | (shown) "\<not> cn_waiting c" "photo_shown r c"
    | (same) "\<not> cn_waiting c" "\<not> photo_shown r c" "\<not> cn_photo_seen c" "playback_view ?p = cn_state c" "generation ?p = cn_generation c"
    | (sent) "\<not> cn_waiting c" "\<not> photo_shown r c" "cn_photo_seen c \<or> (playback_view ?p, generation ?p) \<noteq> (cn_state c, cn_generation c)"
    by auto
  then show ?thesis
  proof cases
    case waiting
    then show ?thesis using assms pos by (auto simp: airtizen_reverse_poll_def poll_acts_def split: if_splits)
  next
    case shown
    then show ?thesis using assms pos
      by (auto simp: airtizen_reverse_poll_def poll_acts_def see_photo_def abs_conn_def)
  next
    case same
    then have "c1 = c\<lparr>cn_photo_seen := False\<rparr>" "event = None"
      using assms pos by (auto simp: airtizen_reverse_poll_def Let_def)
    then show ?thesis using same by (simp add: poll_acts_def abs_conn_def)
  next
    case sent
    then have "alloc" using assms pos by (auto simp: airtizen_reverse_poll_def Let_def split: if_splits)
    then have e: "event = Some (reverse_event_of (event_info (cn_photo_seen c) (playback_view ?p) (c\<lparr>cn_photo_seen := False\<rparr>)) (c\<lparr>cn_photo_seen := False\<rparr>))"
      and c1: "c1 = c\<lparr>cn_photo_seen := False, cn_state := playback_view ?p, cn_generation := generation ?p, cn_waiting := True, cn_time := now\<rparr>"
      using sent assms pos by (auto simp: airtizen_reverse_poll_def Let_def)
    show ?thesis using sent by (auto simp: poll_acts_def e c1 reverse_event_of_def event_session_id abs_conn_def)
  qed
qed

lemma message_run:
  "cn_reverse c \<noteq> 0 \<Longrightarrow> cn_reverse (reverse_message target c) \<noteq> 0 \<and>
    spec_run (if cn_reverse c \<noteq> 0 \<and> target = None then [Acknowledged] else []) (abs_conn c) = Some (abs_conn (reverse_message target c))"
  by (cases target) (simp_all add: reverse_message_def abs_conn_def)

lemma reverse_run_spec: "cn_reverse c \<noteq> 0 \<Longrightarrow> spec_run (fst (reverse_run ops c)) (abs_conn c) \<noteq> None"
proof (induction ops arbitrary: c)
  case (Cons op ops)
  show ?case
  proof (cases op)
    case (Poll alloc now r)
    obtain result event c1 where p: "airtizen_reverse_poll alloc now r c = (result, event, c1)" by (cases "airtizen_reverse_poll alloc now r c")
    show ?thesis
    proof (cases "result < 0")
      case True
      then show ?thesis by (simp add: Poll p)
    next
      case False
      obtain as c2 where "reverse_run ops c1 = (as, c2)" by fastforce
      with poll_acts_run [OF Cons.prems p False] Cons.IH [of c1] Cons.prems show ?thesis
        by (simp add: Poll p False spec_run_append)
    qed
  next
    case (Message target)
    obtain as c2 where "reverse_run ops (reverse_message target c) = (as, c2)" by fastforce
    with message_run [OF Cons.prems, of target] Cons.IH [of "reverse_message target c"] show ?thesis
      by (simp add: Message spec_run_append)
  qed
qed simp

definition is_event :: "reverse_act \<Rightarrow> bool" where
  "is_event a = (case a of PlaybackSent v g \<Rightarrow> True | PhotoSent n v g \<Rightarrow> True | _ \<Rightarrow> False)"

lemma spec_one_event:
  assumes run: "spec_run (as @ e1 # bs @ e2 # cs) s \<noteq> None" and e: "is_event e1" "is_event e2"
  shows "Acknowledged \<in> set bs"
proof -
  have blocked: "spec_run (bs @ e2 # cs) t = None" if "sp_waiting t" "Acknowledged \<notin> set bs" for t bs
    using that
  proof (induction bs arbitrary: t)
    case Nil
    then show ?case using e by (cases e2) (auto simp: is_event_def)
  next
    case (Cons b bs)
    then show ?case by (cases b) auto
  qed
  obtain t u where u: "spec_run as s = Some t" "spec_act e1 t = Some u" "spec_run (bs @ e2 # cs) u \<noteq> None"
    using run by (auto simp: spec_run_append bind_eq_Some_conv)
  then have "sp_waiting u" using e by (cases e1) (auto simp: is_event_def split: if_splits)
  with blocked [of u bs] u(3) show ?thesis by (cases "Acknowledged \<in> set bs") simp_all
qed

section \<open>Main results\<close>


definition reverse_request :: http_request where
  "reverse_request = \<lparr>rq_method = Some (str ''POST''), rq_url = Some (str ''/reverse''), rq_protocol = str ''HTTP/1.1'',
     rq_headers = [(str ''X-Apple-Session-ID'', Some (str ''ab-1''))], rq_data = None\<rparr>"


text \<open>
  A change is never kept back: once the outstanding event is acknowledged and no photo
  of the session is on screen, the next poll leaves the sender told of the playback as it then is. It
  sends nothing only if that was told before and no photo ended; an event about the playback names its
  state, one about a photo its session, and it is the outstanding event from then on.
\<close>

theorem reverse_current:
  assumes "0 < cn_reverse c" and "\<not> photo_shown r c"
  shows "\<exists>result event c1. airtizen_reverse_poll True now r (reverse_message None c) = (result, event, c1) \<and> 0 \<le> result \<and>
    (cn_state c1, cn_generation c1) = (playback_view (rc_playback r), generation (rc_playback r)) \<and> \<not> cn_photo_seen c1 \<and>
    (event = None \<longleftrightarrow> \<not> cn_photo_seen c \<and> (cn_state c, cn_generation c) = (cn_state c1, cn_generation c1)) \<and>
    cn_waiting c1 = (event \<noteq> None) \<and>
    (case event of None \<Rightarrow> True | Some e \<Rightarrow>
       plist_dict_get_item (Some (ev_info e)) (str ''state'') =
         Some (PString (if cn_photo_seen c then str ''stopped'' else view_name (playback_view (rc_playback r)))) \<and>
       plist_dict_get_item (Some (ev_info e)) (str ''sessionID'') = (if cn_photo_seen c then Some (PUint (ucast (cn_photo_session c))) else None))"
proof -
  have shown: "\<not> photo_shown r (c\<lparr>cn_waiting := False\<rparr>)" using assms(2) by (simp add: photo_shown_def)
  show ?thesis using assms(1) shown
    by (auto simp: airtizen_reverse_poll_def reverse_message_def airtizen_playback_snapshot_def Let_def reverse_event_of_def event_session_id)
      (auto simp: event_info_def plist_dict_get_item_def)
qed

theorem reverse_current_witness:
  "\<exists>result event c1. airtizen_reverse_poll True 7 (receiver_init :: unit receiver) (reverse_message None (conn_zero\<lparr>cn_reverse := 1, cn_state := 3, cn_waiting := True\<rparr>)) =
     (result, Some event, c1) \<and> plist_dict_get_item (Some (ev_info event)) (str ''state'') = Some (PString (str ''stopped''))"
proof -
  let ?c = "conn_zero\<lparr>cn_reverse := 1, cn_state := 3, cn_waiting := True\<rparr>"
  have s: "\<not> photo_shown (receiver_init :: unit receiver) ?c"
    by (simp add: photo_shown_def airtizen_photo_snapshot_def receiver_init_def photo_init_def photo_zero_def)
  have "0 < cn_reverse ?c" by simp
  from reverse_current [OF this s, of 7] show ?thesis
    by (auto simp: conn_zero_def playback_view_def view_name_def receiver_init_def playback_zero_def split: option.splits)
qed

end
