(* ===== verification/Raop_Guard.thy ===== *)
theory Raop_Guard
  imports Airplay Control Challenge
begin

text \<open>
  The validation of RAOP requests before the handlers of the RAOP library see them
  (\<open>native/include/airtizen_raop_guard.h\<close>) and the receiver information those requests ask for
  (\<open>native/include/airtizen_receiver_info.h\<close>). The property list parser is a parameter, as in Airplay;
  the connection is given by which of its streams exist.

  The theory shows what an accepted SETUP request contains, so that the handlers may rely on it, and that
  the information names the identity and the features the discovery service announces.
\<close>

section \<open>Information requests\<close>

definition airtizen_info_path :: "cstring option \<Rightarrow> bool" where
  "airtizen_info_path target =
     (case target of None \<Rightarrow> False | Some u \<Rightarrow> strprefix (str ''/info'') u \<and> (drop 5 u = [] \<or> u ! 5 = 63))"

text \<open>The flags: the AirPlay and the RAOP record are asked for.\<close>

type_synonym info_flags = "bool \<times> bool"

fun qualifier_items :: "plist list \<Rightarrow> info_flags \<Rightarrow> bool \<times> info_flags" where
  "qualifier_items [] flags = (True, flags)"
| "qualifier_items (item # items) (a, b) =
     (case item of
        PString v \<Rightarrow> qualifier_items items (a \<or> v = str ''txtAirPlay'', b \<or> v = str ''txtRAOP'')
      | _ \<Rightarrow> (False, (a, b)))"

text \<open>Whether the body is in order, with the flags set so far.\<close>

definition qualifier_body :: "airplay_env \<Rightarrow> http_request \<Rightarrow> info_flags \<Rightarrow> bool \<times> info_flags" where
  "qualifier_body env rq flags =
     (if rq_length rq = 0 then (True, flags)
      else (case rq_data rq of
              None \<Rightarrow> (False, flags)
            | Some data \<Rightarrow>
                if length data < 40 \<or> length data > 4096 \<or> \<not> is_binary_plist data then (False, flags)
                else (case ap_from_bin env data of
                        Some (PDict kvs) \<Rightarrow>
                          (case plist_dict_get_item (Some (PDict kvs)) (str ''qualifier'') of
                             Some (PArray items) \<Rightarrow> if length items > 16 then (False, flags) else qualifier_items items flags
                           | _ \<Rightarrow> (False, flags))
                      | _ \<Rightarrow> (False, flags))))"

text \<open>\<open>None\<close> is a read behind the end of the URL.\<close>

definition airtizen_info_qualifiers :: "airplay_env \<Rightarrow> http_request \<Rightarrow> (bool \<times> info_flags) option" where
  "airtizen_info_qualifiers env rq =
     (case rq_url rq of
        None \<Rightarrow> Some (qualifier_body env rq (False, False))
      | Some u \<Rightarrow>
          (case rdz u 5 of
             None \<Rightarrow> None
           | Some c \<Rightarrow> Some (qualifier_body env rq
               (if c = 63 then (strstr (str ''txtAirPlay'') (drop 6 u) \<noteq> None, strstr (str ''txtRAOP'') (drop 6 u) \<noteq> None)
                else (False, False)))))"

section \<open>The guard\<close>

definition is_data :: "nat \<Rightarrow> plist option \<Rightarrow> bool" where
  "is_data n node = (case node of Some (PData d) \<Rightarrow> length d = n | _ \<Rightarrow> False)"

definition is_string :: "plist option \<Rightarrow> bool" where
  "is_string node = (case node of Some (PString s) \<Rightarrow> True | _ \<Rightarrow> False)"

definition is_uint :: "plist option \<Rightarrow> bool" where
  "is_uint node = (case node of Some (PUint v) \<Rightarrow> True | _ \<Rightarrow> False)"

text \<open>Which streams the connection has.\<close>

record raop_conn =
  cn_rtp :: bool
  cn_mirror :: bool

text \<open>A SETUP request for a session, and one for a stream of it.\<close>

definition session_valid :: "plist option \<Rightarrow> bool" where
  "session_valid doc \<longleftrightarrow>
     is_data 16 (plist_dict_get_item doc (str ''eiv'')) \<and> is_data 72 (plist_dict_get_item doc (str ''ekey'')) \<and>
     is_string (plist_dict_get_item doc (str ''name'')) \<and> is_string (plist_dict_get_item doc (str ''deviceID'')) \<and>
     is_uint (plist_dict_get_item doc (str ''timingPort''))"

definition stream_valid :: "airplay_env \<Rightarrow> raop_conn \<Rightarrow> plist \<Rightarrow> bool option" where
  "stream_valid env conn stream = do {
     stream_type \<leftarrow> plist_get_uint_val env (plist_dict_get_item (Some stream) (str ''type'')) 0;
     Some (if stream_type = 110 then cn_mirror conn \<and> is_uint (plist_dict_get_item (Some stream) (str ''streamConnectionID''))
           else stream_type = 96 \<and> cn_rtp conn \<and> airtizen_audio_parameters (Some stream) \<noteq> None)
   }"

definition setup_valid :: "airplay_env \<Rightarrow> raop_conn \<Rightarrow> plist option \<Rightarrow> bool option" where
  "setup_valid env conn doc =
     (if plist_dict_get_item doc (str ''eiv'') \<noteq> None \<and> plist_dict_get_item doc (str ''ekey'') \<noteq> None then Some (session_valid doc)
      else (case plist_dict_get_item doc (str ''streams'') of
              Some (PArray [stream]) \<Rightarrow> stream_valid env conn stream
            | _ \<Rightarrow> Some False))"

text \<open>The answers of the guard for POST, for SETUP and TEARDOWN with a body, and for GET; 0 lets the request
  pass.\<close>

definition validate_post :: "http_request \<Rightarrow> cstring \<Rightarrow> nat" where
  "validate_post rq target =
     (let len = rq_length rq in
      if target = str ''/pair-setup'' then (if len = 32 then 0 else 400)
      else if target = str ''/pair-verify'' then
        (case rq_data rq of Some d \<Rightarrow> if len = 68 \<and> (d ! 0 = 0 \<or> d ! 0 = 1) then 0 else 400 | None \<Rightarrow> 400)
      else if target = str ''/fp-setup'' then (if len = 16 \<or> len = 164 then 0 else 400)
      else if target = str ''/feedback'' then 0
      else 404)"

definition validate_setup :: "airplay_env \<Rightarrow> raop_conn \<Rightarrow> http_request \<Rightarrow> bool \<Rightarrow> nat option" where
  "validate_setup env conn rq teardown =
     (case rq_data rq of
        None \<Rightarrow> Some 400
      | Some data \<Rightarrow>
          if rq_length rq < 40 \<or> \<not> is_binary_plist data then Some 400
          else (case ap_from_bin env data of
                  Some (PDict kvs) \<Rightarrow>
                    (case (if teardown then Some True else setup_valid env conn (Some (PDict kvs))) of
                       None \<Rightarrow> None | Some valid \<Rightarrow> Some (if valid then 0 else 400))
                | _ \<Rightarrow> Some 400))"

definition validate_get :: "airplay_env \<Rightarrow> http_request \<Rightarrow> cstring \<Rightarrow> nat option" where
  "validate_get env rq target =
     (if airtizen_info_path (Some target)
      then (case airtizen_info_qualifiers env rq of None \<Rightarrow> None | Some (ok, flags) \<Rightarrow> Some (if ok then 0 else 400))
      else Some 404)"

definition known_verb :: "cstring \<Rightarrow> bool" where
  "known_verb verb \<longleftrightarrow> verb = str ''OPTIONS'' \<or> verb = str ''RECORD'' \<or> verb = str ''FLUSH'' \<or> verb = str ''GET_PARAMETER'' \<or>
     verb = str ''SET_PARAMETER'' \<or> verb = str ''TEARDOWN''"

definition airtizen_validate_request :: "airplay_env \<Rightarrow> raop_conn \<Rightarrow> http_request \<Rightarrow> nat option" where
  "airtizen_validate_request env conn rq =
     (case (rq_method rq, rq_url rq) of
        (Some verb, Some target) \<Rightarrow>
          if rq_length rq > 1024 * 1024 then Some 400
          else if verb = str ''SET_PARAMETER'' \<and> http_request_get_header rq (str ''Content-Type'') = None then Some 400
          else if verb = str ''POST'' then Some (validate_post rq target)
          else if verb = str ''SETUP'' \<or> (verb = str ''TEARDOWN'' \<and> rq_length rq \<noteq> 0) then
            validate_setup env conn rq (verb = str ''TEARDOWN'')
          else if verb = str ''GET'' then validate_get env rq target
          else Some (if known_verb verb then 0 else 501)
      | _ \<Rightarrow> Some 400)"

section \<open>Receiver information\<close>

definition audio_formats :: plist where
  "audio_formats = PArray (map (\<lambda>i. PDict [(str ''type'', PUint i), (str ''audioInputFormats'', PUint 0x1d40000),
     (str ''audioOutputFormats'', PUint 0x1d40000)]) [100, 101])"

definition audio_latencies :: plist where
  "audio_latencies = PArray (map (\<lambda>i. PDict [(str ''type'', PUint i), (str ''audioType'', PString (str ''default'')),
     (str ''inputLatencyMicros'', PUint 0), (str ''outputLatencyMicros'', PUint 0)]) [100, 101])"

text \<open>The refresh rate is the double nearest to 1/60, a parameter of the list.\<close>

definition display_info :: "cdouble \<Rightarrow> mdns_module \<Rightarrow> plist" where
  "display_info refresh s = PDict
     [(str ''uuid'', PString (airtizen_mdns_pairing_id s)),
      (str ''width'', PUint 1920), (str ''height'', PUint 1080), (str ''widthPixels'', PUint 1920), (str ''heightPixels'', PUint 1080),
      (str ''widthPhysical'', PUint 0), (str ''heightPhysical'', PUint 0), (str ''refreshRate'', PReal refresh), (str ''maxFPS'', PUint 30),
      (str ''rotation'', PBool (airtizen_discovery_features s AND push_bit 8 1 \<noteq> 0)), (str ''overscanned'', PBool False)]"

definition full_info :: "cdouble \<Rightarrow> byte list \<Rightarrow> mdns_module \<Rightarrow> plist" where
  "full_info refresh public_key s =
     (case airtizen_mdns_identity 96 32 s of
        (receiver, device_id) \<Rightarrow> PDict
          [(str ''name'', PString receiver), (str ''deviceID'', PString device_id), (str ''macAddress'', PString device_id),
           (str ''model'', PString (airtizen_discovery_model s)), (str ''sourceVersion'', PString AIRTIZEN_SOURCE_VERSION),
           (str ''features'', PUint (airtizen_discovery_features s)), (str ''statusFlags'', PUint 4), (str ''vv'', PUint 2),
           (str ''pi'', PString (airtizen_mdns_pairing_id s)), (str ''pk'', PData public_key),
           (str ''keepAliveLowPower'', PBool False), (str ''keepAliveSendStatsAsBody'', PBool False), (str ''initialVolume'', PReal (Fin 0)),
           (str ''audioFormats'', audio_formats), (str ''audioLatencies'', audio_latencies),
           (str ''displays'', PArray [display_info refresh s])])"

definition airtizen_receiver_info :: "airplay_env \<Rightarrow> cdouble \<Rightarrow> byte list \<Rightarrow> mdns_module \<Rightarrow> http_request \<Rightarrow> plist option" where
  "airtizen_receiver_info env refresh public_key s rq = do {
     (ok, (airplay, raop)) \<leftarrow> airtizen_info_qualifiers env rq;
     if airplay \<or> raop then do {
       a \<leftarrow> airtizen_mdns_txt True (Some 512) s;
       b \<leftarrow> airtizen_mdns_txt False (Some 512) s;
       Some (PDict ((if airplay then [(str ''txtAirPlay'', PData a)] else []) @ (if raop then [(str ''txtRAOP'', PData b)] else [])))
     }
     else Some (full_info refresh public_key s)
   }"

section \<open>The guard answers\<close>

lemma uint_val_defined: "\<not> ap_asserts env \<Longrightarrow> plist_get_uint_val env node old \<noteq> None"
  by (cases node) (auto simp: plist_get_uint_val_def split: plist.splits)

lemma stream_valid_defined: "\<not> ap_asserts env \<Longrightarrow> stream_valid env conn stream \<noteq> None"
  using uint_val_defined [of env "plist_dict_get_item (Some stream) (str ''type'')" 0] by (auto simp: stream_valid_def)

lemma setup_valid_defined: "\<not> ap_asserts env \<Longrightarrow> setup_valid env conn doc \<noteq> None"
  using stream_valid_defined [of env conn] by (auto simp: setup_valid_def split: option.split plist.split list.split)

lemma info_path_qualifiers:
  "rq_url rq = Some u \<Longrightarrow> airtizen_info_path (Some u) \<Longrightarrow> airtizen_info_qualifiers env rq \<noteq> None"
proof -
  assume u: "rq_url rq = Some u" "airtizen_info_path (Some u)"
  then have "take (length (str ''/info'')) u = str ''/info''" by (simp only: airtizen_info_path_def strprefix_def option.case)
  then have "length (take (length (str ''/info'')) u) = length (str ''/info'')" by (simp only:)
  then have "5 \<le> length u" by (simp only: length_take length_str) simp
  then have "\<exists>c. rdz u 5 = Some c" by (auto simp: rdz_def)
  then show ?thesis using u(1) by (auto simp: airtizen_info_qualifiers_def simp del: not_None_eq)
qed


text \<open>The codes.\<close>

definition guard_code :: "nat option \<Rightarrow> bool" where
  "guard_code outcome \<longleftrightarrow> outcome \<in> {Some 0, Some 400, Some 404, Some 501}"

lemma post_code: "guard_code (Some (validate_post rq target))"
  by (simp add: guard_code_def validate_post_def Let_def split: option.split)

lemma setup_code: "\<not> ap_asserts env \<Longrightarrow> guard_code (validate_setup env conn rq teardown)"
  by (auto simp: guard_code_def validate_setup_def setup_valid_defined simp del: not_None_eq split: option.split plist.split)

lemma get_code: "rq_url rq = Some target \<Longrightarrow> guard_code (validate_get env rq target)"
  using info_path_qualifiers [of rq target env] by (auto simp: guard_code_def validate_get_def split: option.split)

lemma guard_total:
  assumes "\<not> ap_asserts env"
  shows "guard_code (airtizen_validate_request env conn rq)"
proof (cases "rq_method rq"; cases "rq_url rq")
  fix verb target assume v: "rq_method rq = Some verb" "rq_url rq = Some target"
  have c: "guard_code (Some 400)" "guard_code (Some (if known_verb verb then 0 else 501))" by (simp_all add: guard_code_def)
  show ?thesis unfolding airtizen_validate_request_def v option.case prod.case
    using post_code [of rq target] setup_code [OF assms, of conn rq "verb = str ''TEARDOWN''"] get_code [OF v(2), of env] c by simp
qed (simp_all add: airtizen_validate_request_def guard_code_def)

lemma setup_accepted:
  assumes "validate_setup env conn rq False = Some 0"
  shows "\<exists>data kvs. rq_data rq = Some data \<and> is_binary_plist data \<and> ap_from_bin env data = Some (PDict kvs) \<and>
    setup_valid env conn (Some (PDict kvs)) = Some True"
  using assms by (auto simp: validate_setup_def split: option.splits plist.splits if_splits)

lemma stream_accepted:
  assumes "stream_valid env conn stream = Some True"
  shows "(\<exists>ct frames r ch. cn_rtp conn \<and> airtizen_audio_parameters (Some stream) = Some (ct, frames, r, ch) \<and> supported ct frames r ch) \<or>
    (cn_mirror conn \<and> is_uint (plist_dict_get_item (Some stream) (str ''streamConnectionID'')))"
  using assms parameters_supported [of "Some stream"] by (auto simp: stream_valid_def bind_eq_Some_conv split: if_splits)

section \<open>The identity in the information\<close>

text \<open>The number a features text stands for: two hexadecimal numbers, the low and the high word.\<close>

definition hex_number :: "cstring \<Rightarrow> int" where
  "hex_number t = foldl (\<lambda>n c. n * 16 + hex_digit c) 0 (drop 2 t)"

definition features_number :: "cstring \<Rightarrow> int" where
  "features_number t =
     hex_number (takeWhile (\<lambda>c. c \<noteq> 44) t) + 2 ^ 32 * hex_number (drop 1 (dropWhile (\<lambda>c. c \<noteq> 44) t))"

lemma features_agree: "features_number (selected_features_txt s) = uint (airtizen_discovery_features s)"
proof -
  have "features_number AIRTIZEN_NATIVE_FEATURES_TXT = uint AIRTIZEN_FEATURES" by code_simp
  moreover have "features_number AIRTIZEN_UXPLAY_TEST_FEATURES_TXT = uint AIRTIZEN_UXPLAY_TEST_FEATURES" by code_simp
  ultimately show ?thesis by (simp add: selected_features_txt_def airtizen_discovery_features_def)
qed

lemma txt_entries:
  "sublist (txt_entry (fit 40 (str ''deviceid='' @ colon_id (g_id s)))) (txt_airplay_data s)"
  "sublist (txt_entry (fit 64 (str ''features='' @ selected_features_txt s))) (txt_airplay_data s)"
  "sublist (txt_entry (fit 64 (str ''model='' @ selected_model s))) (txt_airplay_data s)"
  "sublist (txt_entry (fit 40 (str ''pi=00000000-0000-4000-8000-'' @ take 12 (g_id s)))) (txt_airplay_data s)"
proof -
  let ?d = "txt_entry (fit 40 (str ''deviceid='' @ colon_id (g_id s)))" and ?f = "txt_entry (fit 64 (str ''features='' @ selected_features_txt s))"
    and ?m = "txt_entry (fit 64 (str ''model='' @ selected_model s))" and ?p = "txt_entry (fit 40 (str ''pi=00000000-0000-4000-8000-'' @ take 12 (g_id s)))"
  show "sublist ?d (txt_airplay_data s)" unfolding txt_airplay_data_def sublist_def by (rule exI [of _ "[]"]) (auto)
  show "sublist ?f (txt_airplay_data s)" unfolding txt_airplay_data_def sublist_def by (rule exI [of _ ?d]) (auto)
  show "sublist ?m (txt_airplay_data s)" unfolding txt_airplay_data_def sublist_def
    by (rule exI [of _ "?d @ ?f @ txt_entry (str ''flags=0x4'')"]) (auto)
  show "sublist ?p (txt_airplay_data s)" unfolding txt_airplay_data_def by (simp only: append_assoc [symmetric] sublist_append_leftI)
qed

section \<open>Main results\<close>


definition setup_request :: http_request where
  "setup_request = \<lparr>rq_method = Some (str ''SETUP''), rq_url = Some (str ''rtsp://tv/1''), rq_protocol = str ''RTSP/1.0'', rq_headers = [],
     rq_data = Some (str ''bplist00'' @ replicate 40 0)\<rparr>"

definition setup_env :: airplay_env where
  "setup_env = \<lparr>ap_asserts = False, ap_from_bin = (\<lambda>_. Some (PDict [(str ''streams'', PArray [PDict [(str ''type'', PUint 96)]])])),
     ap_to_xml = (\<lambda>_. []), ap_strtod = (\<lambda>_. None), ap_malloc = True, ap_strdup = (\<lambda>_. True), ap_photo_alloc = True\<rparr>"


text \<open>
  C27: after every history of the discovery service, the receiver information names the
  device, and gives its id, model, pairing id and feature number, exactly as the AirPlay record on the
  network announces them; the text of the features there denotes the same number. A request for the
  records themselves gets the records of the announcement.
\<close>

theorem info_announced:
  fixes ops :: "mdns_op list"
  defines "s \<equiv> fold mdns_step ops mdns_init"
  assumes "rq_data rq = None" and "rq_url rq = Some (str ''/info'' @ query)" and "query = [] \<or> query = str ''?txtAirPlay''"
  shows "if query = []
    then \<exists>kvs device_id uuid model features ft.
      airtizen_receiver_info env refresh public_key s rq = Some (PDict kvs) \<and>
      map_of kvs (str ''name'') = Some (PString (g_name s)) \<and>
      map_of kvs (str ''deviceID'') = Some (PString device_id) \<and> sublist (txt_entry (str ''deviceid='' @ device_id)) (txt_airplay_data s) \<and>
      map_of kvs (str ''pi'') = Some (PString uuid) \<and> sublist (txt_entry (str ''pi='' @ uuid)) (txt_airplay_data s) \<and>
      map_of kvs (str ''model'') = Some (PString model) \<and> sublist (txt_entry (str ''model='' @ model)) (txt_airplay_data s) \<and>
      map_of kvs (str ''features'') = Some (PUint features) \<and> sublist (txt_entry (str ''features='' @ ft)) (txt_airplay_data s) \<and>
      features_number ft = uint features
    else airtizen_receiver_info env refresh public_key s rq = Some (PDict [(str ''txtAirPlay'', PData (txt_airplay_data s))])"
proof -
  have inv: "mdns_inv s" unfolding s_def by (rule mdns.run_inv)
  then have vi: "valid_id (g_id s)" and nm: "length (g_name s) \<le> 48" by (simp_all add: mdns_inv_def)
  then have id12: "take 12 (g_id s) = g_id s" "length (g_id s) = 12" by (simp_all add: valid_id_def)
  have len: "rq_length rq = 0" using assms(2) by (simp add: rq_length_def)
  have records: "airtizen_mdns_txt True (Some 512) s = Some (txt_airplay_data s)" "airtizen_mdns_txt False (Some 512) s = Some (txt_raop_data s)"
    using txt_data_length [OF inv] by (auto simp: airtizen_mdns_txt_def put_def)
  note entry = txt_entries [of s]
  have pi: "str ''pi=00000000-0000-4000-8000-'' = str ''pi='' @ str ''00000000-0000-4000-8000-''" by (simp add: str_def)
  have f1: "fit 40 (str ''deviceid='' @ colon_id (g_id s)) = str ''deviceid='' @ colon_id (g_id s)"
    by (rule fit_id) (simp add: published_id(1) [OF vi])
  have f2: "fit 64 (str ''features='' @ selected_features_txt s) = str ''features='' @ selected_features_txt s"
    by (rule fit_id) (simp add: selected_features_txt_def AIRTIZEN_UXPLAY_TEST_FEATURES_TXT_def AIRTIZEN_NATIVE_FEATURES_TXT_def)
  have f3: "fit 64 (str ''model='' @ selected_model s) = str ''model='' @ selected_model s"
    by (rule fit_id) (simp add: selected_model_def)
  have f4: "fit 40 (str ''pi=00000000-0000-4000-8000-'' @ g_id s) = str ''pi='' @ str ''00000000-0000-4000-8000-'' @ g_id s"
    unfolding pi append_assoc by (rule fit_id) (simp add: id12(2))
  have f5: "fit 37 (str ''00000000-0000-4000-8000-'' @ g_id s) = str ''00000000-0000-4000-8000-'' @ g_id s"
    by (rule fit_id) (simp add: id12(2))
  have f6: "fit 32 (colon_id (g_id s)) = colon_id (g_id s)" by (rule fit_id) (simp add: published_id(1) [OF vi])
  have f7: "fit 96 (g_name s) = g_name s" using nm by (intro fit_id) simp
  note fits = id12(1) f1 f2 f3 f4 f5 f6 f7
  from assms(4) show ?thesis
  proof
    assume q: "query = []"
    have "rdz (str ''/info'') 5 = Some 0" by (simp add: rdz_def)
    then have "airtizen_info_qualifiers env rq = Some (True, (False, False))"
      using q assms(3) len by (simp add: airtizen_info_qualifiers_def qualifier_body_def)
    then have "airtizen_receiver_info env refresh public_key s rq = Some (full_info refresh public_key s)"
      by (simp add: airtizen_receiver_info_def)
    then show ?thesis using entry features_agree [of s] unfolding fits
      by (auto simp: q full_info_def airtizen_mdns_identity_def airtizen_mdns_pairing_id_def airtizen_discovery_model_def fits)
  next
    assume q: "query = str ''?txtAirPlay''"
    have r: "rdz (str ''/info'' @ query) 5 = Some 63" "strstr (str ''txtAirPlay'') (drop 6 (str ''/info'' @ query)) \<noteq> None"
      "strstr (str ''txtRAOP'') (drop 6 (str ''/info'' @ query)) = None" unfolding q by code_simp+
    then have "airtizen_info_qualifiers env rq = Some (True, (True, False))"
      using assms(3) len by (simp add: airtizen_info_qualifiers_def qualifier_body_def)
    then show ?thesis using r(1) by (auto simp: airtizen_receiver_info_def records q)
  qed
qed

theorem info_announced_witness:
  "airtizen_receiver_info setup_env (Fin (1 / 60)) [] mdns_init
     \<lparr>rq_method = Some (str ''GET''), rq_url = Some (str ''/info'' @ str ''?txtAirPlay''), rq_protocol = [], rq_headers = [], rq_data = None\<rparr> =
   Some (PDict [(str ''txtAirPlay'', PData (txt_airplay_data mdns_init))])"
  using info_announced [where ops = "[]" and query = "str ''?txtAirPlay''" and env = setup_env and refresh = "Fin (1 / 60)" and public_key = "[]" and
    rq = "\<lparr>rq_method = Some (str ''GET''), rq_url = Some (str ''/info'' @ str ''?txtAirPlay''), rq_protocol = [], rq_headers = [], rq_data = None\<rparr>"]
  by simp

text \<open>
  In a build with assertions, a SETUP request whose one stream has no integer \<open>type\<close> stops the receiver:
  the accessor of the number asserts its size. A build without them refuses the request.
\<close>

theorem guard_assertions:
  assumes "rq_method rq = Some (str ''SETUP'')" and "rq_url rq = Some target" and "rq_data rq = Some data"
    and "40 \<le> length data" and "length data \<le> 1024 * 1024" and "is_binary_plist data" and "ap_from_bin env data = Some (PDict kvs)"
    and "map_of kvs (str ''eiv'') = None" and "map_of kvs (str ''streams'') = Some (PArray [PDict entries])"
    and "map_of entries (str ''type'') = None"
  shows "airtizen_validate_request env conn rq = (if ap_asserts env then None else Some 400)"
proof -
  have "stream_valid env conn (PDict entries) = (if ap_asserts env then None else Some False)"
    using assms(10) by (simp add: stream_valid_def plist_get_uint_val_def plist_dict_get_item_def)
  then have "setup_valid env conn (Some (PDict kvs)) = (if ap_asserts env then None else Some False)"
    using assms(8,9) by (simp add: setup_valid_def plist_dict_get_item_def)
  moreover have "rq_length rq = length data" using assms(3) by (simp add: rq_length_def)
  ultimately show ?thesis using assms(1-7) by (simp add: airtizen_validate_request_def validate_setup_def)
qed

end
