(* ===== verification/Mirror.thy ===== *)
theory Mirror
  imports Core H264 Audio_Format
begin

text \<open>
  The mirroring receiver (\<open>native/ports/airtizen_mirror_receive.inc\<close>): a thread that accepts the data
  connection of a sender, reads packets of a 128-byte header and a payload, decrypts and converts them and
  hands them to the callbacks of the core. The cipher is the buffer of
  \<open>third_party/AirPlayServerLib/lib/mirror_buffer.c\<close>; the AES keystream is a parameter.

  The theory shows that the thread returns for every sequence of socket events and touches no memory out
  of bounds, that the packets it delivers do not depend on how the stream is split, and that a stream of
  well-formed packets is delivered whole, with times relative to the first frame.
\<close>

section \<open>Reading\<close>

text \<open>What a socket does: the receiver is stopping, \<open>select\<close> is interrupted, times out or fails, \<open>recv\<close>
  has some bytes (none at the end of the stream), is interrupted, or reports an error.\<close>

datatype sock_event = Stopping | Interrupted | Idle | SelectError | Chunk "byte list" | RecvInterrupted | Closed

text \<open>Reading a number of bytes: \<open>None\<close> is the result -1. Bytes that are not asked for stay in the socket,
  and a receiver that is stopping stays so. A socket without a further event is at its end.\<close>

fun airtizen_mirror_read :: "sock_event list \<Rightarrow> nat \<Rightarrow> byte list \<Rightarrow> byte list option \<times> sock_event list" where
  "airtizen_mirror_read es 0 got = (Some got, es)"
| "airtizen_mirror_read [] (Suc n) got = (None, [])"
| "airtizen_mirror_read (e # es) (Suc n) got =
     (case e of
        Stopping \<Rightarrow> (None, e # es)
      | Interrupted \<Rightarrow> airtizen_mirror_read es (Suc n) got
      | Idle \<Rightarrow> airtizen_mirror_read es (Suc n) got
      | SelectError \<Rightarrow> (None, es)
      | Chunk bs \<Rightarrow>
          if bs = [] then (None, es)
          else if length bs > Suc n then (Some (got @ take (Suc n) bs), Chunk (drop (Suc n) bs) # es)
          else airtizen_mirror_read es (Suc n - length bs) (got @ bs)
      | RecvInterrupted \<Rightarrow> airtizen_mirror_read es (Suc n) got
      | Closed \<Rightarrow> (None, es))"

section \<open>Decryption\<close>

text \<open>The keystream buffer: the next block of the counter mode, the block in use and how many of its bytes
  are left. A block is the encryption of sixteen zero bytes in place.\<close>

record mirror_cipher =
  mc_block :: nat
  mc_og :: "byte list"
  mc_count :: nat

definition cipher_refill :: "(nat \<Rightarrow> nat \<Rightarrow> byte) \<Rightarrow> mirror_cipher \<Rightarrow> mirror_cipher" where
  "cipher_refill aes c =
     (if mc_count c = 0 then \<lparr>mc_block = mc_block c + 1, mc_og = map (aes (mc_block c)) [0..<16], mc_count = 16\<rparr> else c)"

fun mirror_buffer_decrypt :: "(nat \<Rightarrow> nat \<Rightarrow> byte) \<Rightarrow> mirror_cipher \<Rightarrow> byte list \<Rightarrow> (byte list \<times> mirror_cipher) option" where
  "mirror_buffer_decrypt aes c [] = Some ([], c)"
| "mirror_buffer_decrypt aes c (b # bs) =
     (let c1 = cipher_refill aes c in
      if mc_count c1 > 16 then None
      else do {
        k \<leftarrow> rd (mc_og c1) (16 - mc_count c1);
        (xs, c2) \<leftarrow> mirror_buffer_decrypt aes (c1\<lparr>mc_count := mc_count c1 - 1\<rparr>) bs;
        Some ((b XOR k) # xs, c2)
      })"

section \<open>Packets\<close>

text \<open>The surroundings: the keystream blocks, which allocations succeed, whether the callback's succeeds and
  the name of the sender.\<close>

record mirror_env =
  me_aes :: "nat \<Rightarrow> nat \<Rightarrow> byte"
  me_malloc :: "nat \<Rightarrow> bool"
  me_alloc :: bool
  me_name :: "cstring option"

text \<open>The cipher and the time of the first frame (none before it).\<close>

record mirror_state =
  ms_cipher :: mirror_cipher
  ms_base :: "u64 option"

definition byteutils_get_int :: "byte list \<Rightarrow> nat \<Rightarrow> u32" where
  "byteutils_get_int b offset = le32 (drop offset b)"

definition byteutils_get_long :: "byte list \<Rightarrow> nat \<Rightarrow> u64" where
  "byteutils_get_long b offset = push_bit 32 (ucast (byteutils_get_int b (offset + 4))) OR ucast (byteutils_get_int b offset)"

text \<open>Microseconds of an NTP time.\<close>

definition mirror_time :: "u64 \<Rightarrow> u64" where
  "mirror_time ntp = drop_bit 32 ntp * 1000000 + drop_bit 32 ((ntp AND 0xffffffff) * 1000000)"

text \<open>Both kinds of packets: the inner \<open>None\<close> ends the thread, the outer is a crash.\<close>

definition video_packet :: "mirror_env \<Rightarrow> byte list \<Rightarrow> byte list \<Rightarrow> mirror_state \<Rightarrow> (core_event list \<times> mirror_state) option option" where
  "video_packet me header payload st =
     (let micros = mirror_time (byteutils_get_long header 8) in
      if \<not> me_malloc me (length payload) then Some None
      else do {
        (decoded, c) \<leftarrow> mirror_buffer_decrypt (me_aes me) (ms_cipher st) payload;
        (rc, frame) \<leftarrow> airtizen_h264_frame (Some decoded);
        if rc < 0 then Some None
        else
          let base0 = (case ms_base st of None \<Rightarrow> micros | Some b \<Rightarrow> b); base = (if micros < base0 then micros else base0)
          in Some (Some ([VideoProcess (me_alloc me) (Some \<lparr>hd_frame_type = 1, hd_data = Some frame, hd_pts = micros - base\<rparr>) (me_name me)],
                     \<lparr>ms_cipher = c, ms_base = Some base\<rparr>))
      })"

definition config_packet :: "mirror_env \<Rightarrow> byte list \<Rightarrow> mirror_state \<Rightarrow> (core_event list \<times> mirror_state) option option" where
  "config_packet me payload st =
     (if \<not> me_malloc me (length payload + 2048) then Some None
      else do {
        (n, decoded) \<leftarrow> airtizen_h264_config (Some payload) (Some (length payload + 2048));
        if n = 0 then Some None
        else Some (Some ([VideoProcess (me_alloc me) (Some \<lparr>hd_frame_type = 0, hd_data = Some (take n decoded), hd_pts = 0\<rparr>) (me_name me)],
                         st\<lparr>ms_base := None\<rparr>))
      })"

definition mirror_packet :: "mirror_env \<Rightarrow> byte list \<Rightarrow> byte list \<Rightarrow> mirror_state \<Rightarrow> (core_event list \<times> mirror_state) option option" where
  "mirror_packet me header payload st =
     (if header ! 4 = 0 then video_packet me header payload st
      else if header ! 4 = 1 then config_packet me payload st
      else Some (Some ([], st)))"

section \<open>The connection and the thread\<close>

text \<open>What ends the packets of a connection: the thread, or only the connection.\<close>

datatype channel_end = ThreadEnds | ChannelClosed

definition event_size :: "sock_event \<Rightarrow> nat" where
  "event_size e = (case e of Chunk bs \<Rightarrow> Suc (length bs) | _ \<Rightarrow> 1)"

definition events_size :: "sock_event list \<Rightarrow> nat" where
  "events_size es = sum_list (map event_size es)"

lemma read_size_le: "airtizen_mirror_read es n got = (r, es') \<Longrightarrow> events_size es' \<le> events_size es"
proof (induction es n got rule: airtizen_mirror_read.induct)
  case (3 e es n got)
  then show ?case by (cases e) (auto simp: events_size_def event_size_def split: if_splits)
qed (auto simp: events_size_def)

lemma read_size: "airtizen_mirror_read es n got = (Some p, es') \<Longrightarrow> 0 < n \<Longrightarrow> events_size es' < events_size es"
proof (induction es n got rule: airtizen_mirror_read.induct)
  case (3 e es n got)
  show ?case
  proof (cases e)
    case (Chunk bs)
    show ?thesis
    proof (cases "bs = [] \<or> length bs > Suc n")
      case True
      then show ?thesis using 3 Chunk by (cases "bs = []") (auto simp: events_size_def event_size_def)
    next
      case False
      then have "airtizen_mirror_read es (Suc n - length bs) (got @ bs) = (Some p, es')" using 3 Chunk by simp
      from read_size_le [OF this] show ?thesis by (simp add: Chunk events_size_def event_size_def)
    qed
  qed (use 3 in \<open>auto simp: events_size_def event_size_def\<close>)
qed auto

lemma read_twice_size:
  "airtizen_mirror_read es n got = (Some p, es1) \<Longrightarrow> 0 < n \<Longrightarrow> airtizen_mirror_read es1 m got' = (r, es2) \<Longrightarrow>
   events_size es2 < events_size es"
  using read_size [of es n got p es1] read_size_le [of es1 m got' r es2] by simp

function client_loop ::
  "mirror_env \<Rightarrow> sock_event list \<Rightarrow> mirror_state \<Rightarrow> (core_event list \<times> channel_end \<times> sock_event list \<times> mirror_state) option" where
  "client_loop me es st =
     (if es \<noteq> [] \<and> hd es = Stopping then Some ([], ThreadEnds, es, st)
      else case airtizen_mirror_read es 128 [] of
        (None, es1) \<Rightarrow> Some ([VideoFlush], ChannelClosed, es1, st\<lparr>ms_base := None\<rparr>)
      | (Some header, es1) \<Rightarrow>
          let sz = byteutils_get_int header 0 in
          if sz > 2 * 1024 * 1024 \<or> (header ! 4 = 1 \<and> sz > 65536) then Some ([], ThreadEnds, es1, st)
          else if sz = 0 then client_loop me es1 st
          else if \<not> me_malloc me (unat sz) then Some ([], ThreadEnds, es1, st)
          else (case airtizen_mirror_read es1 (unat sz) [] of
                  (None, es2) \<Rightarrow> Some ([VideoFlush], ChannelClosed, es2, st\<lparr>ms_base := None\<rparr>)
                | (Some payload, es2) \<Rightarrow>
                    (case mirror_packet me header payload st of
                       None \<Rightarrow> None
                     | Some None \<Rightarrow> Some ([], ThreadEnds, es2, st)
                     | Some (Some (out, st1)) \<Rightarrow>
                         map_option (\<lambda>(more, ending). (out @ more, ending)) (client_loop me es2 st1))))"
  by pat_completeness auto
termination
  by (relation "measure (\<lambda>(me, es, st). events_size es)")
    (auto dest!: sym [of "(Some _, _)"] dest: read_size read_twice_size)

declare client_loop.simps [simp del]

text \<open>What the listening socket does.\<close>

datatype accept_event = ListenStopping | ListenInterrupted | ListenIdle | ListenError | AcceptInterrupted | AcceptError
  | Client "sock_event list"

fun raop_rtp_mirror_thread :: "mirror_env \<Rightarrow> accept_event list \<Rightarrow> mirror_state \<Rightarrow> core_event list option" where
  "raop_rtp_mirror_thread me [] st = Some []"
| "raop_rtp_mirror_thread me (e # es) st =
     (case e of
        ListenStopping \<Rightarrow> Some []
      | ListenInterrupted \<Rightarrow> raop_rtp_mirror_thread me es st
      | ListenIdle \<Rightarrow> raop_rtp_mirror_thread me es st
      | ListenError \<Rightarrow> Some []
      | AcceptInterrupted \<Rightarrow> raop_rtp_mirror_thread me es st
      | AcceptError \<Rightarrow> Some []
      | Client ss \<Rightarrow>
          (case client_loop me ss st of
             None \<Rightarrow> None
           | Some (out, ending, rest, st1) \<Rightarrow>
               if ending = ThreadEnds \<or> (rest \<noteq> [] \<and> hd rest = Stopping) then Some out
               else map_option ((@) out) (raop_rtp_mirror_thread me es st1)))"

text \<open>The cipher at the start and after a number of bytes, and the keystream.\<close>

definition cipher_start :: mirror_cipher where
  "cipher_start = \<lparr>mc_block = 0, mc_og = replicate 16 0, mc_count = 0\<rparr>"

definition keystream :: "(nat \<Rightarrow> nat \<Rightarrow> byte) \<Rightarrow> nat \<Rightarrow> byte" where
  "keystream aes k = aes (k div 16) (k mod 16)"

definition crypt :: "(nat \<Rightarrow> nat \<Rightarrow> byte) \<Rightarrow> nat \<Rightarrow> byte list \<Rightarrow> byte list" where
  "crypt aes k bs = map (\<lambda>i. bs ! i XOR keystream aes (k + i)) [0..<length bs]"

definition cipher_at :: "(nat \<Rightarrow> nat \<Rightarrow> byte) \<Rightarrow> nat \<Rightarrow> mirror_cipher \<Rightarrow> bool" where
  "cipher_at aes k c \<longleftrightarrow> mc_count c < 16 \<and> mc_block c * 16 = k + mc_count c \<and>
     (mc_count c \<noteq> 0 \<longrightarrow> mc_og c = map (aes (mc_block c - 1)) [0..<16])"

definition cipher_inv :: "mirror_cipher \<Rightarrow> bool" where
  "cipher_inv c \<longleftrightarrow> mc_count c \<le> 16 \<and> length (mc_og c) = 16"

lemma length_crypt [simp]: "length (crypt aes k bs) = length bs"
  by (simp add: crypt_def)

lemma crypt_Nil [simp]: "crypt aes k [] = []"
  by (simp add: crypt_def)

lemma crypt_Cons [simp]: "crypt aes k (b # bs) = (b XOR keystream aes k) # crypt aes (Suc k) bs"
  by (auto simp: crypt_def upt_conv_Cons map_Suc_upt [symmetric] simp del: upt_Suc)

lemma crypt_Nil_iff [simp]: "crypt aes k bs = [] \<longleftrightarrow> bs = []"
  by (cases bs) simp_all

lemma crypt_crypt [simp]: "crypt aes k (crypt aes k bs) = bs"
  by (induction bs arbitrary: k) (simp_all add: xor.assoc)

lemma cipher_at_start: "cipher_at aes 0 cipher_start"
  by (simp add: cipher_at_def cipher_start_def)

lemma cipher_start_inv: "cipher_inv cipher_start"
  by (simp add: cipher_inv_def cipher_start_def)

text \<open>A step of the cipher uses the next byte of the keystream.\<close>

lemma cipher_step:
  assumes "cipher_at aes k c"
  defines "c1 \<equiv> cipher_refill aes c"
  shows "mc_count c1 \<le> 16" "rd (mc_og c1) (16 - mc_count c1) = Some (keystream aes k)"
    "cipher_at aes (Suc k) (c1\<lparr>mc_count := mc_count c1 - 1\<rparr>)"
proof -
  show "mc_count c1 \<le> 16" using assms by (simp add: cipher_at_def cipher_refill_def)
  show "rd (mc_og c1) (16 - mc_count c1) = Some (keystream aes k)"
  proof (cases "mc_count c = 0")
    case True
    then have "k = mc_block c * 16" using assms by (simp add: cipher_at_def)
    then show ?thesis using True by (simp add: c1_def cipher_refill_def rd_def keystream_def)
  next
    case False
    then have "0 < mc_block c" "k = (mc_block c - 1) * 16 + (16 - mc_count c)" using assms by (auto simp: cipher_at_def)
    then have "k div 16 = mc_block c - 1" "k mod 16 = 16 - mc_count c" using False by auto
    then show ?thesis using False assms by (simp add: cipher_at_def cipher_refill_def rd_def keystream_def)
  qed
  show "cipher_at aes (Suc k) (c1\<lparr>mc_count := mc_count c1 - 1\<rparr>)"
    using assms by (auto simp: cipher_at_def cipher_refill_def)
qed

lemma decrypt_at:
  "cipher_at aes k c \<Longrightarrow> \<exists>c'. mirror_buffer_decrypt aes c bs = Some (crypt aes k bs, c') \<and> cipher_at aes (k + length bs) c'"
proof (induction bs arbitrary: k c)
  case (Cons b bs)
  from Cons.IH [OF cipher_step(3) [OF Cons.prems]] cipher_step(1,2) [OF Cons.prems] show ?case by (auto simp: Let_def)
qed simp

lemma decrypt_total:
  "cipher_inv c \<Longrightarrow> \<exists>xs c'. mirror_buffer_decrypt aes c bs = Some (xs, c') \<and> length xs = length bs \<and> cipher_inv c'"
proof (induction bs arbitrary: c)
  case (Cons b bs)
  let ?c = "cipher_refill aes c"
  have i: "mc_count ?c \<le> 16" "0 < mc_count ?c" "length (mc_og ?c) = 16"
    using Cons.prems by (auto simp: cipher_inv_def cipher_refill_def)
  then have "cipher_inv (?c\<lparr>mc_count := mc_count ?c - 1\<rparr>)" by (auto simp: cipher_inv_def)
  from Cons.IH [OF this] i show ?case by (auto simp: Let_def rd_def)
qed simp

section \<open>Safety\<close>

lemma read_length: "airtizen_mirror_read es n got = (Some p, es') \<Longrightarrow> length p = length got + n"
proof (induction es n got rule: airtizen_mirror_read.induct)
  case (3 e es n got)
  then show ?case by (cases e) (auto split: if_splits)
qed auto

lemma packet_total:
  assumes "cipher_inv (ms_cipher st)" "length payload < 2 ^ 32"
  shows "\<exists>r. mirror_packet me header payload st = Some r \<and> (\<forall>out st'. r = Some (out, st') \<longrightarrow> cipher_inv (ms_cipher st'))"
proof -
  obtain xs c where d: "mirror_buffer_decrypt (me_aes me) (ms_cipher st) payload = Some (xs, c)" "length xs = length payload" "cipher_inv c"
    using decrypt_total [OF assms(1)] by blast
  obtain rc out where f: "airtizen_h264_frame (Some xs) = Some (rc, out)" using h264_frame_total d(2) assms(2) by metis
  obtain n out' where g: "airtizen_h264_config (Some payload) (Some (length payload + 2048)) = Some (n, out')"
    using h264_config_total by blast
  show ?thesis using assms(1) d f g
    by (auto simp: mirror_packet_def video_packet_def config_packet_def Let_def)
qed

lemma client_total:
  "cipher_inv (ms_cipher st) \<Longrightarrow> \<exists>out ending rest st'. client_loop me es st = Some (out, ending, rest, st') \<and> cipher_inv (ms_cipher st')"
proof (induction me es st rule: client_loop.induct)
  case (1 me es st)
  show ?case
  proof (cases "es \<noteq> [] \<and> hd es = Stopping")
    case True
    then show ?thesis using 1 by (subst client_loop.simps) simp
  next
    case running: False
    obtain h es1 where r1: "airtizen_mirror_read es 128 [] = (h, es1)" by fastforce
    show ?thesis
    proof (cases h)
      case None
      then show ?thesis using 1(3) running r1 by (subst client_loop.simps) simp
    next
      case (Some header)
      define sz where "sz = byteutils_get_int header 0"
      obtain p es2 where r2: "airtizen_mirror_read es1 (unat sz) [] = (p, es2)" by fastforce
      note step = running r1 Some sz_def [symmetric] r2
      consider "sz > 2 * 1024 * 1024 \<or> (header ! 4 = 1 \<and> sz > 65536)" | "sz \<le> 2 * 1024 * 1024" "sz = 0"
        | "sz \<le> 2 * 1024 * 1024" "sz \<noteq> 0" "\<not> me_malloc me (unat sz) \<or> p = None"
        | payload where "sz \<le> 2 * 1024 * 1024" "\<not> (header ! 4 = 1 \<and> sz > 65536)" "sz \<noteq> 0" "me_malloc me (unat sz)" "p = Some payload"
        by fastforce
      then show ?thesis
      proof cases
        case 1
        then show ?thesis using "1.prems" step by (subst client_loop.simps) simp
      next
        case 2
        then have "client_loop me es st = client_loop me es1 st" using step by (subst client_loop.simps) auto
        moreover have "\<exists>out ending rest st'. client_loop me es1 st = Some (out, ending, rest, st') \<and> cipher_inv (ms_cipher st')"
          using "1.IH"(1) [OF running r1 [symmetric], of header] "1.prems" 2 step by simp
        ultimately show ?thesis by simp
      next
        case 3
        then show ?thesis using "1.prems" step by (subst client_loop.simps) (auto simp: Let_def)
      next
        case 4
        have "unat sz < 2 ^ 32" using unsigned_less [of sz] by simp
        then have "length payload < 2 ^ 32" using read_length [OF r2 [unfolded 4(5)]] by simp
        from packet_total [OF "1.prems" this, of me header] obtain r where
          r: "mirror_packet me header payload st = Some r" "\<forall>out st'. r = Some (out, st') \<longrightarrow> cipher_inv (ms_cipher st')" by blast
        show ?thesis
        proof (cases r)
          case None
          then show ?thesis using "1.prems" step 4 r by (subst client_loop.simps) (auto simp: Let_def)
        next
          case Some2: (Some pr)
          obtain out st1 where pr: "pr = (out, st1)" by (cases pr)
          have "\<exists>out ending rest st'. client_loop me es2 st1 = Some (out, ending, rest, st') \<and> cipher_inv (ms_cipher st')"
            using "1.IH"(2) step 4 r Some2 pr by simp
          then show ?thesis using step 4 r Some2 pr by (subst client_loop.simps) (auto simp: Let_def)
        qed
      qed
    qed
  qed
qed

lemma thread_total: "cipher_inv (ms_cipher st) \<Longrightarrow> \<exists>out. raop_rtp_mirror_thread me es st = Some out"
proof (induction me es st rule: raop_rtp_mirror_thread.induct)
  case (2 me e es st)
  show ?case
  proof (cases e)
    case (Client ss)
    obtain out ending rest st1 where c: "client_loop me ss st = Some (out, ending, rest, st1)" "cipher_inv (ms_cipher st1)"
      using client_total [OF 2(5)] by blast
    with 2 Client show ?thesis by auto
  qed (use 2 in simp_all)
qed simp

section \<open>Streams\<close>

text \<open>A well-formed packet: a header and the units of a frame, or a header and the parameter sets of a
  configuration. The header states the size, the kind and the time; its other bytes are arbitrary.\<close>

datatype mirror_item =
    FrameItem "byte list" "byte list list"
  | ConfigItem "byte list" "byte \<times> byte \<times> byte" "byte list list" "byte list list"

fun item_payload :: "mirror_item \<Rightarrow> byte list" where
  "item_payload (FrameItem h nals) = avcc nals"
| "item_payload (ConfigItem h (p1, p2, p3) sps pps) = avc_record p1 p2 p3 sps pps []"

fun item_ok :: "mirror_item \<Rightarrow> bool" where
  "item_ok (FrameItem h nals) \<longleftrightarrow> length h = 128 \<and> h ! 4 = 0 \<and> nals \<noteq> [] \<and> [] \<notin> set nals \<and>
     length (avcc nals) \<le> 2097152 \<and> byteutils_get_int h 0 = of_nat (length (avcc nals))"
| "item_ok (ConfigItem h p sps pps) \<longleftrightarrow> length h = 128 \<and> h ! 4 = 1 \<and>
     list_all (nal_of_type 7) sps \<and> list_all (nal_of_type 8) pps \<and> sps \<noteq> [] \<and> length sps < 32 \<and> pps \<noteq> [] \<and> length pps < 256 \<and>
     length (item_payload (ConfigItem h p sps pps)) \<le> 65536 \<and>
     byteutils_get_int h 0 = of_nat (length (item_payload (ConfigItem h p sps pps)))"

text \<open>The stream a sender writes, from a position of its keystream: frames are encrypted, configurations
  are not and do not use the keystream.\<close>

fun sent :: "(nat \<Rightarrow> nat \<Rightarrow> byte) \<Rightarrow> nat \<Rightarrow> mirror_item list \<Rightarrow> byte list" where
  "sent aes k [] = []"
| "sent aes k (FrameItem h nals # xs) = h @ crypt aes k (avcc nals) @ sent aes (k + length (avcc nals)) xs"
| "sent aes k (ConfigItem h p sps pps # xs) = h @ item_payload (ConfigItem h p sps pps) @ sent aes k xs"

text \<open>What reaches the core: Annex-B data, the times of frames counted from the first frame since the last
  configuration, or from a frame whose time is before that.\<close>

fun delivered :: "mirror_env \<Rightarrow> u64 option \<Rightarrow> mirror_item list \<Rightarrow> core_event list" where
  "delivered me base [] = []"
| "delivered me base (FrameItem h nals # xs) =
     (let micros = mirror_time (byteutils_get_long h 8); b = (case base of None \<Rightarrow> micros | Some b \<Rightarrow> min micros b)
      in VideoProcess (me_alloc me) (Some \<lparr>hd_frame_type = 1, hd_data = Some (annexb nals), hd_pts = micros - b\<rparr>) (me_name me)
         # delivered me (Some b) xs)"
| "delivered me base (ConfigItem h p sps pps # xs) =
     VideoProcess (me_alloc me) (Some \<lparr>hd_frame_type = 0, hd_data = Some (annexb (sps @ pps)), hd_pts = 0\<rparr>) (me_name me)
     # delivered me None xs"

text \<open>Socket events that lose nothing, and the bytes they bring.\<close>

fun quiet :: "sock_event \<Rightarrow> bool" where
  "quiet (Chunk bs) \<longleftrightarrow> bs \<noteq> []"
| "quiet e \<longleftrightarrow> e = Interrupted \<or> e = Idle \<or> e = RecvInterrupted"

fun event_bytes :: "sock_event \<Rightarrow> byte list" where
  "event_bytes (Chunk bs) = bs"
| "event_bytes e = []"

definition stream_of :: "sock_event list \<Rightarrow> byte list" where
  "stream_of es = concat (map event_bytes es)"

lemma stream_of_simps [simp]: "stream_of [] = []" "stream_of (e # es) = event_bytes e @ stream_of es"
  by (simp_all add: stream_of_def)

lemma read_quiet:
  "list_all quiet es \<Longrightarrow> n \<le> length (stream_of es) \<Longrightarrow>
   \<exists>es'. airtizen_mirror_read (es @ ts) n got = (Some (got @ take n (stream_of es)), es' @ ts) \<and>
     list_all quiet es' \<and> stream_of es' = drop n (stream_of es)"
proof (induction es arbitrary: n got)
  case (Cons e es)
  show ?case
  proof (cases n)
    case 0
    then show ?thesis using Cons.prems by (intro exI [of _ "e # es"]) simp
  next
    case (Suc m)
    show ?thesis
    proof (cases e)
      case (Chunk bs)
      show ?thesis
      proof (cases "length bs > n")
        case True
        then show ?thesis using Cons.prems Suc Chunk by (intro exI [of _ "Chunk (drop n bs) # es"]) auto
      next
        case False
        then show ?thesis using Cons.prems Suc Chunk Cons.IH [of "n - length bs" "got @ bs"] by auto
      qed
    qed (use Cons Suc in auto)
  qed
qed simp

lemma read_end: "list_all quiet es \<Longrightarrow> length (stream_of es) < n \<Longrightarrow> airtizen_mirror_read (es @ [Closed]) n got = (None, [])"
proof (induction es arbitrary: n got)
  case Nil
  then show ?case by (cases n) auto
next
  case (Cons e es)
  then show ?case by (cases n; cases e) auto
qed

text \<open>Every configuration fits the buffer of its size and 2,048 bytes.\<close>

lemma config_fits:
  assumes "length sps < 32" "length pps < 256"
  shows "length (annexb (sps @ pps)) \<le> length (avc_record p1 p2 p3 sps pps []) + 2048"
proof -
  have "length (annexb ns) = length (lens16 ns) + 2 * length ns" for ns by (induction ns) (simp_all add: lens16_def)
  moreover have "length (lens16 (sps @ pps)) = length (lens16 sps) + length (lens16 pps)" by (simp add: lens16_def)
  ultimately show ?thesis using assms by (simp add: avc_record_def del: annexb_simps)
qed

lemma client_packet:
  assumes "list_all quiet es" "stream_of es = h @ payload @ rest" "length h = 128" "byteutils_get_int h 0 = of_nat (length payload)"
    "payload \<noteq> []" "length payload \<le> 2097152" "h ! 4 = 1 \<longrightarrow> length payload \<le> 65536" "me_malloc me (length payload)"
    "mirror_packet me h payload st = Some (Some (out, st1))"
  shows "\<exists>es'. client_loop me (es @ [Closed]) st =
      map_option (\<lambda>(more, ending). (out @ more, ending)) (client_loop me (es' @ [Closed]) st1) \<and>
      list_all quiet es' \<and> stream_of es' = rest"
proof -
  let ?sz = "of_nat (length payload) :: u32"
  have u: "unat ?sz = length payload" using assms(6) by (intro unat_of_nat_u32) simp
  have small: "\<not> ?sz > 2 * 1024 * 1024" "h ! 4 = 1 \<longrightarrow> \<not> ?sz > 65536" "?sz \<noteq> 0"
    using assms(5-7) u by (auto simp: word_less_nat_alt unat_eq_0 [symmetric] simp del: unat_eq_0 unsigned_of_nat)
  obtain es1 where r1: "airtizen_mirror_read (es @ [Closed]) 128 [] = (Some h, es1 @ [Closed])" "list_all quiet es1" "stream_of es1 = payload @ rest"
    using read_quiet [OF assms(1), of 128 "[Closed]" "[]"] assms(2,3) by auto
  obtain es2 where r2: "airtizen_mirror_read (es1 @ [Closed]) (length payload) [] = (Some payload, es2 @ [Closed])" "list_all quiet es2" "stream_of es2 = rest"
    using read_quiet [OF r1(2), of "length payload" "[Closed]" "[]"] r1(3) by auto
  have run: "\<not> (es @ [Closed] \<noteq> [] \<and> hd (es @ [Closed]) = Stopping)"
    using assms(1) by (cases es) auto
  show ?thesis using run r1(1) r2 assms(4,8,9) small u
    by (intro exI [of _ es2]) (subst client_loop.simps, auto simp: Let_def)
qed

lemma client_end:
  assumes "list_all quiet es" "stream_of es = []"
  shows "client_loop me (es @ [Closed]) st = Some ([VideoFlush], ChannelClosed, [], st\<lparr>ms_base := None\<rparr>)"
proof -
  have "\<not> (es @ [Closed] \<noteq> [] \<and> hd (es @ [Closed]) = Stopping)" using assms(1) by (cases es) auto
  then show ?thesis using read_end [OF assms(1), of 128 "[]"] assms(2) by (subst client_loop.simps) auto
qed

lemma client_stream:
  assumes "\<forall>n. me_malloc me n"
  shows "list_all item_ok xs \<Longrightarrow> list_all quiet es \<Longrightarrow> stream_of es = sent (me_aes me) k xs \<Longrightarrow> cipher_at (me_aes me) k (ms_cipher st) \<Longrightarrow>
    \<exists>st'. client_loop me (es @ [Closed]) st = Some (delivered me (ms_base st) xs @ [VideoFlush], ChannelClosed, [], st')"
proof (induction xs arbitrary: es k st)
  case Nil
  then show ?case using client_end by simp
next
  case (Cons x xs)
  show ?case
  proof (cases x)
    case (FrameItem h nals)
    let ?p = "crypt (me_aes me) k (avcc nals)" and ?m = "mirror_time (byteutils_get_long h 8)"
    let ?b = "case ms_base st of None \<Rightarrow> ?m | Some b \<Rightarrow> min ?m b"
    let ?out = "[VideoProcess (me_alloc me) (Some \<lparr>hd_frame_type = 1, hd_data = Some (annexb nals), hd_pts = ?m - ?b\<rparr>) (me_name me)]"
    have ok: "length h = 128" "h ! 4 = 0" "nals \<noteq> []" "[] \<notin> set nals" "length (avcc nals) \<le> 2097152"
      "byteutils_get_int h 0 = of_nat (length ?p)" using Cons.prems(1) FrameItem by auto
    obtain c where c: "mirror_buffer_decrypt (me_aes me) (ms_cipher st) ?p = Some (avcc nals, c)"
      "cipher_at (me_aes me) (k + length (avcc nals)) c"
      using decrypt_at [OF Cons.prems(4), of ?p] by auto
    let ?st = "\<lparr>ms_cipher = c, ms_base = Some ?b\<rparr>"
    have b: "(if ?m < (case ms_base st of None \<Rightarrow> ?m | Some b \<Rightarrow> b) then ?m else (case ms_base st of None \<Rightarrow> ?m | Some b \<Rightarrow> b)) = ?b"
      by (auto simp: min_def split: option.split)
    have "mirror_packet me h ?p st = Some (Some (?out, ?st))"
      using h264_frame_avcc [OF ok(3,4)] ok(5) assms c(1) b ok(2) by (simp add: mirror_packet_def video_packet_def Let_def)
    moreover have "?p \<noteq> []" using ok(3) by (cases nals) (simp_all add: enc32_def)
    ultimately obtain es' where s: "client_loop me (es @ [Closed]) st =
        map_option (\<lambda>(more, ending). (?out @ more, ending)) (client_loop me (es' @ [Closed]) ?st)"
        "list_all quiet es'" "stream_of es' = sent (me_aes me) (k + length (avcc nals)) xs"
      using client_packet [OF Cons.prems(2) _ ok(1,6), of "sent (me_aes me) (k + length (avcc nals)) xs" me st ?out ?st]
        Cons.prems(3) ok(2,5) assms by (simp add: FrameItem) blast
    from Cons.IH [OF _ s(2,3), of ?st] c(2) Cons.prems(1) show ?thesis by (auto simp: s(1) FrameItem Let_def)
  next
    case (ConfigItem h p sps pps)
    let ?p = "item_payload (ConfigItem h p sps pps)"
    let ?out = "[VideoProcess (me_alloc me) (Some \<lparr>hd_frame_type = 0, hd_data = Some (annexb (sps @ pps)), hd_pts = 0\<rparr>) (me_name me)]"
    let ?st = "st\<lparr>ms_base := None\<rparr>"
    obtain p1 p2 p3 where p: "p = (p1, p2, p3)" by (cases p)
    have ok: "length h = 128" "h ! 4 = 1" "list_all (nal_of_type 7) sps" "list_all (nal_of_type 8) pps" "sps \<noteq> []" "length sps < 32"
      "pps \<noteq> []" "length pps < 256" "length ?p \<le> 65536" "byteutils_get_int h 0 = of_nat (length ?p)"
      using Cons.prems(1) ConfigItem by auto
    have "annexb (sps @ pps) \<noteq> []" using ok(5) by (cases sps) auto
    then have "mirror_packet me h ?p st = Some (Some (?out, ?st))"
      using config_exact [OF ok(3-8) config_fits [OF ok(6,8)], of p1 p2 p3] assms ok(2)
      by (simp add: mirror_packet_def config_packet_def p)
    moreover have "?p \<noteq> []" by (simp add: p avc_record_def)
    ultimately obtain es' where s: "client_loop me (es @ [Closed]) st =
        map_option (\<lambda>(more, ending). (?out @ more, ending)) (client_loop me (es' @ [Closed]) ?st)"
        "list_all quiet es'" "stream_of es' = sent (me_aes me) k xs"
      using client_packet [OF Cons.prems(2) _ ok(1,10), of "sent (me_aes me) k xs" me st ?out ?st]
        Cons.prems(3) ok(2,9) assms by (simp add: ConfigItem) blast
    from Cons.IH [OF _ s(2,3), of ?st] Cons.prems(1,4) show ?thesis by (auto simp: s(1) ConfigItem Let_def)
  qed
qed

section \<open>Properties\<close>


definition sample_mirror :: mirror_env where
  "sample_mirror = \<lparr>me_aes = (\<lambda>n i. of_nat (16 * n + i)), me_malloc = (\<lambda>_. True), me_alloc = True, me_name = None\<rparr>"


text \<open>C28: a stream of well-formed packets whose frames are encrypted with one running
  keystream reaches the core whole and in order, however the network splits it: every frame and every
  configuration in Annex-B form, the times counted from the first frame after a configuration or from a
  later one that is before it; the end of the connection is one flush.\<close>

theorem mirror_stream:
  assumes "list_all item_ok xs" "list_all quiet es" "stream_of es = sent (me_aes me) 0 xs" "\<forall>n. me_malloc me n"
  shows "raop_rtp_mirror_thread me [Client (es @ [Closed])] \<lparr>ms_cipher = cipher_start, ms_base = None\<rparr> =
    Some (delivered me None xs @ [VideoFlush])"
proof -
  have "cipher_at (me_aes me) 0 (ms_cipher \<lparr>ms_cipher = cipher_start, ms_base = None\<rparr>)" using cipher_at_start by simp
  from client_stream [OF assms(4,1,2,3) this] show ?thesis by auto
qed

definition sample_items :: "mirror_item list" where
  "sample_items = [FrameItem (6 # replicate 127 0) [[65, 9]], FrameItem ([6, 0, 0, 0, 0, 0, 0, 0, 0, 0, 0, 0, 1] @ replicate 115 0) [[65, 7]]]"

definition sample_stream :: "byte list" where
  "sample_stream = sent (me_aes sample_mirror) 0 sample_items"

theorem mirror_stream_witness:
  "raop_rtp_mirror_thread sample_mirror [Client ([Idle, Chunk (take 3 sample_stream), Interrupted, Chunk (drop 3 sample_stream)] @ [Closed])]
     \<lparr>ms_cipher = cipher_start, ms_base = None\<rparr> =
   Some [VideoProcess True (Some \<lparr>hd_frame_type = 1, hd_data = Some [0, 0, 0, 1, 65, 9], hd_pts = 0\<rparr>) None,
         VideoProcess True (Some \<lparr>hd_frame_type = 1, hd_data = Some [0, 0, 0, 1, 65, 7], hd_pts = 1000000\<rparr>) None, VideoFlush]"
proof -
  have l: "length sample_stream = 268"
    by (simp add: sample_stream_def sample_items_def enc32_def)
  have "list_all item_ok sample_items"
    by (simp add: sample_items_def byteutils_get_int_def le32_def enc32_def nth_Cons')
  moreover have "list_all quiet [Idle, Chunk (take 3 sample_stream), Interrupted, Chunk (drop 3 sample_stream)]"
    using l by auto
  moreover have "stream_of [Idle, Chunk (take 3 sample_stream), Interrupted, Chunk (drop 3 sample_stream)] = sample_stream"
    by simp
  moreover have "delivered sample_mirror None sample_items =
    [VideoProcess True (Some \<lparr>hd_frame_type = 1, hd_data = Some [0, 0, 0, 1, 65, 9], hd_pts = 0\<rparr>) None,
     VideoProcess True (Some \<lparr>hd_frame_type = 1, hd_data = Some [0, 0, 0, 1, 65, 7], hd_pts = 1000000\<rparr>) None]"
    by (simp add: sample_items_def sample_mirror_def byteutils_get_long_def byteutils_get_int_def le32_def mirror_time_def Let_def nth_Cons')
  ultimately show ?thesis
    using mirror_stream [of sample_items "[Idle, Chunk (take 3 sample_stream), Interrupted, Chunk (drop 3 sample_stream)]" sample_mirror]
    by (simp add: sample_stream_def sample_mirror_def)
qed

end
