(* ===== verification/Video_Host.thy ===== *)
theory Video_Host
  imports Airtizen_Prelude "HOL-Library.Multiset"
begin

text \<open>
  The hardware decoder of the NaCl module (\<open>native/nacl/video_host.h\<close>): the receiver's threads hand over
  configurations and frames under a mutex, the main thread gives them to the Pepper decoder and paints its
  pictures. The Pepper interface is the part of the state whose fields begin with \<open>pp\<close>: which callbacks
  are outstanding, which pictures the plugin holds, what the decoder was given, and whether the plugin ever
  broke a rule of the interface. The outcomes of its calls are parameters. The times are exact numbers.

  The theory shows that in every reachable state the queue is within its bounds, the plugin obeys the
  interface, gives every picture back and is woken while there is work; that the decoder gets the
  configuration and the frames in order; and the one interleaving in which it does not.
\<close>

section \<open>State\<close>

record video_picture =
  pic_decode :: u32
  pic_texture :: u32
  pic_target :: u32
  pic_size :: "int \<times> int"
  pic_point :: "int \<times> int"
  pic_visible :: "int \<times> int"

record video_packet =
  pk_bytes :: "byte list"
  pk_received :: rat

record video_message =
  vm_state :: cstring
  vm_code :: int
  vm_frames :: u32
  vm_dropped :: u32
  vm_queued :: nat
  vm_last :: rat
  vm_average :: rat

text \<open>The members of \<open>VideoHost\<close> that the mutex protects, with the number of pumps posted to the main thread.\<close>

record video_locked =
  vl_enabled :: bool
  vl_closing :: bool
  vl_posted :: bool
  vl_configure :: bool
  vl_reset :: bool
  vl_failed :: bool
  vl_queued_bytes :: u32
  vl_queue :: "video_packet list"
  vl_config :: "byte list"
  pp_pumps :: nat

text \<open>The members of the main thread, and the Pepper side. \<open>vh_gl\<close> tells whether the interface pointer is
  set, \<open>vh_buffer\<close> whether there is a vertex buffer; the pictures are not read before they are set.\<close>

record video_host =
  vh_locked :: video_locked
  vh_ready :: bool
  vh_decoding :: bool
  vh_painting :: bool
  vh_pending :: bool
  vh_gl :: bool
  vh_program :: u32
  vh_target :: u32
  vh_buffer :: bool
  vh_next_id :: u32
  vh_frames :: u32
  vh_dropped :: u32
  vh_received :: "rat list"
  vh_last_ms :: rat
  vh_sum_ms :: rat
  vh_current :: video_picture
  vh_next :: video_picture
  pp_init :: bool
  pp_get :: bool
  pp_decode :: bool
  pp_swap :: bool
  pp_decoder :: bool
  pp_pictures :: "video_picture list"
  pp_decoded :: "byte list list"
  pp_messages :: "video_message list"
  pp_misuse :: bool

definition no_picture :: video_picture where
  "no_picture = \<lparr>pic_decode = 0, pic_texture = 0, pic_target = 0, pic_size = (0, 0), pic_point = (0, 0), pic_visible = (0, 0)\<rparr>"

definition locked_init :: video_locked where
  "locked_init = \<lparr>vl_enabled = False, vl_closing = False, vl_posted = False, vl_configure = False, vl_reset = False,
     vl_failed = False, vl_queued_bytes = 0, vl_queue = [], vl_config = [], pp_pumps = 0\<rparr>"

definition video_host_init :: video_host where
  "video_host_init = \<lparr>vh_locked = locked_init, vh_ready = False, vh_decoding = False, vh_painting = False, vh_pending = False,
     vh_gl = False, vh_program = 0, vh_target = 0, vh_buffer = False, vh_next_id = 0, vh_frames = 0, vh_dropped = 0,
     vh_received = replicate 128 0, vh_last_ms = 0, vh_sum_ms = 0, vh_current = no_picture, vh_next = no_picture,
     pp_init = False, pp_get = False, pp_decode = False, pp_swap = False, pp_decoder = False, pp_pictures = [],
     pp_decoded = [], pp_messages = [], pp_misuse = False\<rparr>"

definition locked :: "(video_locked \<Rightarrow> video_locked) \<Rightarrow> video_host \<Rightarrow> video_host" where
  "locked f s = s\<lparr>vh_locked := f (vh_locked s)\<rparr>"

text \<open>The outcomes of one step: the clock, the OpenGL interface, the graphics and the decoder, the program
  and whether it links, and an OpenGL error.\<close>

record pepper =
  pe_ticks :: rat
  pe_gl :: bool
  pe_graphics :: bool
  pe_decoder :: bool
  pe_program :: u32
  pe_linked :: bool
  pe_gl_error :: bool

definition PP_OK :: int where "PP_OK = 0"
definition PP_ERROR_FAILED :: int where "PP_ERROR_FAILED = -2"
definition PP_ERROR_ABORTED :: int where "PP_ERROR_ABORTED = -3"
definition PP_ERROR_BADARGUMENT :: int where "PP_ERROR_BADARGUMENT = -4"
definition PP_ERROR_NOINTERFACE :: int where "PP_ERROR_NOINTERFACE = -6"
definition PP_ERROR_NOMEMORY :: int where "PP_ERROR_NOMEMORY = -8"

section \<open>The receiver's side\<close>

definition PostLocked :: "video_locked \<Rightarrow> video_locked" where
  "PostLocked s = (if vl_posted s then s else s\<lparr>vl_posted := True, pp_pumps := pp_pumps s + 1\<rparr>)"

definition Enable :: "bool \<Rightarrow> video_locked \<Rightarrow> video_locked" where
  "Enable on s = PostLocked (s\<lparr>vl_enabled := on, vl_reset := True, vl_configure := False, vl_failed := False,
     vl_queue := [], vl_queued_bytes := 0, vl_config := []\<rparr>)"

text \<open>The allocations of a copy and of a queue entry may fail; the second leaves the count of bytes stepped.\<close>

definition Configure :: "bool \<Rightarrow> byte list option \<Rightarrow> video_locked \<Rightarrow> video_locked" where
  "Configure alloc data s =
     (case data of
        None \<Rightarrow> s
      | Some d \<Rightarrow>
          if d = [] \<or> length d > 65536 then s
          else if vl_enabled s \<and> \<not> vl_closing s then
            (if alloc then PostLocked (s\<lparr>vl_config := d, vl_queue := [], vl_queued_bytes := 0, vl_configure := True,
               vl_reset := False, vl_failed := False\<rparr>)
             else PostLocked (s\<lparr>vl_failed := True\<rparr>))
          else s)"

definition Frame :: "bool \<Rightarrow> bool \<Rightarrow> rat \<Rightarrow> byte list option \<Rightarrow> video_locked \<Rightarrow> video_locked" where
  "Frame alloc push ticks data s =
     (case data of
        None \<Rightarrow> s
      | Some d \<Rightarrow>
          if d = [] \<or> length d > 2 * 1024 * 1024 then s
          else if vl_enabled s \<and> \<not> vl_closing s \<and> \<not> vl_failed s \<and> \<not> vl_reset s then
            (if length (vl_queue s) \<ge> 12 \<or> vl_queued_bytes s + of_nat (length d) > 8 * 1024 * 1024
             then PostLocked (s\<lparr>vl_failed := True\<rparr>)
             else if \<not> alloc then PostLocked (s\<lparr>vl_failed := True\<rparr>)
             else if \<not> push then PostLocked (s\<lparr>vl_queued_bytes := vl_queued_bytes s + of_nat (length d), vl_failed := True\<rparr>)
             else PostLocked (s\<lparr>vl_queued_bytes := vl_queued_bytes s + of_nat (length d),
               vl_queue := vl_queue s @ [\<lparr>pk_bytes = d, pk_received = ticks\<rparr>]\<rparr>))
          else s)"

definition ResetVideo :: "video_locked \<Rightarrow> video_locked" where
  "ResetVideo s = PostLocked (s\<lparr>vl_reset := True, vl_configure := False, vl_queue := [], vl_queued_bytes := 0, vl_config := []\<rparr>)"

text \<open>What the receiver's threads do, each under the mutex.\<close>

datatype worker_op = WConfigure bool "byte list option" | WFrame bool bool rat "byte list option" | WReset

definition work :: "worker_op \<Rightarrow> video_locked \<Rightarrow> video_locked" where
  "work w = (case w of WConfigure alloc d \<Rightarrow> Configure alloc d | WFrame alloc push ticks d \<Rightarrow> Frame alloc push ticks d | WReset \<Rightarrow> ResetVideo)"

section \<open>The main thread\<close>

definition Message :: "cstring \<Rightarrow> int \<Rightarrow> video_host \<Rightarrow> video_host" where
  "Message st code s = s\<lparr>pp_messages := pp_messages s @
     [\<lparr>vm_state = st, vm_code = code, vm_frames = vh_frames s, vm_dropped = vh_dropped s, vm_queued = length (vl_queue (vh_locked s)),
       vm_last = vh_last_ms s, vm_average = (if vh_frames s \<noteq> 0 then vh_sum_ms s / of_nat (unat (vh_frames s)) else 0)\<rparr>]\<rparr>"

definition Error :: "int \<Rightarrow> video_host \<Rightarrow> video_host" where
  "Error code s = Message (str ''error'') code
     ((locked (\<lambda>l. l\<lparr>vl_failed := True, vl_queue := [], vl_queued_bytes := 0\<rparr>) s)\<lparr>vh_ready := False\<rparr>)"

text \<open>Cancelling the callbacks and dropping the decoder also gives up its pictures.\<close>

definition CloseDecoder :: "video_host \<Rightarrow> video_host" where
  "CloseDecoder s = s\<lparr>pp_init := False, pp_get := False, pp_decode := False, pp_swap := False, pp_decoder := False,
     pp_pictures := [], pp_decoded := [], vh_ready := False, vh_decoding := False, vh_painting := False, vh_pending := False,
     vh_program := 0, vh_target := 0, vh_buffer := False\<rparr>"

text \<open>The calls of the Pepper interface, with its rules: one \<open>Decode\<close>, one \<open>GetPicture\<close> and one
  \<open>SwapBuffers\<close> at a time, the first two on an initialised decoder, and only held pictures go back.\<close>

definition decode_call :: "byte list \<Rightarrow> video_host \<Rightarrow> video_host" where
  "decode_call d s = s\<lparr>pp_misuse := pp_misuse s \<or> pp_decode s \<or> \<not> pp_decoder s, pp_decode := True, pp_decoded := pp_decoded s @ [d]\<rparr>"

definition get_picture :: "video_host \<Rightarrow> video_host" where
  "get_picture s = s\<lparr>pp_misuse := pp_misuse s \<or> pp_get s \<or> \<not> pp_decoder s, pp_get := True\<rparr>"

definition swap_buffers :: "video_host \<Rightarrow> video_host" where
  "swap_buffers s = s\<lparr>pp_misuse := pp_misuse s \<or> pp_swap s, pp_swap := True\<rparr>"

definition recycle :: "video_picture \<Rightarrow> video_host \<Rightarrow> video_host" where
  "recycle p s = s\<lparr>pp_misuse := pp_misuse s \<or> p \<notin> set (pp_pictures s), pp_pictures := remove1 p (pp_pictures s)\<rparr>"

text \<open>A configuration: graphics and a new decoder.\<close>

definition start_decoder :: "pepper \<Rightarrow> video_host \<Rightarrow> video_host" where
  "start_decoder env s =
     (let s1 = (CloseDecoder s)\<lparr>vh_frames := 0, vh_dropped := 0, vh_sum_ms := 0, vh_last_ms := 0, vh_gl := pe_gl env\<rparr> in
      if \<not> pe_gl env then Error PP_ERROR_NOINTERFACE s1
      else if \<not> pe_graphics env then Error PP_ERROR_FAILED s1
      else if \<not> pe_decoder env then Error PP_ERROR_NOINTERFACE (s1\<lparr>vh_buffer := True\<rparr>)
      else Message (str ''initializing'') 0 (s1\<lparr>vh_buffer := True, pp_init := True\<rparr>))"

text \<open>The next packet goes to the decoder, the configuration first.\<close>

definition submit :: "byte list \<Rightarrow> rat \<Rightarrow> video_host \<Rightarrow> video_host" where
  "submit d received s =
     (let i = vh_next_id s + 1 in
      decode_call d (s\<lparr>vh_decoding := True, vh_next_id := i, vh_received := (vh_received s)[unat (i mod 128) := received]\<rparr>))"

definition take_packet :: "pepper \<Rightarrow> video_host \<Rightarrow> video_host" where
  "take_packet env s =
     (let l = vh_locked s in
      if vl_config l \<noteq> [] then submit (vl_config l) (pe_ticks env) (s\<lparr>vh_locked := l\<lparr>vl_config := []\<rparr>\<rparr>)
      else (case vl_queue l of
              [] \<Rightarrow> s
            | p # ps \<Rightarrow>
                let s1 = s\<lparr>vh_locked := l\<lparr>vl_queued_bytes := vl_queued_bytes l - of_nat (length (pk_bytes p)), vl_queue := ps\<rparr>\<rparr> in
                if pk_bytes p = [] then s1 else submit (pk_bytes p) (pk_received p) s1))"

text \<open>The pump reads the flags under the mutex; \<open>ws\<close> is what the receiver's threads do before it takes the
  mutex again.\<close>

definition Pump :: "pepper \<Rightarrow> worker_op list \<Rightarrow> video_host \<Rightarrow> video_host" where
  "Pump env ws s =
     (let l = vh_locked s in
      if vl_closing l then s\<lparr>vh_locked := l\<lparr>vl_posted := False\<rparr>\<rparr>
      else
        let s1 = s\<lparr>vh_locked := fold work ws (l\<lparr>vl_posted := False, vl_reset := False, vl_configure := False\<rparr>)\<rparr> in
        if vl_reset l \<or> \<not> vl_enabled l then Message (str ''idle'') 0 (CloseDecoder s1)
        else if vl_failed l then Error PP_ERROR_NOMEMORY s1
        else if vl_configure l then start_decoder env s1
        else if \<not> vh_ready s1 \<or> vh_decoding s1 then s1
        else take_packet env s1)"

definition Initialized :: "int \<Rightarrow> pepper \<Rightarrow> worker_op list \<Rightarrow> video_host \<Rightarrow> video_host" where
  "Initialized r env ws s =
     (if r \<noteq> PP_OK then Error r s else Pump env ws (get_picture (s\<lparr>vh_ready := True\<rparr>)))"

definition Decoded :: "int \<Rightarrow> pepper \<Rightarrow> worker_op list \<Rightarrow> video_host \<Rightarrow> video_host" where
  "Decoded r env ws s =
     (let s1 = s\<lparr>vh_decoding := False\<rparr> in
      if r = PP_ERROR_ABORTED then s1 else if r \<noteq> PP_OK then Error r s1 else Pump env ws s1)"

text \<open>The program for a texture target: cached, or made anew.\<close>

definition Program :: "pepper \<Rightarrow> u32 \<Rightarrow> video_host \<Rightarrow> bool \<times> video_host" where
  "Program env t s =
     (if vh_program s \<noteq> 0 \<and> vh_target s = t then (True, s)
      else
        let s1 = s\<lparr>vh_program := pe_program env, pp_misuse := pp_misuse s \<or> \<not> vh_gl s\<rparr> in
        if \<not> pe_linked env then (False, Error PP_ERROR_FAILED s1) else (True, s1\<lparr>vh_target := t\<rparr>))"

definition Paint :: "pepper \<Rightarrow> video_picture \<Rightarrow> video_host \<Rightarrow> video_host" where
  "Paint env p s =
     (case Program env (pic_target p) s of
        (ok, s1) \<Rightarrow>
          if \<not> ok then recycle p s1
          else if fst (pic_visible p) \<le> 0 \<or> snd (pic_visible p) \<le> 0 \<or> fst (pic_size p) \<le> 0 \<or> snd (pic_size p) \<le> 0
          then Error PP_ERROR_BADARGUMENT (recycle p s1)
          else
            let s2 = s1\<lparr>pp_misuse := pp_misuse s1 \<or> \<not> vh_gl s1\<rparr> in
            if pe_gl_error env then Error PP_ERROR_FAILED (recycle p s2)
            else swap_buffers (s2\<lparr>vh_painting := True, vh_current := p\<rparr>))"

definition Picture :: "int \<Rightarrow> pepper \<Rightarrow> video_picture \<Rightarrow> video_host \<Rightarrow> video_host" where
  "Picture r env p s =
     (if r = PP_ERROR_ABORTED then s
      else if r \<noteq> PP_OK then Error r s
      else
        let s1 = (if vh_painting s
                  then (let s0 = (if vh_pending s then (recycle (vh_next s) s)\<lparr>vh_dropped := vh_dropped s + 1\<rparr> else s)
                        in s0\<lparr>vh_next := p, vh_pending := True\<rparr>)
                  else Paint env p s)
        in if vh_ready s1 then get_picture s1 else s1)"

definition Painted :: "int \<Rightarrow> pepper \<Rightarrow> video_host \<Rightarrow> video_host" where
  "Painted r env s =
     (let s0 = s\<lparr>vh_painting := False\<rparr> in
      if r = PP_ERROR_ABORTED then s0
      else if r \<noteq> PP_OK then Error r s0
      else
        let ms = 1000 * (pe_ticks env - vh_received s ! (unat (pic_decode (vh_current s) mod 128)));
            s1 = recycle (vh_current s) (s0\<lparr>vh_last_ms := ms, vh_sum_ms := vh_sum_ms s + ms, vh_frames := vh_frames s + 1\<rparr>);
            s2 = (if vh_frames s1 = 1 \<or> vh_frames s1 mod 30 = 0 then Message (str ''playing'') 0 s1 else s1)
        in if vh_pending s2 then Paint env (vh_next s2) (s2\<lparr>vh_pending := False\<rparr>) else s2)"

definition ShutdownVideo :: "video_host \<Rightarrow> video_host" where
  "ShutdownVideo s = CloseDecoder (locked (\<lambda>l. l\<lparr>vl_closing := True, vl_enabled := False, vl_queue := [], vl_queued_bytes := 0, pp_pumps := 0\<rparr>) s)"

text \<open>The part of the 1920 by 1080 screen a picture fills.\<close>

definition viewport :: "int \<Rightarrow> int \<Rightarrow> int \<times> int \<times> int \<times> int" where
  "viewport width height =
     (let (w, h) = (if width * 1080 < 1920 * height then (1080 * width div height, 1080) else (1920, 1920 * height div width))
      in ((1920 - w) div 2, (1080 - h) div 2, w, h))"

section \<open>Steps\<close>

text \<open>A callback runs when it is outstanding. Pepper aborts only the callbacks of a resource that is gone,
  and those the code has cancelled. A picture that arrives belongs to the plugin until it goes back.\<close>

inductive host_step :: "video_host \<Rightarrow> video_host \<Rightarrow> bool" where
  step_enable: "host_step s (locked (Enable on) s)"
| step_work: "host_step s (locked (work w) s)"
| step_pump: "0 < pp_pumps (vh_locked s) \<Longrightarrow> host_step s (Pump env ws (locked (\<lambda>l. l\<lparr>pp_pumps := pp_pumps l - 1\<rparr>) s))"
| step_initialized: "pp_init s \<Longrightarrow> host_step s (Initialized r env ws (s\<lparr>pp_init := False, pp_decoder := (r = PP_OK)\<rparr>))"
| step_decoded: "pp_decode s \<Longrightarrow> r \<noteq> PP_ERROR_ABORTED \<Longrightarrow> host_step s (Decoded r env ws (s\<lparr>pp_decode := False\<rparr>))"
| step_picture: "pp_get s \<Longrightarrow> r = PP_OK \<Longrightarrow> host_step s (Picture r env p (s\<lparr>pp_get := False, pp_pictures := p # pp_pictures s\<rparr>))"
| step_no_picture: "pp_get s \<Longrightarrow> r \<noteq> PP_OK \<Longrightarrow> r \<noteq> PP_ERROR_ABORTED \<Longrightarrow> host_step s (Picture r env p (s\<lparr>pp_get := False\<rparr>))"
| step_painted: "pp_swap s \<Longrightarrow> r \<noteq> PP_ERROR_ABORTED \<Longrightarrow> host_step s (Painted r env (s\<lparr>pp_swap := False\<rparr>))"
| step_shutdown: "host_step s (ShutdownVideo s)"

inductive video_reachable :: "video_host \<Rightarrow> bool" where
  reach_init: "video_reachable video_host_init"
| reach_step: "video_reachable s \<Longrightarrow> host_step s s' \<Longrightarrow> video_reachable s'"

section \<open>The queue\<close>

text \<open>The bounds of the queue and of its count of bytes, which is exact unless an allocation failed.\<close>

definition queue_size :: "video_locked \<Rightarrow> nat" where
  "queue_size l = sum_list (map (\<lambda>p. length (pk_bytes p)) (vl_queue l))"

definition queue_ok :: "video_locked \<Rightarrow> bool" where
  "queue_ok l \<longleftrightarrow> length (vl_queue l) \<le> 12 \<and> (\<forall>p \<in> set (vl_queue l). pk_bytes p \<noteq> [] \<and> length (pk_bytes p) \<le> 2097152) \<and>
     queue_size l \<le> unat (vl_queued_bytes l) \<and> unat (vl_queued_bytes l) \<le> 8388608 \<and>
     (\<not> vl_failed l \<longrightarrow> unat (vl_queued_bytes l) = queue_size l) \<and> length (vl_config l) \<le> 65536"

text \<open>The signals: a set flag has a pump posted.\<close>

definition signals_ok :: "video_locked \<Rightarrow> bool" where
  "signals_ok l \<longleftrightarrow> (vl_posted l \<longrightarrow> 0 < pp_pumps l) \<and> (vl_configure l \<or> vl_reset l \<longrightarrow> vl_posted l)"

lemma PostLocked_simps [simp]:
  "vl_enabled (PostLocked l) = vl_enabled l" "vl_closing (PostLocked l) = vl_closing l" "vl_posted (PostLocked l)"
  "vl_configure (PostLocked l) = vl_configure l" "vl_reset (PostLocked l) = vl_reset l" "vl_failed (PostLocked l) = vl_failed l"
  "vl_queued_bytes (PostLocked l) = vl_queued_bytes l" "vl_queue (PostLocked l) = vl_queue l" "vl_config (PostLocked l) = vl_config l"
  by (simp_all add: PostLocked_def)

lemma PostLocked_signals: "(vl_posted l \<longrightarrow> 0 < pp_pumps l) \<Longrightarrow> signals_ok (PostLocked l)"
  by (simp add: PostLocked_def signals_ok_def)

lemma PostLocked_queue [simp]: "queue_ok (PostLocked l) = queue_ok l" "queue_size (PostLocked l) = queue_size l"
  by (simp_all add: queue_ok_def queue_size_def)

text \<open>What an operation of the receiver's threads can do.\<close>

lemma work_cases:
  obtains (same) "work w s = s"
  | (failed) b where "work w s = PostLocked (s\<lparr>vl_queued_bytes := b, vl_failed := True\<rparr>)" "vl_enabled s" "\<not> vl_closing s"
      "b = vl_queued_bytes s \<or> (\<exists>d. length d \<le> 2097152 \<and> vl_queued_bytes s + of_nat (length (d :: byte list)) \<le> 8388608 \<and>
         b = vl_queued_bytes s + of_nat (length d))"
  | (configured) d where "w = WConfigure True (Some d)" "d \<noteq> []" "length d \<le> 65536" "vl_enabled s" "\<not> vl_closing s"
      "work w s = PostLocked (s\<lparr>vl_config := d, vl_queue := [], vl_queued_bytes := 0, vl_configure := True, vl_reset := False, vl_failed := False\<rparr>)"
  | (queued) d t where "d \<noteq> []" "length d \<le> 2097152" "\<not> vl_failed s" "\<not> vl_reset s" "vl_enabled s" "\<not> vl_closing s" "length (vl_queue s) < 12"
      "vl_queued_bytes s + of_nat (length d) \<le> 8388608" "w = WFrame True True t (Some d)"
      "work w s = PostLocked (s\<lparr>vl_queued_bytes := vl_queued_bytes s + of_nat (length d), vl_queue := vl_queue s @ [\<lparr>pk_bytes = d, pk_received = t\<rparr>]\<rparr>)"
  | (reset) "w = WReset" "work w s = PostLocked (s\<lparr>vl_reset := True, vl_configure := False, vl_queue := [], vl_queued_bytes := 0, vl_config := []\<rparr>)"
proof (cases w)
  case (WConfigure alloc data)
  consider "work w s = s" | d where "data = Some d" "d \<noteq> []" "length d \<le> 65536" "vl_enabled s" "\<not> vl_closing s"
    by (cases data) (simp_all add: work_def WConfigure Configure_def, metis linorder_not_less)
  then show thesis
  proof cases
    case 2
    show thesis
    proof (cases alloc)
      case True
      with 2 WConfigure show thesis by (intro configured [of d]) (simp_all add: work_def Configure_def)
    next
      case False
      with 2 WConfigure show thesis by (intro failed [of "vl_queued_bytes s"]) (simp_all add: work_def Configure_def)
    qed
  qed (rule same)
next
  case (WFrame alloc push t data)
  consider "work w s = s" | d where "data = Some d" "d \<noteq> []" "length d \<le> 2097152" "vl_enabled s" "\<not> vl_closing s" "\<not> vl_failed s" "\<not> vl_reset s"
    by (cases data) (simp_all add: work_def WFrame Frame_def, metis linorder_not_less)
  then show thesis
  proof cases
    case 2
    show thesis
    proof (cases "length (vl_queue s) \<ge> 12 \<or> vl_queued_bytes s + of_nat (length d) > 8388608 \<or> \<not> alloc")
      case True
      with 2 WFrame show thesis by (intro failed [of "vl_queued_bytes s"]) (auto simp: work_def Frame_def)
    next
      case fits: False
      show thesis
      proof (cases push)
        case True
        with 2 WFrame fits show thesis by (intro queued [of d t]) (auto simp: work_def Frame_def)
      next
        case False
        with 2 WFrame fits show thesis
          by (intro failed [of "vl_queued_bytes s + of_nat (length d)"]) (auto simp: work_def Frame_def)
      qed
    qed
  qed (rule same)
next
  case WReset
  then show thesis by (intro reset) (simp_all add: work_def ResetVideo_def)
qed

text \<open>The count of bytes does not wrap around.\<close>

lemma queued_sum: "unat (b :: u32) \<le> 8388608 \<Longrightarrow> n \<le> 2097152 \<Longrightarrow> unat (b + of_nat n) = unat b + n"
  by (simp add: unat_word_ariths unat_of_nat_u32)

lemma work_queue_ok: "queue_ok s \<Longrightarrow> queue_ok (work w s)"
proof (cases rule: work_cases [of w s])
  case (failed b)
  assume q: "queue_ok s"
  from failed(4) show ?thesis
  proof
    assume "b = vl_queued_bytes s"
    with q failed(1) show ?thesis by (simp add: queue_ok_def queue_size_def)
  next
    assume "\<exists>d. length d \<le> 2097152 \<and> vl_queued_bytes s + of_nat (length (d :: byte list)) \<le> 8388608 \<and> b = vl_queued_bytes s + of_nat (length d)"
    then obtain d :: "byte list" where d: "length d \<le> 2097152" "vl_queued_bytes s + of_nat (length d) \<le> 8388608"
      "b = vl_queued_bytes s + of_nat (length d)" by blast
    have "unat b = unat (vl_queued_bytes s) + length d" using q d(1,3) by (simp add: queue_ok_def queued_sum)
    moreover have "unat b \<le> 8388608" using d(2,3) by (simp add: word_le_nat_alt)
    ultimately show ?thesis using q failed(1) by (simp add: queue_ok_def queue_size_def)
  qed
next
  case (queued d t)
  assume q: "queue_ok s"
  then have u: "unat (vl_queued_bytes s + of_nat (length d)) = unat (vl_queued_bytes s) + length d"
    using queued(2) by (simp add: queue_ok_def queued_sum)
  moreover have "unat (vl_queued_bytes s + of_nat (length d)) \<le> 8388608" using queued(8) by (simp add: word_le_nat_alt)
  ultimately show ?thesis using q queued unfolding queued(10) by (auto simp: queue_ok_def queue_size_def)
qed (auto simp: queue_ok_def queue_size_def)

text \<open>Every operation keeps the signals, and adds work only with a pump posted.\<close>

lemma work_signals: "signals_ok s \<Longrightarrow> signals_ok (work w s) \<and> (vl_posted s \<longrightarrow> vl_posted (work w s)) \<and> vl_enabled (work w s) = vl_enabled s \<and> vl_closing (work w s) = vl_closing s"
  by (cases rule: work_cases [of w s]) (auto simp: signals_ok_def intro!: PostLocked_signals [unfolded signals_ok_def, THEN conjunct1, rule_format] simp: PostLocked_def)

lemma work_posts: "vl_config (work w s) \<noteq> vl_config s \<or> vl_queue (work w s) \<noteq> vl_queue s \<Longrightarrow> vl_posted (work w s)"
  by (cases rule: work_cases [of w s]) auto

lemma fold_work:
  "queue_ok s \<Longrightarrow> queue_ok (fold work ws s)"
  "signals_ok s \<Longrightarrow> signals_ok (fold work ws s) \<and> (vl_posted s \<longrightarrow> vl_posted (fold work ws s)) \<and>
     vl_enabled (fold work ws s) = vl_enabled s \<and> vl_closing (fold work ws s) = vl_closing s"
proof (induction ws arbitrary: s)
  case (Cons w ws)
  { case 1 then show ?case using Cons.IH(1) work_queue_ok by simp }
  { case 2 then show ?case using Cons.IH(2) [of "work w s"] work_signals [of s w] by auto }
qed auto

lemma fold_work_posts:
  "signals_ok s \<Longrightarrow> vl_config (fold work ws s) \<noteq> vl_config s \<or> vl_queue (fold work ws s) \<noteq> vl_queue s \<Longrightarrow> vl_posted (fold work ws s)"
proof (induction ws arbitrary: s)
  case (Cons w ws)
  show ?case
  proof (cases "vl_posted (work w s)")
    case True
    then show ?thesis using fold_work(2) [of "work w s" ws] work_signals [OF Cons.prems(1), of w] by simp
  next
    case False
    then have "vl_config (work w s) = vl_config s" "vl_queue (work w s) = vl_queue s" using work_posts by blast+
    then show ?thesis using Cons work_signals [OF Cons.prems(1), of w] by simp
  qed
qed simp

section \<open>The callbacks and the pictures\<close>

text \<open>The pictures the plugin works with: the one being painted and the one that waits for it.\<close>

definition held :: "video_host \<Rightarrow> video_picture multiset" where
  "held s = (if vh_painting s then {#vh_current s#} else {#}) + (if vh_pending s then {#vh_next s#} else {#})"

lemma held_updates [simp]:
  "held (s\<lparr>vh_program := a\<rparr>) = held s" "held (s\<lparr>vh_target := a\<rparr>) = held s" "held (s\<lparr>pp_misuse := m\<rparr>) = held s"
  "held (s\<lparr>pp_pictures := ps\<rparr>) = held s" "held (s\<lparr>pp_get := g\<rparr>) = held s" "held (s\<lparr>vh_locked := l\<rparr>) = held s"
  "held (s\<lparr>vh_dropped := d\<rparr>) = held s" "held (s\<lparr>pp_swap := g\<rparr>) = held s" "held (s\<lparr>vh_ready := g\<rparr>) = held s"
  "held (s\<lparr>vh_last_ms := x\<rparr>) = held s" "held (s\<lparr>vh_sum_ms := x\<rparr>) = held s" "held (s\<lparr>vh_frames := a\<rparr>) = held s"
  "held (s\<lparr>vh_decoding := g\<rparr>) = held s" "held (s\<lparr>pp_decode := g\<rparr>) = held s" "held (s\<lparr>pp_init := g\<rparr>) = held s" "held (s\<lparr>pp_decoder := g\<rparr>) = held s"
  by (simp_all add: held_def)

text \<open>The flags tell which callbacks are outstanding; held pictures have not been given back.\<close>

definition callbacks_ok :: "video_host \<Rightarrow> bool" where
  "callbacks_ok s \<longleftrightarrow> \<not> pp_misuse s \<and> length (vh_received s) = 128 \<and> vh_decoding s = pp_decode s \<and> vh_painting s = pp_swap s \<and>
     (pp_init s \<longrightarrow> \<not> pp_decoder s \<and> vh_gl s) \<and>
     (pp_decode s \<or> pp_get s \<or> pp_swap s \<or> vh_pending s \<or> vh_ready s \<longrightarrow> pp_decoder s) \<and> (pp_decoder s \<longrightarrow> vh_gl s) \<and>
     (pp_decoder s \<or> pp_pictures s = [] \<and> pp_decoded s = []) \<and> held s \<subseteq># mset (pp_pictures s)"

text \<open>While the decoder is in use, exactly the held pictures are out and the next one is asked for.\<close>

definition ready_ok :: "video_host \<Rightarrow> bool" where
  "ready_ok s \<longleftrightarrow> (vh_ready s \<longrightarrow> held s = mset (pp_pictures s) \<and> (vh_pending s \<longrightarrow> vh_painting s))"

lemma error_ok: "callbacks_ok s \<Longrightarrow> callbacks_ok (Error c s) \<and> ready_ok (Error c s) \<and> \<not> vh_ready (Error c s)"
  by (auto simp: callbacks_ok_def ready_ok_def Error_def Message_def locked_def held_def)

lemma message_ok [simp]: "callbacks_ok (Message t c s) = callbacks_ok s" "ready_ok (Message t c s) = ready_ok s"
  by (auto simp: callbacks_ok_def ready_ok_def Message_def held_def)

lemma locked_ok [simp]: "callbacks_ok (s\<lparr>vh_locked := l\<rparr>) = callbacks_ok s" "ready_ok (s\<lparr>vh_locked := l\<rparr>) = ready_ok s"
  by (auto simp: callbacks_ok_def ready_ok_def held_def)

lemma close_ok: "callbacks_ok s \<Longrightarrow> callbacks_ok (CloseDecoder s) \<and> ready_ok (CloseDecoder s) \<and> \<not> vh_ready (CloseDecoder s)"
  by (auto simp: callbacks_ok_def ready_ok_def CloseDecoder_def held_def)

lemma submit_ok: "callbacks_ok s \<Longrightarrow> ready_ok s \<Longrightarrow> vh_ready s \<Longrightarrow> \<not> vh_decoding s \<Longrightarrow> callbacks_ok (submit d t s) \<and> ready_ok (submit d t s)"
  by (auto simp: callbacks_ok_def ready_ok_def submit_def decode_call_def Let_def held_def)

lemma start_decoder_ok: "callbacks_ok s \<Longrightarrow> callbacks_ok (start_decoder env s) \<and> ready_ok (start_decoder env s) \<and> \<not> vh_ready (start_decoder env s)"
  by (auto simp: callbacks_ok_def ready_ok_def start_decoder_def CloseDecoder_def Error_def Message_def locked_def Let_def held_def)

lemma take_packet_ok:
  assumes "callbacks_ok s" "ready_ok s" "vh_ready s" "\<not> vh_decoding s"
  shows "callbacks_ok (take_packet env s) \<and> ready_ok (take_packet env s)"
proof -
  have "callbacks_ok (submit d t (s\<lparr>vh_locked := l\<rparr>)) \<and> ready_ok (submit d t (s\<lparr>vh_locked := l\<rparr>))" for l d t
    by (rule submit_ok) (use assms in simp_all)
  then show ?thesis using assms(1,2) by (simp add: take_packet_def Let_def split: list.split)
qed

lemma pump_ok: "callbacks_ok s \<Longrightarrow> ready_ok s \<Longrightarrow> callbacks_ok (Pump env ws s) \<and> ready_ok (Pump env ws s)"
  using close_ok error_ok start_decoder_ok take_packet_ok by (simp add: Pump_def Let_def)

lemma recycle_ok:
  assumes "callbacks_ok s" "held s + {#p#} \<subseteq># mset (pp_pictures s)"
  shows "callbacks_ok (recycle p s)"
proof -
  have p: "{#p#} \<subseteq># mset (pp_pictures s)" using assms(2) by (rule subset_mset.order_trans [OF mset_subset_eq_add_right])
  then have "held s \<subseteq># mset (pp_pictures s) - {#p#}" using assms(2) by (simp add: subset_mset.le_diff_conv2)
  moreover have "p \<in> set (pp_pictures s)" "pp_decoder s" using p assms(1) by (auto simp: callbacks_ok_def)
  ultimately show ?thesis using assms(1) by (simp add: callbacks_ok_def recycle_def)
qed

text \<open>What making the program changes that matters here.\<close>

lemma program_cases:
  assumes "Program env t s = (ok, s1)"
  obtains (cached) "ok" "s1 = s"
  | (linked) "ok" "s1 = s\<lparr>vh_program := pe_program env, pp_misuse := pp_misuse s \<or> \<not> vh_gl s, vh_target := t\<rparr>"
  | (unlinked) "\<not> ok" "s1 = Error PP_ERROR_FAILED (s\<lparr>vh_program := pe_program env, pp_misuse := pp_misuse s \<or> \<not> vh_gl s\<rparr>)"
  using assms unfolding Program_def Let_def by (metis prod.inject)

lemma program_state_ok:
  assumes "callbacks_ok s" "vh_gl s"
  shows "callbacks_ok (s\<lparr>vh_program := pr, pp_misuse := pp_misuse s \<or> \<not> vh_gl s, vh_target := t\<rparr>)"
    "callbacks_ok (s\<lparr>vh_program := pr, pp_misuse := pp_misuse s \<or> \<not> vh_gl s\<rparr>)"
  using assms by (simp_all add: callbacks_ok_def)

lemma error_keeps [simp]:
  "held (Error c s) = held s" "pp_pictures (Error c s) = pp_pictures s" "vh_painting (Error c s) = vh_painting s"
  "pp_decoder (Error c s) = pp_decoder s" "\<not> vh_ready (Error c s)" "vh_gl (Error c s) = vh_gl s" "pp_get (Error c s) = pp_get s"
  by (simp_all add: Error_def Message_def locked_def held_def)

lemma message_keeps [simp]:
  "held (Message m c s) = held s" "vh_painting (Message m c s) = vh_painting s" "vh_ready (Message m c s) = vh_ready s"
  "pp_decoder (Message m c s) = pp_decoder s" "pp_get (Message m c s) = pp_get s" "vh_next (Message m c s) = vh_next s"
  "vh_locked (Message m c s) = vh_locked s" "vh_pending (Message m c s) = vh_pending s" "pp_pictures (Message m c s) = pp_pictures s"
  by (simp_all add: Message_def held_def)

lemma recycle_keeps [simp]:
  "held (recycle p s) = held s" "vh_painting (recycle p s) = vh_painting s" "vh_ready (recycle p s) = vh_ready s"
  "pp_decoder (recycle p s) = pp_decoder s" "vh_gl (recycle p s) = vh_gl s" "pp_get (recycle p s) = pp_get s"
  "vh_locked (recycle p s) = vh_locked s" "vh_pending (recycle p s) = vh_pending s" "pp_pictures (recycle p s) = remove1 p (pp_pictures s)"
  by (simp_all add: recycle_def)

text \<open>A picture that is not held yet is painted or goes back.\<close>

lemma paint_ok:
  assumes "callbacks_ok s" "held s + {#p#} \<subseteq># mset (pp_pictures s)" "\<not> vh_painting s" "pp_decoder s"
  shows "callbacks_ok (Paint env p s) \<and> pp_get (Paint env p s) = pp_get s \<and> pp_decoder (Paint env p s) = pp_decoder s \<and>
    (vh_ready (Paint env p s) \<longrightarrow> vh_ready s \<and> vh_painting (Paint env p s) \<and> held (Paint env p s) = held s + {#p#} \<and>
       pp_pictures (Paint env p s) = pp_pictures s)"
proof -
  have gl: "vh_gl s" using assms(1,4) by (simp add: callbacks_ok_def)
  obtain ok s1 where pr: "Program env (pic_target p) s = (ok, s1)" by fastforce
  have s1: "callbacks_ok s1" "held s1 = held s" "pp_pictures s1 = pp_pictures s" "\<not> vh_painting s1" "pp_decoder s1" "vh_gl s1"
      "pp_get s1 = pp_get s" "vh_ready s1 \<longrightarrow> ok \<and> vh_ready s" "ok \<longrightarrow> vh_pending s1 = vh_pending s"
    using pr assms gl program_state_ok [OF assms(1) gl] error_ok by (cases rule: program_cases [OF pr]; simp)+
  have r: "callbacks_ok (recycle p s1)" using recycle_ok [OF s1(1)] s1(2,3) assms(2) by simp
  let ?s2 = "s1\<lparr>pp_misuse := pp_misuse s1 \<or> \<not> vh_gl s1\<rparr>"
  have s2: "callbacks_ok ?s2" using s1(1,6) by (simp add: callbacks_ok_def)
  have r2: "callbacks_ok (recycle p ?s2)" using recycle_ok [OF s2] s1(2,3) assms(2) by simp
  let ?s3 = "swap_buffers (?s2\<lparr>vh_painting := True, vh_current := p\<rparr>)"
  have "held ?s3 = held s1 + {#p#}" using s1(4) by (simp add: held_def swap_buffers_def)
  then have h: "held ?s3 = held s + {#p#}" by (simp only: s1(2))
  have "callbacks_ok ?s3"
    using s1 assms(2) h by (simp add: callbacks_ok_def swap_buffers_def)
  moreover have "pp_get ?s3 = pp_get s" "pp_decoder ?s3" "vh_painting ?s3" "pp_pictures ?s3 = pp_pictures s" "vh_ready ?s3 = vh_ready s1"
    using s1(3,5,7) by (simp_all add: swap_buffers_def)
  moreover have "Paint env p s = recycle p s1 \<and> \<not> ok \<or> Paint env p s = Error PP_ERROR_BADARGUMENT (recycle p s1) \<or>
      Paint env p s = Error PP_ERROR_FAILED (recycle p ?s2) \<or> Paint env p s = ?s3"
    by (simp only: Paint_def pr Let_def prod.case split: if_split) blast
  ultimately show ?thesis using h s1 assms(4) r r2 error_ok [OF r] error_ok [OF r2] by (elim disjE) simp_all
qed

text \<open>A new picture.\<close>

lemma picture_ok:
  fixes p
  assumes "callbacks_ok s" "ready_ok s" "pp_get s"
  defines "t \<equiv> s\<lparr>pp_get := False, pp_pictures := p # pp_pictures s\<rparr>"
  shows "callbacks_ok (Picture PP_OK env p t) \<and> ready_ok (Picture PP_OK env p t) \<and> (vh_ready (Picture PP_OK env p t) \<longrightarrow> pp_get (Picture PP_OK env p t))"
proof -
  have t: "callbacks_ok t" "pp_pictures t = p # pp_pictures s" "held t = held s" "pp_decoder t" "\<not> pp_get t" "vh_ready t = vh_ready s"
    "vh_painting t = vh_painting s" "vh_pending t = vh_pending s"
    using assms(1,3) subset_mset.order_trans [of "held s" "mset (pp_pictures s)" "mset (pp_pictures s) + {#p#}"]
    by (auto simp: t_def callbacks_ok_def)
  have room: "held t + {#p#} \<subseteq># mset (pp_pictures t)" using assms(1) t(2,3) by (simp add: callbacks_ok_def)
  define s1 where "s1 = (if vh_painting t
                  then (let s0 = (if vh_pending t then (recycle (vh_next t) t)\<lparr>vh_dropped := vh_dropped t + 1\<rparr> else t)
                        in s0\<lparr>vh_next := p, vh_pending := True\<rparr>)
                  else Paint env p t)"
  have s1: "callbacks_ok s1 \<and> pp_decoder s1 \<and> \<not> pp_get s1 \<and> ready_ok s1"
  proof (cases "vh_painting t")
    case False
    have "ready_ok (Paint env p t)"
      using paint_ok [OF t(1) room False t(4), of env] assms(2) t(2,3,6) by (auto simp: ready_ok_def)
    then show ?thesis using paint_ok [OF t(1) room False t(4), of env] t(4,5) False by (simp add: s1_def)
  next
    case painting: True
    show ?thesis
    proof (cases "vh_pending t")
      case False
      then show ?thesis using painting t room assms(2)
        by (simp add: s1_def callbacks_ok_def ready_ok_def held_def)
    next
      case True
      have h: "held t = {#vh_current t#} + {#vh_next t#}" using painting True by (simp add: held_def)
      let ?m = "mset (pp_pictures t) - {#vh_next t#}"
      have nx: "{#vh_next t#} \<subseteq># mset (pp_pictures t)"
        using room h subset_mset.order_trans mset_subset_eq_add_right mset_subset_eq_add_left by metis
      have "{#vh_current t#} + {#p#} \<subseteq># ?m" using room h by (simp add: subset_mset.le_diff_conv2 [OF nx] add_mset_commute)
      moreover have "?m = {#vh_current t#} + {#p#}" if "vh_ready t"
      proof -
        have "mset (pp_pictures t) = {#p#} + held t" using that assms(2) t(2,3,6) by (simp add: ready_ok_def)
        then show ?thesis using h by simp
      qed
      moreover have "vh_next t \<in> set (pp_pictures t)" using nx by simp
      moreover have "held s1 = {#vh_current t#} + {#p#}" "mset (pp_pictures s1) = ?m" "pp_decoder s1" "vh_painting s1" "vh_ready s1 = vh_ready t"
        "\<not> pp_get s1" "pp_misuse s1 = (pp_misuse t \<or> vh_next t \<notin> set (pp_pictures t))" "vh_received s1 = vh_received t"
        "vh_decoding s1 = pp_decode s1 \<longleftrightarrow> vh_decoding t = pp_decode t" "vh_painting s1 = pp_swap s1 \<longleftrightarrow> vh_painting t = pp_swap t"
        "pp_init s1 = pp_init t" "vh_gl s1 = vh_gl t"
        using painting True t(4,5) by (simp_all add: s1_def held_def recycle_def)
      ultimately show ?thesis using t(1,4) by (simp add: callbacks_ok_def ready_ok_def)
    qed
  qed
  then show ?thesis
    by (auto simp: Picture_def s1_def [symmetric] PP_OK_def PP_ERROR_ABORTED_def get_picture_def callbacks_ok_def ready_ok_def Let_def)
qed

text \<open>A picture on the screen.\<close>

lemma painted_ok:
  assumes "callbacks_ok s" "ready_ok s" "pp_swap s" "r \<noteq> PP_ERROR_ABORTED"
  defines "t \<equiv> s\<lparr>pp_swap := False\<rparr>"
  shows "callbacks_ok (Painted r env t) \<and> ready_ok (Painted r env t) \<and> pp_get (Painted r env t) = pp_get s \<and>
    (vh_ready (Painted r env t) \<longrightarrow> vh_ready s)"
proof -
  let ?t = "t\<lparr>vh_painting := False\<rparr>"
  have p: "vh_painting s" "pp_decoder s" using assms(1,3) by (auto simp: callbacks_ok_def)
  then have h: "held s = {#vh_current s#} + held ?t" by (simp add: t_def held_def)
  have c: "callbacks_ok ?t"
  proof -
    have "held s \<subseteq># mset (pp_pictures s)" using assms(1) by (simp add: callbacks_ok_def)
    then have "held ?t \<subseteq># mset (pp_pictures s)" unfolding h by (rule subset_mset.order_trans [OF mset_subset_eq_add_right])
    then show ?thesis using assms(1) by (auto simp: callbacks_ok_def t_def)
  qed
  show ?thesis
  proof (cases "r = PP_OK")
    case False
    then show ?thesis using assms(4) error_ok [OF c] by (simp add: Painted_def Let_def t_def)
  next
    case True
    define ms where "ms = 1000 * (pe_ticks env - vh_received t ! (unat (pic_decode (vh_current t) mod 128)))"
    define u where "u = ?t\<lparr>vh_last_ms := ms, vh_sum_ms := vh_sum_ms t + ms, vh_frames := vh_frames t + 1\<rparr>"
    define s1 where "s1 = recycle (vh_current t) u"
    have u: "callbacks_ok u" "held u = held ?t" "pp_pictures u = pp_pictures s" using c by (simp_all add: u_def callbacks_ok_def t_def)
    have "held u + {#vh_current s#} \<subseteq># mset (pp_pictures s)" using assms(1) h u(2) by (simp add: callbacks_ok_def)
    then have s1: "callbacks_ok s1" using recycle_ok [OF u(1)] u(3) by (simp add: s1_def t_def)
    have s1': "held s1 = held ?t" "pp_pictures s1 = remove1 (vh_current s) (pp_pictures s)" "\<not> vh_painting s1" "pp_decoder s1"
        "vh_pending s1 = vh_pending s" "pp_get s1 = pp_get s" "vh_ready s1 = vh_ready s" "vh_next s1 = vh_next s"
      using u(2,3) p by (simp_all add: s1_def, simp_all add: u_def t_def recycle_def)
    have r: "held ?t = mset (pp_pictures s1)" if "vh_ready s"
    proof -
      have "held s = mset (pp_pictures s)" using assms(2) that by (simp add: ready_ok_def)
      then have "mset (pp_pictures s) = {#vh_current s#} + held ?t" by (simp only: h)
      then show ?thesis by (simp add: s1'(2))
    qed
    define s2 where "s2 = (if vh_frames s1 = 1 \<or> vh_frames s1 mod 30 = 0 then Message (str ''playing'') 0 s1 else s1)"
    have s2: "callbacks_ok s2" "held s2 = held ?t" "pp_pictures s2 = pp_pictures s1" "\<not> vh_painting s2" "pp_decoder s2"
        "vh_pending s2 = vh_pending s" "pp_get s2 = pp_get s" "vh_ready s2 = vh_ready s" "vh_next s2 = vh_next s"
      using s1 s1' by (simp_all add: s2_def)
    have painted: "Painted r env t = (if vh_pending s2 then Paint env (vh_next s2) (s2\<lparr>vh_pending := False\<rparr>) else s2)"
      using True by (simp add: Painted_def Let_def ms_def s2_def s1_def u_def PP_OK_def PP_ERROR_ABORTED_def)
    show ?thesis
    proof (cases "vh_pending s2")
      case False
      then show ?thesis using painted s2 r by (simp add: ready_ok_def)
    next
      case pending: True
      let ?s3 = "s2\<lparr>vh_pending := False\<rparr>"
      have h3: "held s2 = held ?s3 + {#vh_next s2#}" using s2(4) pending by (simp add: held_def)
      have "callbacks_ok ?s3" using s2(1) h3 subset_mset.order_trans [OF mset_subset_eq_add_left, of "held ?s3" "{#vh_next s2#}"]
        by (auto simp: callbacks_ok_def)
      moreover have "held ?s3 + {#vh_next s2#} \<subseteq># mset (pp_pictures ?s3)" using s2(1) h3 by (simp add: callbacks_ok_def)
      ultimately have pk: "callbacks_ok (Paint env (vh_next s2) ?s3) \<and> pp_get (Paint env (vh_next s2) ?s3) = pp_get ?s3 \<and>
          pp_decoder (Paint env (vh_next s2) ?s3) = pp_decoder ?s3 \<and>
          (vh_ready (Paint env (vh_next s2) ?s3) \<longrightarrow> vh_ready ?s3 \<and> vh_painting (Paint env (vh_next s2) ?s3) \<and>
            held (Paint env (vh_next s2) ?s3) = held ?s3 + {#vh_next s2#} \<and> pp_pictures (Paint env (vh_next s2) ?s3) = pp_pictures ?s3)"
        using s2(4,5) by (intro paint_ok) simp_all
      then show ?thesis using painted pending s2 r h3 by (simp add: ready_ok_def)
    qed
  qed
qed

section \<open>The invariant\<close>

text \<open>A decoder that is ready and has work is decoding or has a pump posted.\<close>

definition awake :: "video_host \<Rightarrow> bool" where
  "awake s \<longleftrightarrow> (vh_ready s \<and> \<not> vl_failed (vh_locked s) \<and> (vl_config (vh_locked s) \<noteq> [] \<or> vl_queue (vh_locked s) \<noteq> []) \<longrightarrow>
     vl_posted (vh_locked s) \<or> vh_decoding s)"

definition host_inv :: "video_host \<Rightarrow> bool" where
  "host_inv s \<longleftrightarrow> callbacks_ok s \<and> ready_ok s \<and> (vh_ready s \<longrightarrow> pp_get s) \<and> queue_ok (vh_locked s) \<and>
     (if vl_closing (vh_locked s) then \<not> pp_decoder s \<and> \<not> pp_init s else signals_ok (vh_locked s) \<and> awake s)"

lemma host_invD:
  assumes "host_inv s"
  shows "callbacks_ok s" "ready_ok s" "vh_ready s \<longrightarrow> pp_get s" "queue_ok (vh_locked s)"
    "\<not> vl_closing (vh_locked s) \<Longrightarrow> signals_ok (vh_locked s) \<and> awake s"
    "vl_closing (vh_locked s) \<Longrightarrow> \<not> pp_decoder s \<and> \<not> pp_init s \<and> \<not> vh_ready s"
  using assms by (auto simp: host_inv_def callbacks_ok_def)

definition locked_error :: "video_locked \<Rightarrow> video_locked" where
  "locked_error l = l\<lparr>vl_failed := True, vl_queue := [], vl_queued_bytes := 0\<rparr>"

lemma locked_error_ok: "queue_ok l \<Longrightarrow> queue_ok (locked_error l)" "signals_ok l \<Longrightarrow> signals_ok (locked_error l)"
    "vl_closing (locked_error l) = vl_closing l"
  by (simp_all add: locked_error_def queue_ok_def queue_size_def signals_ok_def)

lemma locked_keeps [simp]:
  "vh_locked (Error c s) = locked_error (vh_locked s)" "vh_locked (CloseDecoder s) = vh_locked s" "vh_locked (submit d t s) = vh_locked s"
  "vh_locked (get_picture s) = vh_locked s" "vh_locked (swap_buffers s) = vh_locked s" "\<not> vh_ready (CloseDecoder s)"
  "vh_ready (submit d t s) = vh_ready s" "pp_get (submit d t s) = pp_get s" "vh_decoding (submit d t s)"
  by (simp_all add: Error_def Message_def locked_def locked_error_def CloseDecoder_def submit_def decode_call_def get_picture_def swap_buffers_def Let_def)

lemma start_decoder_locked: "vh_locked (start_decoder env s) \<in> {vh_locked s, locked_error (vh_locked s)}"
  by (simp add: start_decoder_def Let_def CloseDecoder_def)

lemma queue_ok_pop:
  assumes "queue_ok l" "vl_queue l = p # ps"
  shows "queue_ok (l\<lparr>vl_queued_bytes := vl_queued_bytes l - of_nat (length (pk_bytes p)), vl_queue := ps\<rparr>)" "pk_bytes p \<noteq> []"
proof -
  have n: "length (pk_bytes p) \<le> unat (vl_queued_bytes l)" "unat (vl_queued_bytes l) \<le> 8388608"
    using assms by (auto simp: queue_ok_def queue_size_def)
  then have u: "unat (of_nat (length (pk_bytes p)) :: u32) = length (pk_bytes p)" by (intro unat_of_nat_u32) simp
  then have "of_nat (length (pk_bytes p)) \<le> vl_queued_bytes l" using n(1) by (simp only: word_le_nat_alt)
  then have "unat (vl_queued_bytes l - of_nat (length (pk_bytes p))) = unat (vl_queued_bytes l) - length (pk_bytes p)"
    using u by (simp only: unat_sub)
  then show "queue_ok (l\<lparr>vl_queued_bytes := vl_queued_bytes l - of_nat (length (pk_bytes p)), vl_queue := ps\<rparr>)"
    using assms by (auto simp: queue_ok_def queue_size_def)
  show "pk_bytes p \<noteq> []" using assms by (auto simp: queue_ok_def)
qed

lemma take_packet_locked:
  fixes env
  assumes "queue_ok (vh_locked s)" "signals_ok (vh_locked s)" "vh_ready s \<longrightarrow> pp_get s"
  defines "t \<equiv> take_packet env s"
  shows "queue_ok (vh_locked t) \<and> signals_ok (vh_locked t) \<and> vl_closing (vh_locked t) = vl_closing (vh_locked s) \<and>
    (vh_ready t \<longrightarrow> pp_get t) \<and> awake t"
proof -
  let ?l = "vh_locked s"
  consider "vl_config ?l \<noteq> []" | "vl_config ?l = []" "vl_queue ?l = []" | p ps where "vl_config ?l = []" "vl_queue ?l = p # ps"
    by (cases "vl_queue ?l") auto
  then show ?thesis
  proof cases
    case 1
    then have "t = submit (vl_config ?l) (pe_ticks env) (s\<lparr>vh_locked := ?l\<lparr>vl_config := []\<rparr>\<rparr>)" by (simp add: t_def take_packet_def Let_def)
    then show ?thesis using assms(1-3) by (simp add: queue_ok_def signals_ok_def awake_def queue_size_def)
  next
    case 2
    then show ?thesis using assms(1-3) by (simp add: t_def take_packet_def Let_def awake_def)
  next
    case 3
    note pop = queue_ok_pop [OF assms(1) 3(2)]
    have "t = submit (pk_bytes p) (pk_received p) (s\<lparr>vh_locked := ?l\<lparr>vl_queued_bytes := vl_queued_bytes ?l - of_nat (length (pk_bytes p)), vl_queue := ps\<rparr>\<rparr>)"
      using 3 pop(2) by (simp add: t_def take_packet_def Let_def)
    then show ?thesis using assms(2,3) pop(1) by (simp add: signals_ok_def awake_def)
  qed
qed

text \<open>The pump restores the signals and the progress whatever they were.\<close>

lemma pump_inv:
  assumes "callbacks_ok s" "ready_ok s" "vh_ready s \<longrightarrow> pp_get s" "queue_ok (vh_locked s)"
    "vl_closing (vh_locked s) \<longrightarrow> \<not> pp_decoder s \<and> \<not> pp_init s"
  shows "host_inv (Pump env ws s)"
proof (cases "vl_closing (vh_locked s)")
  case True
  then show ?thesis using assms by (simp add: Pump_def Let_def host_inv_def queue_ok_def queue_size_def)
next
  case False
  let ?l = "vh_locked s"
  let ?b = "?l\<lparr>vl_posted := False, vl_reset := False, vl_configure := False\<rparr>"
  define l1 where "l1 = fold work ws ?b"
  define s1 where "s1 = s\<lparr>vh_locked := l1\<rparr>"
  have b: "queue_ok ?b" "signals_ok ?b" using assms(4) by (simp_all add: queue_ok_def queue_size_def signals_ok_def)
  have l1: "queue_ok l1" "signals_ok l1" "vl_closing l1 = False"
    using fold_work(1) [OF b(1), of ws] fold_work(2) [OF b(2), of ws] False by (simp_all add: l1_def)
  have s1: "callbacks_ok s1" "ready_ok s1" "vh_ready s1 \<longrightarrow> pp_get s1" "vh_locked s1 = l1" using assms by (simp_all add: s1_def)
  have stopped: "host_inv u" if "callbacks_ok u \<and> ready_ok u" "vh_locked u \<in> {l1, locked_error l1}" "\<not> vh_ready u" for u
    using that l1 locked_error_ok by (auto simp: host_inv_def awake_def)
  have running: "host_inv s1" if "\<not> vh_ready s1 \<or> vh_decoding s1"
    using that l1 s1 by (auto simp: host_inv_def awake_def)
  have take: "host_inv (take_packet env s1)" if "vh_ready s1" "\<not> vh_decoding s1"
    using take_packet_ok [OF s1(1,2) that] take_packet_locked [of s1 env] l1 s1 by (simp add: host_inv_def)
  have "host_inv (Message (str ''idle'') 0 (CloseDecoder s1))" using close_ok [OF s1(1)] s1(4) by (intro stopped) simp_all
  moreover have "host_inv (Error PP_ERROR_NOMEMORY s1)" using error_ok [OF s1(1)] s1(4) by (intro stopped) simp_all
  moreover have "host_inv (start_decoder env s1)" using start_decoder_ok [OF s1(1)] start_decoder_locked [of env s1] s1(4) by (intro stopped) simp_all
  ultimately show ?thesis using False running take by (simp add: Pump_def Let_def l1_def [symmetric] s1_def [symmetric])
qed

lemma host_init_inv: "host_inv video_host_init"
  by (simp add: host_inv_def video_host_init_def locked_init_def callbacks_ok_def ready_ok_def held_def queue_ok_def queue_size_def signals_ok_def awake_def)

lemma host_inv_error:
  assumes "callbacks_ok s" "queue_ok (vh_locked s)" "\<not> vl_closing (vh_locked s) \<longrightarrow> signals_ok (vh_locked s)"
    "vl_closing (vh_locked s) \<longrightarrow> \<not> pp_decoder s \<and> \<not> pp_init s"
  shows "host_inv (Error c s)"
proof -
  have "pp_init (Error c s) = pp_init s" by (simp add: Error_def Message_def locked_def)
  then show ?thesis using error_ok [OF assms(1)] locked_error_ok assms(2-4) by (simp add: host_inv_def awake_def)
qed

lemma work_inv:
  assumes "host_inv s"
  shows "host_inv (locked (work w) s)"
proof (cases "vl_closing (vh_locked s)")
  case True
  moreover have "vl_closing (work w (vh_locked s)) = vl_closing (vh_locked s)" by (cases rule: work_cases [of w "vh_locked s"]) auto
  ultimately show ?thesis using assms work_queue_ok by (simp add: host_inv_def locked_def)
next
  case False
  let ?l = "vh_locked s"
  have sg: "signals_ok ?l" "awake s" using host_invD(5) [OF assms False] by simp_all
  note ws = work_signals [OF sg(1), of w]
  have "awake (locked (work w) s)"
  proof (cases "vl_posted (work w ?l)")
    case False
    then have "work w ?l = ?l" by (cases rule: work_cases [of w ?l]) auto
    then show ?thesis using sg(2) by (simp add: locked_def awake_def)
  qed (simp add: awake_def locked_def)
  then show ?thesis using assms ws work_queue_ok False by (simp add: host_inv_def locked_def)
qed

lemma enable_inv: "host_inv s \<Longrightarrow> host_inv (locked (Enable on) s)"
  by (auto simp: host_inv_def locked_def Enable_def queue_ok_def queue_size_def awake_def signals_ok_def PostLocked_def)

text \<open>What painting leaves alone: the progress of the decoder, and the queue unless there is an error.\<close>

definition calm :: "video_host \<Rightarrow> video_host \<Rightarrow> bool" where
  "calm s t \<longleftrightarrow> pp_init t = pp_init s \<and> pp_decoder t = pp_decoder s \<and> vh_decoding t = vh_decoding s \<and>
     (vh_ready t \<longrightarrow> vh_ready s \<and> vh_locked t = vh_locked s) \<and> vh_locked t \<in> {vh_locked s, locked_error (vh_locked s)}"

lemma locked_error_idem [simp]: "locked_error (locked_error l) = locked_error l"
  by (simp add: locked_error_def)

lemma calm_trans: "calm a b \<Longrightarrow> calm b c \<Longrightarrow> calm a c"
  unfolding calm_def by auto

lemma calm_keeps [simp]:
  "pp_init (Error c s) = pp_init s" "vh_decoding (Error c s) = vh_decoding s" "pp_init (Message m c s) = pp_init s"
  "vh_decoding (Message m c s) = vh_decoding s" "pp_init (recycle p s) = pp_init s" "vh_decoding (recycle p s) = vh_decoding s"
  "pp_init (get_picture s) = pp_init s" "vh_decoding (get_picture s) = vh_decoding s" "pp_decoder (get_picture s) = pp_decoder s"
  "vh_ready (get_picture s) = vh_ready s" "pp_init (swap_buffers s) = pp_init s" "vh_decoding (swap_buffers s) = vh_decoding s"
  "pp_decoder (swap_buffers s) = pp_decoder s" "vh_ready (swap_buffers s) = vh_ready s"
  by (simp_all add: Error_def Message_def locked_def recycle_def get_picture_def swap_buffers_def)

lemma paint_calm: "calm s (Paint env p s)"
  by (simp add: calm_def Paint_def Program_def Let_def)

lemma picture_calm: "calm s (Picture r env p s)"
proof -
  define s1 where "s1 = (if vh_painting s
                  then (let s0 = (if vh_pending s then (recycle (vh_next s) s)\<lparr>vh_dropped := vh_dropped s + 1\<rparr> else s)
                        in s0\<lparr>vh_next := p, vh_pending := True\<rparr>)
                  else Paint env p s)"
  have "calm s s1" using paint_calm [of s env p] by (simp add: s1_def Let_def calm_def)
  then show ?thesis by (simp add: Picture_def s1_def [symmetric] Let_def) (simp add: calm_def)
qed

lemma painted_calm: "calm s (Painted r env s)"
proof -
  define s1 where "s1 = recycle (vh_current s) (s\<lparr>vh_painting := False,
    vh_last_ms := 1000 * (pe_ticks env - vh_received s ! (unat (pic_decode (vh_current s) mod 128))),
    vh_sum_ms := vh_sum_ms s + 1000 * (pe_ticks env - vh_received s ! (unat (pic_decode (vh_current s) mod 128))), vh_frames := vh_frames s + 1\<rparr>)"
  define s2 where "s2 = (if vh_frames s1 = 1 \<or> vh_frames s1 mod 30 = 0 then Message (str ''playing'') 0 s1 else s1)"
  have s2: "calm s (s2\<lparr>vh_pending := False\<rparr>)" "calm s s2" by (simp_all add: s2_def s1_def calm_def)
  have "Painted r env s \<in> {s\<lparr>vh_painting := False\<rparr>, Error r (s\<lparr>vh_painting := False\<rparr>), s2, Paint env (vh_next s2) (s2\<lparr>vh_pending := False\<rparr>)}"
    by (simp add: Painted_def Let_def s1_def s2_def)
  moreover have "calm s (s\<lparr>vh_painting := False\<rparr>)" "calm s (Error r (s\<lparr>vh_painting := False\<rparr>))" by (simp_all add: calm_def)
  moreover have "calm s (Paint env q (s2\<lparr>vh_pending := False\<rparr>))" for q by (rule calm_trans [OF s2(1) paint_calm])
  ultimately show ?thesis using s2(2) by (elim insertE emptyE) simp_all
qed

lemma calm_inv:
  assumes "host_inv s" "calm s t" "callbacks_ok t" "ready_ok t" "vh_ready t \<longrightarrow> pp_get t"
  shows "host_inv t"
proof -
  have l: "queue_ok (vh_locked t)" "vl_closing (vh_locked t) = vl_closing (vh_locked s)"
    "signals_ok (vh_locked s) \<Longrightarrow> signals_ok (vh_locked t)"
    using assms(1,2) locked_error_ok by (auto simp: calm_def host_inv_def)
  have "awake s \<Longrightarrow> awake t" using assms(2) by (auto simp: awake_def calm_def)
  then show ?thesis using assms l by (simp add: host_inv_def) (auto simp: calm_def)
qed

lemma step_inv:
  assumes "host_step s s'" "host_inv s"
  shows "host_inv s'"
  using assms
proof cases
  case (step_enable on)
  then show ?thesis using enable_inv assms(2) by simp
next
  case (step_work w)
  then show ?thesis using work_inv assms(2) by simp
next
  case (step_pump env ws)
  show ?thesis unfolding step_pump(1)
    by (rule pump_inv) (use host_invD [OF assms(2)] in \<open>simp_all add: locked_def queue_ok_def queue_size_def\<close>)
next
  case (step_initialized r env ws)
  let ?t = "s\<lparr>pp_init := False, pp_decoder := (r = PP_OK)\<rparr>"
  note inv = host_invD [OF assms(2)]
  have open_host: "\<not> vl_closing (vh_locked s)" using inv(6) step_initialized(2) by blast
  have fresh: "\<not> pp_decoder s" "\<not> pp_get s" "\<not> pp_decode s" "\<not> pp_swap s" "\<not> vh_pending s" "\<not> vh_ready s" "vh_gl s" "pp_pictures s = []" "pp_decoded s = []"
    using inv(1) step_initialized(2) by (auto simp: callbacks_ok_def)
  have t: "callbacks_ok ?t" using inv(1) fresh by (auto simp: callbacks_ok_def)
  show ?thesis
  proof (cases "r = PP_OK")
    case False
    then show ?thesis unfolding step_initialized(1) Initialized_def
      using host_inv_error [OF t] inv(4,5) open_host by simp
  next
    case True
    have "callbacks_ok (get_picture (?t\<lparr>vh_ready := True\<rparr>)) \<and> ready_ok (get_picture (?t\<lparr>vh_ready := True\<rparr>))"
      using t fresh True by (auto simp: callbacks_ok_def ready_ok_def get_picture_def)
    then have "host_inv (Pump env ws (get_picture (?t\<lparr>vh_ready := True\<rparr>)))"
      using inv(4) open_host by (intro pump_inv) (simp_all, simp_all add: get_picture_def)
    then show ?thesis using True by (simp add: step_initialized(1) Initialized_def)
  qed
next
  case (step_decoded r env ws)
  let ?t = "s\<lparr>pp_decode := False, vh_decoding := False\<rparr>"
  note inv = host_invD [OF assms(2)]
  have t: "callbacks_ok ?t" "ready_ok ?t" using inv(1,2) by (auto simp: callbacks_ok_def ready_ok_def)
  have open_host: "\<not> vl_closing (vh_locked s)" using inv(1,6) step_decoded(2) by (auto simp: callbacks_ok_def)
  have "host_inv (Pump env ws ?t)" using t inv(3,4) open_host by (intro pump_inv) simp_all
  moreover have "host_inv (Error r ?t)" using host_inv_error [OF t(1)] inv(4,5) open_host by simp
  ultimately show ?thesis using step_decoded(3) by (simp add: step_decoded(1) Decoded_def Let_def)
next
  case (step_picture r env p)
  note inv = host_invD [OF assms(2)]
  show ?thesis unfolding step_picture(1)
    by (rule calm_inv [OF assms(2) calm_trans [OF _ picture_calm]])
      (use picture_ok [OF inv(1,2) step_picture(2)] step_picture(3) in \<open>simp_all add: calm_def\<close>)
next
  case (step_no_picture r env p)
  let ?t = "s\<lparr>pp_get := False\<rparr>"
  note inv = host_invD [OF assms(2)]
  have "callbacks_ok ?t" using inv(1) by (auto simp: callbacks_ok_def)
  then have "host_inv (Error r ?t)" using host_inv_error [of ?t] inv(4-6) by simp
  then show ?thesis using step_no_picture by (simp add: Picture_def)
next
  case (step_painted r env)
  note inv = host_invD [OF assms(2)]
  show ?thesis unfolding step_painted(1)
    by (rule calm_inv [OF assms(2) calm_trans [OF _ painted_calm]])
      (use painted_ok [OF inv(1,2) step_painted(2,3)] inv(3) in \<open>simp_all add: calm_def\<close>)
next
  case step_shutdown
  note inv = host_invD [OF assms(2)]
  have "callbacks_ok (CloseDecoder u) \<and> ready_ok (CloseDecoder u) \<and> \<not> vh_ready (CloseDecoder u)" if "u = locked f s" for u f
    using inv(1) that by (intro close_ok) (simp add: locked_def)
  then show ?thesis unfolding step_shutdown ShutdownVideo_def using inv(4)
    by (simp add: host_inv_def, simp add: locked_def queue_ok_def queue_size_def CloseDecoder_def)
qed

lemma reachable_inv: "video_reachable s \<Longrightarrow> host_inv s"
  by (induction rule: video_reachable.induct) (auto intro: host_init_inv step_inv)

section \<open>The order of the data\<close>

text \<open>What the receiver's threads have handed over since the last configuration or reset: an accepted
  configuration starts anew, an accepted frame follows.\<close>

definition given_work :: "worker_op \<Rightarrow> video_locked \<Rightarrow> byte list list \<Rightarrow> byte list list" where
  "given_work w l g = (case w of
       WReset \<Rightarrow> []
     | WConfigure alloc d \<Rightarrow>
         (case d of None \<Rightarrow> g | Some b \<Rightarrow> if alloc \<and> b \<noteq> [] \<and> length b \<le> 65536 \<and> vl_enabled l \<and> \<not> vl_closing l then [b] else g)
     | WFrame alloc push t d \<Rightarrow> (case d of None \<Rightarrow> g | Some b \<Rightarrow> if vl_queue (work w l) \<noteq> vl_queue l then g @ [b] else g))"

fun given_all :: "worker_op list \<Rightarrow> video_locked \<Rightarrow> byte list list \<Rightarrow> byte list list" where
  "given_all [] l g = g"
| "given_all (w # ws) l g = given_all ws (work w l) (given_work w l g)"

definition given_pump :: "worker_op list \<Rightarrow> video_locked \<Rightarrow> byte list list \<Rightarrow> byte list list" where
  "given_pump ws l g = (if vl_closing l then g else given_all ws (l\<lparr>vl_posted := False, vl_reset := False, vl_configure := False\<rparr>) g)"

text \<open>The runs with what was handed over; the windows of the pumps are those of \<open>P\<close>.\<close>

inductive video_feed :: "(worker_op list \<Rightarrow> bool) \<Rightarrow> video_host \<Rightarrow> byte list list \<Rightarrow> bool" for P where
  feed_init: "video_feed P video_host_init []"
| feed_enable: "video_feed P s g \<Longrightarrow> video_feed P (locked (Enable on) s) []"
| feed_work: "video_feed P s g \<Longrightarrow> video_feed P (locked (work w) s) (given_work w (vh_locked s) g)"
| feed_pump: "video_feed P s g \<Longrightarrow> 0 < pp_pumps (vh_locked s) \<Longrightarrow> P ws \<Longrightarrow>
    video_feed P (Pump env ws (locked (\<lambda>l. l\<lparr>pp_pumps := pp_pumps l - 1\<rparr>) s)) (given_pump ws (vh_locked s\<lparr>pp_pumps := pp_pumps (vh_locked s) - 1\<rparr>) g)"
| feed_initialized: "video_feed P s g \<Longrightarrow> pp_init s \<Longrightarrow> P ws \<Longrightarrow>
    video_feed P (Initialized r env ws (s\<lparr>pp_init := False, pp_decoder := (r = PP_OK)\<rparr>)) (if r = PP_OK then given_pump ws (vh_locked s) g else g)"
| feed_decoded: "video_feed P s g \<Longrightarrow> pp_decode s \<Longrightarrow> r \<noteq> PP_ERROR_ABORTED \<Longrightarrow> P ws \<Longrightarrow>
    video_feed P (Decoded r env ws (s\<lparr>pp_decode := False\<rparr>)) (if r = PP_OK then given_pump ws (vh_locked s) g else g)"
| feed_picture: "video_feed P s g \<Longrightarrow> pp_get s \<Longrightarrow> r = PP_OK \<Longrightarrow>
    video_feed P (Picture r env p (s\<lparr>pp_get := False, pp_pictures := p # pp_pictures s\<rparr>)) g"
| feed_no_picture: "video_feed P s g \<Longrightarrow> pp_get s \<Longrightarrow> r \<noteq> PP_OK \<Longrightarrow> r \<noteq> PP_ERROR_ABORTED \<Longrightarrow>
    video_feed P (Picture r env p (s\<lparr>pp_get := False\<rparr>)) g"
| feed_painted: "video_feed P s g \<Longrightarrow> pp_swap s \<Longrightarrow> r \<noteq> PP_ERROR_ABORTED \<Longrightarrow> video_feed P (Painted r env (s\<lparr>pp_swap := False\<rparr>)) g"
| feed_shutdown: "video_feed P s g \<Longrightarrow> video_feed P (ShutdownVideo s) g"

lemma feed_reachable: "video_feed P s g \<Longrightarrow> video_reachable s"
  by (induction rule: video_feed.induct) (auto intro: reach_init reach_step host_step.intros simp del: One_nat_def)

text \<open>The data given, what of it the decoder has, and what waits.\<close>

definition waiting :: "video_locked \<Rightarrow> byte list list" where
  "waiting l = (if vl_config l = [] then [] else [vl_config l]) @ map pk_bytes (vl_queue l)"

definition feed_ok :: "video_locked \<Rightarrow> byte list list \<Rightarrow> byte list list \<Rightarrow> bool" where
  "feed_ok l ds g \<longleftrightarrow> (vl_reset l \<longrightarrow> g = [] \<and> vl_config l = [] \<and> vl_queue l = []) \<and>
     (\<not> vl_closing l \<and> vl_enabled l \<and> \<not> vl_failed l \<and> \<not> vl_reset l \<longrightarrow>
       (if vl_configure l then g = waiting l else g = ds @ waiting l))"

lemma feed_post [simp]: "feed_ok (PostLocked l) ds g = feed_ok l ds g"
  by (simp add: feed_ok_def waiting_def)

lemma feed_failed: "feed_ok l ds g \<Longrightarrow> feed_ok (l\<lparr>vl_failed := True\<rparr>) ds g" "feed_ok l ds g \<Longrightarrow> feed_ok (l\<lparr>vl_queued_bytes := b, vl_failed := True\<rparr>) ds g"
  by (simp_all add: feed_ok_def)

lemma feed_work_ok:
  assumes "feed_ok l ds g"
  shows "feed_ok (work w l) ds (given_work w l g)"
proof (cases w)
  case (WConfigure alloc data)
  show ?thesis
  proof (cases "\<exists>b. data = Some b \<and> b \<noteq> [] \<and> length b \<le> 65536 \<and> vl_enabled l \<and> \<not> vl_closing l")
    case True
    then obtain b where b: "data = Some b" "b \<noteq> []" "length b \<le> 65536" "vl_enabled l" "\<not> vl_closing l" by blast
    then show ?thesis using assms feed_failed(1) [OF assms]
      by (cases alloc) (simp_all add: WConfigure given_work_def work_def Configure_def, simp add: feed_ok_def waiting_def)
  next
    case False
    then have "work w l = l" "given_work w l g = g"
      by (cases data; auto simp: WConfigure given_work_def work_def Configure_def)+
    then show ?thesis using assms by simp
  qed
next
  case (WFrame alloc push t data)
  show ?thesis
  proof (cases rule: work_cases [of w l])
    case (failed b)
    then have "given_work w l g = g" by (simp add: WFrame given_work_def split: option.split)
    then show ?thesis using assms failed(1) feed_failed(2) by simp
  next
    case (queued d t)
    then show ?thesis using assms by (auto simp: feed_ok_def given_work_def waiting_def queued(10))
  qed (use assms WFrame in \<open>auto simp: given_work_def split: option.split\<close>)
next
  case WReset
  then show ?thesis by (simp add: work_def ResetVideo_def feed_ok_def given_work_def)
qed

lemma feed_all_ok: "feed_ok l ds g \<Longrightarrow> feed_ok (fold work ws l) ds (given_all ws l g)"
  by (induction ws arbitrary: l g) (simp_all add: feed_work_ok)

text \<open>Without a configuration in its window the pump keeps the order.\<close>

definition no_configure :: "worker_op list \<Rightarrow> bool" where
  "no_configure ws \<longleftrightarrow> list_all (\<lambda>w. case w of WConfigure alloc d \<Rightarrow> False | _ \<Rightarrow> True) ws"

lemma no_configure_flag:
  "no_configure ws \<Longrightarrow> \<not> vl_configure l \<Longrightarrow> \<not> vl_configure (fold work ws l)"
proof (induction ws arbitrary: l)
  case (Cons w ws)
  have "\<not> vl_configure (work w l)" using Cons.prems
    by (cases rule: work_cases [of w l]) (auto simp: no_configure_def)
  then show ?case using Cons by (simp add: no_configure_def)
qed simp

lemma decoded_keeps [simp]:
  "pp_decoded (Error c s) = pp_decoded s" "pp_decoded (Message m c s) = pp_decoded s" "pp_decoded (recycle p s) = pp_decoded s"
  "pp_decoded (get_picture s) = pp_decoded s" "pp_decoded (swap_buffers s) = pp_decoded s"
  "pp_decoded (CloseDecoder s) = []"
  by (simp_all add: CloseDecoder_def Error_def Message_def locked_def recycle_def get_picture_def swap_buffers_def)

lemma feed_take_ok:
  fixes env
  assumes "feed_ok (vh_locked s) (pp_decoded s) g" "queue_ok (vh_locked s)" "\<not> vl_configure (vh_locked s)"
  defines "t \<equiv> take_packet env s"
  shows "feed_ok (vh_locked t) (pp_decoded t) g"
proof -
  let ?l = "vh_locked s"
  have d: "pp_decoded (submit d r u) = pp_decoded u @ [d]" for d r u by (simp add: submit_def decode_call_def Let_def)
  consider "vl_config ?l \<noteq> []" | "vl_config ?l = []" "vl_queue ?l = []" | p ps where "vl_config ?l = []" "vl_queue ?l = p # ps"
    by (cases "vl_queue ?l") auto
  then show ?thesis
  proof cases
    case 1
    then have "t = submit (vl_config ?l) (pe_ticks env) (s\<lparr>vh_locked := ?l\<lparr>vl_config := []\<rparr>\<rparr>)" by (simp add: t_def take_packet_def Let_def)
    then show ?thesis using assms(1,3) 1 d by (auto simp: feed_ok_def waiting_def)
  next
    case 2
    then show ?thesis using assms(1) by (simp add: t_def take_packet_def Let_def)
  next
    case 3
    then have "t = submit (pk_bytes p) (pk_received p) (s\<lparr>vh_locked := ?l\<lparr>vl_queued_bytes := vl_queued_bytes ?l - of_nat (length (pk_bytes p)), vl_queue := ps\<rparr>\<rparr>)"
      using queue_ok_pop(2) [OF assms(2) 3(2)] by (simp add: t_def take_packet_def Let_def)
    then show ?thesis using assms(1,3) 3 d by (auto simp: feed_ok_def waiting_def)
  qed
qed

lemma feed_pump_ok:
  fixes env
  assumes "feed_ok (vh_locked s) (pp_decoded s) g" "queue_ok (vh_locked s)" "no_configure ws"
  defines "t \<equiv> Pump env ws s"
  shows "feed_ok (vh_locked t) (pp_decoded t) (given_pump ws (vh_locked s) g)"
proof (cases "vl_closing (vh_locked s)")
  case True
  then show ?thesis using assms(1) by (simp add: t_def Pump_def Let_def feed_ok_def given_pump_def)
next
  case False
  let ?l = "vh_locked s"
  let ?b = "?l\<lparr>vl_posted := False, vl_reset := False, vl_configure := False\<rparr>"
  define l1 where "l1 = fold work ws ?b"
  define g1 where "g1 = given_all ws ?b g"
  have g1: "given_pump ws ?l g = g1" using False by (simp add: given_pump_def g1_def)
  have close: "feed_ok l1 [] g1" if "vl_reset ?l \<or> \<not> vl_enabled ?l \<or> vl_configure ?l \<and> \<not> vl_failed ?l"
  proof -
    have "feed_ok ?b [] g" using assms(1) that by (auto simp: feed_ok_def waiting_def)
    then show ?thesis unfolding l1_def g1_def by (rule feed_all_ok)
  qed
  have error: "feed_ok (locked_error l1) ds g1" if "feed_ok l1 ds' g1" for ds ds' using that by (simp add: feed_ok_def locked_error_def)
  define s1 where "s1 = s\<lparr>vh_locked := l1\<rparr>"
  have s1: "vh_locked s1 = l1" "pp_decoded s1 = pp_decoded s" by (simp_all add: s1_def)
  have "queue_ok ?b" using assms(2) by (simp add: queue_ok_def queue_size_def)
  then have q1: "queue_ok l1" unfolding l1_def by (rule fold_work(1))
  consider "vl_reset ?l \<or> \<not> vl_enabled ?l" | "\<not> vl_reset ?l" "vl_enabled ?l" "vl_failed ?l"
    | "\<not> vl_reset ?l" "vl_enabled ?l" "\<not> vl_failed ?l" "vl_configure ?l" | "\<not> vl_reset ?l" "vl_enabled ?l" "\<not> vl_failed ?l" "\<not> vl_configure ?l"
    by blast
  then show ?thesis
  proof cases
    case 1
    then have "t = Message (str ''idle'') 0 (CloseDecoder s1)" using False by (simp add: t_def Pump_def Let_def s1_def l1_def)
    moreover have "feed_ok l1 [] g1" using close 1 by blast
    ultimately show ?thesis using s1 g1 by simp
  next
    case 2
    then have "feed_ok ?b [] g" by (simp add: feed_ok_def)
    from feed_all_ok [OF this, of ws] have "feed_ok l1 [] g1" by (simp add: l1_def g1_def)
    moreover have "t = Error PP_ERROR_NOMEMORY s1" using False 2 by (simp add: t_def Pump_def Let_def s1_def l1_def)
    ultimately show ?thesis using error s1 g1 by simp
  next
    case 3
    then have t: "t = start_decoder env s1" using False by (simp add: t_def Pump_def Let_def s1_def l1_def)
    have "vh_locked t = l1 \<and> pp_decoded t = [] \<or> vh_locked t = locked_error l1"
      by (simp add: t start_decoder_def Let_def s1 CloseDecoder_def Message_def)
    then show ?thesis using close 3 error g1 by auto
  next
    case 4
    then have "feed_ok ?b (pp_decoded s) g" using assms(1) by (simp add: feed_ok_def waiting_def)
    from feed_all_ok [OF this, of ws] have f: "feed_ok l1 (pp_decoded s) g1" by (simp add: l1_def g1_def)
    moreover have "\<not> vl_configure l1" unfolding l1_def by (rule no_configure_flag [OF assms(3)]) simp
    ultimately have "feed_ok (vh_locked (take_packet env s1)) (pp_decoded (take_packet env s1)) g1"
      using feed_take_ok [of s1 g1 env] s1 q1 by simp
    moreover have "t = s1 \<or> t = take_packet env s1" using False 4 by (simp add: t_def Pump_def Let_def s1_def l1_def)
    ultimately show ?thesis using f s1 g1 by auto
  qed
qed

text \<open>Painting does not touch the order.\<close>

lemma paint_decoded: "pp_decoded (Paint env p s) = pp_decoded s"
  by (simp add: Paint_def Program_def Let_def)

lemma picture_decoded: "pp_decoded (Picture r env p s) = pp_decoded s"
  by (simp add: Picture_def Let_def paint_decoded)

lemma painted_decoded: "pp_decoded (Painted r env s) = pp_decoded s"
  by (simp add: Painted_def Let_def paint_decoded)

lemma feed_calm: "feed_ok (vh_locked s) (pp_decoded s) g \<Longrightarrow> calm s t \<Longrightarrow> pp_decoded t = pp_decoded s \<Longrightarrow> feed_ok (vh_locked t) (pp_decoded t) g"
proof -
  assume f: "feed_ok (vh_locked s) (pp_decoded s) g" and c: "calm s t" and d: "pp_decoded t = pp_decoded s"
  have "feed_ok (locked_error (vh_locked s)) (pp_decoded s) g" using f by (simp add: feed_ok_def locked_error_def)
  moreover have "vh_locked t = vh_locked s \<or> vh_locked t = locked_error (vh_locked s)" using c by (simp add: calm_def)
  ultimately show ?thesis using f d by (elim disjE) simp_all
qed

lemma feed_inv: "video_feed no_configure s g \<Longrightarrow> feed_ok (vh_locked s) (pp_decoded s) g"
proof (induction rule: video_feed.induct)
  case feed_init
  show ?case by (simp add: feed_ok_def video_host_init_def locked_init_def waiting_def)
next
  case (feed_enable s g on)
  show ?case by (simp add: locked_def Enable_def) (simp add: feed_ok_def)
next
  case (feed_work s g w)
  then show ?case using feed_work_ok by (simp add: locked_def)
next
  case (feed_pump s g ws env)
  let ?s = "locked (\<lambda>l. l\<lparr>pp_pumps := pp_pumps l - 1\<rparr>) s"
  have "feed_ok (vh_locked ?s) (pp_decoded ?s) g" using feed_pump.IH by (simp add: locked_def feed_ok_def waiting_def)
  moreover have "queue_ok (vh_locked ?s)" using host_invD(4) [OF reachable_inv [OF feed_reachable [OF feed_pump.hyps(1)]]]
    by (simp add: locked_def queue_ok_def queue_size_def)
  ultimately show ?case using feed_pump_ok [of ?s g ws env] feed_pump.hyps(3) by (simp add: locked_def)
next
  case (feed_initialized s g ws r env)
  note q = host_invD(4) [OF reachable_inv [OF feed_reachable [OF feed_initialized.hyps(1)]]]
  let ?s = "get_picture ((s\<lparr>pp_init := False, pp_decoder := True\<rparr>)\<lparr>vh_ready := True\<rparr>)"
  have "feed_ok (vh_locked ?s) (pp_decoded ?s) g" using feed_initialized.IH by simp
  then have "feed_ok (vh_locked (Pump env ws ?s)) (pp_decoded (Pump env ws ?s)) (given_pump ws (vh_locked s) g)"
    using feed_pump_ok [of ?s g ws env] q feed_initialized.hyps(3) by simp
  moreover have "feed_ok (locked_error (vh_locked s)) (pp_decoded s) g" using feed_initialized.IH by (simp add: feed_ok_def locked_error_def)
  ultimately show ?case by (simp add: Initialized_def)
next
  case (feed_decoded s g r ws env)
  note q = host_invD(4) [OF reachable_inv [OF feed_reachable [OF feed_decoded.hyps(1)]]]
  let ?s = "(s\<lparr>pp_decode := False\<rparr>)\<lparr>vh_decoding := False\<rparr>"
  have "feed_ok (vh_locked (Pump env ws ?s)) (pp_decoded (Pump env ws ?s)) (given_pump ws (vh_locked s) g)"
    using feed_pump_ok [of ?s g ws env] q feed_decoded by simp
  moreover have "feed_ok (locked_error (vh_locked s)) (pp_decoded s) g" using feed_decoded.IH by (simp add: feed_ok_def locked_error_def)
  ultimately show ?case using feed_decoded.hyps(3) by (simp add: Decoded_def Let_def)
next
  case (feed_picture s g r env p)
  then show ?case by (intro feed_calm [OF feed_picture.IH] calm_trans [OF _ picture_calm]) (simp_all add: calm_def picture_decoded)
next
  case (feed_no_picture s g r env p)
  then show ?case by (intro feed_calm [OF feed_no_picture.IH] calm_trans [OF _ picture_calm]) (simp_all add: calm_def picture_decoded)
next
  case (feed_painted s g r env)
  then show ?case by (intro feed_calm [OF feed_painted.IH] calm_trans [OF _ painted_calm]) (simp_all add: calm_def painted_decoded)
next
  case (feed_shutdown s g)
  then show ?case by (simp add: ShutdownVideo_def) (simp add: locked_def feed_ok_def)
qed

section \<open>Properties\<close>


text \<open>A run: the video is switched on, a configuration starts the decoder and goes to it.\<close>

definition sample_pepper :: pepper where
  "sample_pepper = \<lparr>pe_ticks = 1, pe_gl = True, pe_graphics = True, pe_decoder = True, pe_program = 1, pe_linked = True, pe_gl_error = False\<rparr>"

definition pump_now :: "video_host \<Rightarrow> video_host" where
  "pump_now s = Pump sample_pepper [] (locked (\<lambda>l. l\<lparr>pp_pumps := pp_pumps l - 1\<rparr>) s)"

definition init_now :: "video_host \<Rightarrow> video_host" where
  "init_now s = Initialized PP_OK sample_pepper [] (s\<lparr>pp_init := False, pp_decoder := (PP_OK = PP_OK)\<rparr>)"

definition host_on :: video_host where
  "host_on = pump_now (locked (Enable True) video_host_init)"

definition host_starting :: video_host where
  "host_starting = pump_now (locked (work (WConfigure True (Some [1]))) host_on)"

definition host_running :: video_host where
  "host_running = init_now host_starting"

lemmas run_defs = pump_now_def init_now_def Pump_def Initialized_def Decoded_def Enable_def Configure_def Frame_def PostLocked_def work_def
  locked_def locked_init_def sample_pepper_def PP_OK_def PP_ERROR_ABORTED_def start_decoder_def take_packet_def submit_def decode_call_def Let_def

lemma host_on_fields: "vh_locked host_on = locked_init\<lparr>vl_enabled := True\<rparr>"
  by (simp add: host_on_def video_host_init_def run_defs)

lemma host_starting_fields: "vh_locked host_starting = locked_init\<lparr>vl_enabled := True, vl_config := [1]\<rparr>" "pp_init host_starting"
    "pp_decoded host_starting = []" "\<not> vh_decoding host_starting"
  by (simp_all add: host_starting_def run_defs host_on_fields, simp_all add: CloseDecoder_def Message_def)

lemma host_running_fields: "vh_locked host_running = locked_init\<lparr>vl_enabled := True\<rparr>" "pp_decode host_running" "vh_ready host_running"
    "pp_decoded host_running = [[1]]"
  by (simp_all add: host_running_def host_starting_fields run_defs get_picture_def)

lemma feed_pump_now:
  assumes "video_feed P s g" "0 < pp_pumps (vh_locked s)" "P []"
  shows "video_feed P (pump_now s) g"
  using feed_pump [OF assms, of sample_pepper] by (simp add: pump_now_def given_pump_def split: if_splits)

lemma feed_init_now:
  assumes "video_feed P s g" "pp_init s" "P []"
  shows "video_feed P (init_now s) g"
  using feed_initialized [OF assms, of PP_OK sample_pepper] by (simp add: init_now_def given_pump_def split: if_splits)

lemma host_on_feed: "video_feed P host_on []" if "P []"
  unfolding host_on_def
  by (rule feed_pump_now [OF feed_enable [OF feed_init]]) (simp_all add: that run_defs video_host_init_def)

lemma host_starting_feed: "video_feed P host_starting [[1]]" if "P []"
proof -
  have "video_feed P (locked (work (WConfigure True (Some [1]))) host_on) (given_work (WConfigure True (Some [1])) (vh_locked host_on) [])"
    by (rule feed_work) (rule host_on_feed, rule that)
  then have "video_feed P (locked (work (WConfigure True (Some [1]))) host_on) [[1]]"
    by (simp add: given_work_def host_on_fields locked_init_def)
  then show ?thesis unfolding host_starting_def by (rule feed_pump_now) (simp_all add: that run_defs host_on_fields)
qed

lemma host_running_feed: "video_feed P host_running [[1]]" if "P []"
  unfolding host_running_def by (rule feed_init_now [OF host_starting_feed]) (simp_all add: that host_starting_fields)




text \<open>The run of the finding: a new configuration arrives between the two times the pump of a finished packet
  holds the mutex, so that the pump hands it to the old decoder; the new decoder starts without it.\<close>

definition host_raced :: video_host where
  "host_raced = Decoded PP_OK sample_pepper [WConfigure True (Some [2])] (host_running\<lparr>pp_decode := False\<rparr>)"

definition host_restarted :: video_host where
  "host_restarted = init_now (pump_now host_raced)"

definition host_unconfigured :: video_host where
  "host_unconfigured = pump_now (locked (work (WFrame True True 1 (Some [3]))) host_restarted)"

lemma host_raced_fields: "vh_locked host_raced = locked_init\<lparr>vl_enabled := True, vl_posted := True, vl_configure := True, pp_pumps := 1\<rparr>"
    "pp_decoded host_raced = [[1], [2]]"
  by (simp_all add: host_raced_def host_running_fields run_defs)

lemma host_restarting_fields: "vh_locked (pump_now host_raced) = locked_init\<lparr>vl_enabled := True\<rparr>" "pp_init (pump_now host_raced)"
    "pp_decoded (pump_now host_raced) = []" "\<not> vh_decoding (pump_now host_raced)"
  by (simp_all add: host_raced_fields run_defs, simp_all add: CloseDecoder_def Message_def)

lemma host_restarted_fields: "vh_locked host_restarted = locked_init\<lparr>vl_enabled := True\<rparr>" "vh_ready host_restarted" "\<not> vh_decoding host_restarted"
    "pp_decoded host_restarted = []"
  using host_restarting_fields by (simp_all add: host_restarted_def init_now_def Initialized_def Pump_def Let_def take_packet_def PP_OK_def get_picture_def locked_init_def)

lemma host_unconfigured_fields: "vh_locked host_unconfigured = locked_init\<lparr>vl_enabled := True\<rparr>" "vh_ready host_unconfigured"
    "pp_decoded host_unconfigured = [[3]]"
  by (simp_all add: host_unconfigured_def host_restarted_fields run_defs)

text \<open>C34: without that condition the order is lost: there is a run in which the video is on,
  has not failed and is ready, the receiver has handed over a configuration and a frame, and the decoder
  was given the frame alone, while nothing waits.\<close>

theorem video_host_race:
  "\<exists>s. video_feed (\<lambda>ws. True) s [[2], [3]] \<and> vl_enabled (vh_locked s) \<and> \<not> vl_closing (vh_locked s) \<and> \<not> vl_failed (vh_locked s) \<and>
     \<not> vl_reset (vh_locked s) \<and> \<not> vl_configure (vh_locked s) \<and> vh_ready s \<and> pp_decoded s = [[3]] \<and> waiting (vh_locked s) = []"
proof -
  let ?P = "\<lambda>ws :: worker_op list. True"
  have "video_feed ?P host_raced (if PP_OK = PP_OK then given_pump [WConfigure True (Some [2])] (vh_locked host_running) [[1]] else [[1]])"
    unfolding host_raced_def by (rule feed_decoded [OF host_running_feed]) (simp_all add: host_running_fields PP_OK_def PP_ERROR_ABORTED_def)
  then have "video_feed ?P host_raced [[2]]" by (simp add: given_pump_def given_work_def host_running_fields locked_init_def)
  then have "video_feed ?P (pump_now host_raced) [[2]]" by (rule feed_pump_now) (simp_all add: host_raced_fields locked_init_def)
  then have "video_feed ?P host_restarted [[2]]" unfolding host_restarted_def by (rule feed_init_now) (simp_all add: host_restarting_fields)
  from feed_work [OF this, of "WFrame True True 1 (Some [3])"] have "video_feed ?P (locked (work (WFrame True True 1 (Some [3]))) host_restarted) [[2], [3]]"
    by (simp add: given_work_def host_restarted_fields run_defs)
  then have "video_feed ?P host_unconfigured [[2], [3]]"
    unfolding host_unconfigured_def by (rule feed_pump_now) (simp_all add: run_defs host_restarted_fields)
  then show ?thesis using host_unconfigured_fields by (intro exI [of _ host_unconfigured]) (simp add: locked_init_def waiting_def)
qed

lemma div_between: "0 < (b :: int) \<Longrightarrow> a div b * b \<le> a \<and> a < (a div b + 1) * b"
proof -
  assume b: "0 < b"
  have "a div b * b + a mod b = a" "(a div b + 1) * b = a div b * b + b" by (simp_all add: distrib_right)
  then show ?thesis using pos_mod_sign [OF b, of a] pos_mod_bound [OF b, of a] by linarith
qed

text \<open>A picture of any size is shown inside the screen, in its middle and with one side of the
  screen filled, and its proportions are kept to within one pixel.\<close>

theorem video_viewport:
  assumes "0 < width" "0 < height" "viewport width height = (x, y, w, h)"
  shows "0 \<le> x \<and> 0 \<le> y \<and> x + w \<le> 1920 \<and> y + h \<le> 1080 \<and> \<bar>(1920 - w) - 2 * x\<bar> \<le> 1 \<and> \<bar>(1080 - h) - 2 * y\<bar> \<le> 1 \<and>
    (if w = 1920 then h * width \<le> 1920 * height \<and> 1920 * height < (h + 1) * width
     else h = 1080 \<and> w * height \<le> 1080 * width \<and> 1080 * width < (w + 1) * height)"
proof (cases "width * 1080 < 1920 * height")
  case True
  then have e: "w = 1080 * width div height" "h = 1080" "x = (1920 - w) div 2" "y = 0" using assms(3) by (auto simp: viewport_def Let_def)
  have "w * height \<le> 1080 * width" "1080 * width < (w + 1) * height"
    using div_between [OF assms(2), of "1080 * width"] by (simp_all only: e(1))
  moreover have "0 \<le> w" using assms e(1) by (simp add: pos_imp_zdiv_nonneg_iff)
  moreover from True calculation(1) have "w * height < 1920 * height" by linarith
  then have "w < 1920" using assms(2) by simp
  ultimately show ?thesis using e(2-4) by auto
next
  case False
  then have e: "w = 1920" "h = 1920 * height div width" "x = 0" "y = (1080 - h) div 2" using assms(3) by (auto simp: viewport_def Let_def)
  have b: "h * width \<le> 1920 * height" "1920 * height < (h + 1) * width"
    using div_between [OF assms(1), of "1920 * height"] by (simp_all only: e(2))
  moreover have "0 \<le> h" using assms e(2) by (simp add: pos_imp_zdiv_nonneg_iff)
  moreover have "h * width \<le> 1080 * width" using False b(1) by linarith
  then have "h \<le> 1080" using assms(1) by simp
  ultimately show ?thesis using e(1,3,4) by auto
qed

theorem video_viewport_witness: "viewport 640 480 = (240, 0, 1440, 1080) \<and> (1440 :: int) * 480 \<le> 1080 * 640"
  using video_viewport [of 640 480 240 0 1440 1080] by (simp add: viewport_def)

end
