(* ===== verification/Audio_Output.thy ===== *)
theory Audio_Output
  imports Audio_Queue
begin

text \<open>
  The audio outputs behind \<open>airtizen_audio_open\<close>, \<open>airtizen_audio_write\<close> and \<open>airtizen_audio_close\<close>: the
  device of a Tizen service and the stand-in of a host build (\<open>native/ports/tizen_audio_output.c\<close>), and
  \<open>AudioHost\<close> of the NaCl module (\<open>native/nacl/receiver_module.cc\<close>), whose \<open>Open\<close> waits for the main thread
  to configure Pepper's audio. The outcomes of the platform's calls are parameters.

  All three give what the core relies on, stated once as a locale: only a successful open since the last
  close makes a write succeed. Beyond that the Tizen output never loses a device handle, and an \<open>Open\<close> that
  waits in the NaCl module is always woken; while the device can be configured it plays at the rate that
  was opened, and the last theorem shows what happens after it could not be.
\<close>

section \<open>The Tizen device\<close>

text \<open>\<open>ta_handles\<close> counts the device handles that have been created and not destroyed.\<close>

record tizen_audio =
  g_output :: bool
  g_rate :: int
  g_channels :: int
  g_bits :: int
  ta_handles :: nat

definition tizen_audio_init :: tizen_audio where
  "tizen_audio_init = \<lparr>g_output = False, g_rate = 0, g_channels = 0, g_bits = 0, ta_handles = 0\<rparr>"

definition tizen_audio_close :: "tizen_audio \<Rightarrow> tizen_audio" where
  "tizen_audio_close s = (if \<not> g_output s then s else s\<lparr>ta_handles := ta_handles s - 1, g_output := False\<rparr>)"

text \<open>The results of \<open>audio_out_create_new\<close> and \<open>audio_out_prepare\<close>.\<close>

definition tizen_audio_open :: "int \<times> int \<Rightarrow> int \<times> int \<times> int \<Rightarrow> tizen_audio \<Rightarrow> int \<times> tizen_audio" where
  "tizen_audio_open env fmt s =
     (case env of (created, prepared) \<Rightarrow> case fmt of (sample_rate, chans, bits_per_sample) \<Rightarrow>
        if g_output s \<and> sample_rate = g_rate s \<and> chans = g_channels s \<and> bits_per_sample = g_bits s then (0, s)
        else
          let s1 = tizen_audio_close s in
          if chans \<noteq> 1 \<and> chans \<noteq> 2 then (-1, s1)
          else if bits_per_sample \<noteq> 16 then (-2, s1)
          else if created \<noteq> 0 then (created, s1\<lparr>g_output := False\<rparr>)
          else
            let s2 = s1\<lparr>g_output := True, ta_handles := ta_handles s1 + 1\<rparr> in
            if prepared \<noteq> 0 then (prepared, s2\<lparr>ta_handles := ta_handles s2 - 1, g_output := False\<rparr>)
            else (0, s2\<lparr>g_rate := sample_rate, g_channels := chans, g_bits := bits_per_sample\<rparr>))"

text \<open>A write, with the result of \<open>audio_out_write\<close>.\<close>

definition tizen_audio_write :: "(byte list option \<times> int) \<Rightarrow> tizen_audio \<Rightarrow> int \<times> tizen_audio" where
  "tizen_audio_write w s = (if \<not> g_output s \<or> fst w = None then (-1, s) else (snd w, s))"

section \<open>The host build\<close>

definition host_audio_open :: "unit \<Rightarrow> int \<times> int \<times> int \<Rightarrow> bool \<Rightarrow> int \<times> bool" where
  "host_audio_open env fmt g_open =
     (case fmt of (sample_rate, chans, bits_per_sample) \<Rightarrow>
        if sample_rate \<le> 0 \<or> (chans \<noteq> 1 \<and> chans \<noteq> 2) \<or> bits_per_sample \<noteq> 16 then (-1, g_open) else (0, True))"

definition host_audio_write :: "byte list option \<Rightarrow> bool \<Rightarrow> int \<times> bool" where
  "host_audio_write pcm g_open = ((case pcm of Some d \<Rightarrow> if g_open then int (length d) else -1 | None \<Rightarrow> -1), g_open)"

definition host_audio_close :: "bool \<Rightarrow> bool" where
  "host_audio_close g_open = False"

section \<open>The NaCl module\<close>

text \<open>Pepper's audio resource: its rate and whether it plays.\<close>

record pepper_audio =
  pa_rate :: int
  pa_playing :: bool

text \<open>The members of \<open>AudioHost\<close>, with the posted calls of \<open>Configure\<close> and the thread that waits in \<open>Open\<close>.\<close>

record audio_host =
  ah_rate :: int
  ah_channels :: int
  ah_desired :: int
  ah_result :: int
  ah_opened :: bool
  ah_closing :: bool
  ah_pending :: bool
  ah_audio :: "pepper_audio option"
  ah_queue :: airtizen_audio_queue
  ah_posted :: nat
  ah_waiting :: "(int \<times> int) option"

definition audio_host_init :: audio_host where
  "audio_host_init = \<lparr>ah_rate = 0, ah_channels = 0, ah_desired = 0, ah_result = -1, ah_opened = False, ah_closing = False,
     ah_pending = False, ah_audio = None, ah_queue = airtizen_audio_queue_init, ah_posted = 0, ah_waiting = None\<rparr>"

definition finish_open :: "int \<Rightarrow> audio_host \<Rightarrow> int option \<times> audio_host" where
  "finish_open chans s = (Some 0, s\<lparr>ah_channels := chans, ah_opened := True, ah_queue := airtizen_audio_queue_open (ah_queue s) (of_int chans)\<rparr>)"

text \<open>\<open>Open\<close> until it returns or waits (no result), and from there on.\<close>

definition OpenAudio :: "int \<Rightarrow> int \<Rightarrow> int \<Rightarrow> audio_host \<Rightarrow> int option \<times> audio_host" where
  "OpenAudio r chans bits s =
     (if (r \<noteq> 44100 \<and> r \<noteq> 48000) \<or> (chans \<noteq> 1 \<and> chans \<noteq> 2) \<or> bits \<noteq> 16 then (Some (-1), s)
      else if ah_closing s then (Some (-1), s)
      else if ah_opened s \<and> r = ah_rate s \<and> chans = ah_channels s then (Some 0, s)
      else if r \<noteq> ah_rate s \<or> ah_audio s = None then
        (None, s\<lparr>ah_desired := r, ah_pending := True, ah_posted := ah_posted s + 1, ah_waiting := Some (r, chans)\<rparr>)
      else finish_open chans s)"

definition ResumeOpen :: "audio_host \<Rightarrow> int option \<times> audio_host" where
  "ResumeOpen s =
     (case ah_waiting s of
        None \<Rightarrow> (None, s)
      | Some (r, chans) \<Rightarrow>
          if ah_pending s \<and> \<not> ah_closing s then (None, s)
          else
            let s1 = s\<lparr>ah_waiting := None\<rparr> in
            if ah_closing s \<or> ah_result s \<noteq> 0 then (Some (-1), s1) else finish_open chans s1)"

text \<open>On the main thread: whether there is an audio resource and whether it starts.\<close>

definition ConfigureAudio :: "bool \<times> bool \<Rightarrow> audio_host \<Rightarrow> audio_host" where
  "ConfigureAudio env s =
     (if ah_closing s then s
      else
        let audio = (if fst env then Some \<lparr>pa_rate = ah_desired s, pa_playing = snd env\<rparr> else None);
            result = (if fst env \<and> snd env then 0 else -1)
        in s\<lparr>ah_audio := audio, ah_result := result, ah_rate := (if result = 0 then ah_desired s else ah_rate s), ah_pending := False\<rparr>)"

definition WriteAudio :: "byte list option \<Rightarrow> audio_host \<Rightarrow> (int \<times> audio_host) option" where
  "WriteAudio pcm s = map_option (\<lambda>(rc, q). (rc, s\<lparr>ah_queue := q\<rparr>)) (airtizen_audio_queue_write (ah_queue s) pcm)"

definition CloseAudio :: "audio_host \<Rightarrow> audio_host" where
  "CloseAudio s = s\<lparr>ah_opened := False, ah_queue := airtizen_audio_queue_close (ah_queue s)\<rparr>"

definition RenderAudio :: "nat \<Rightarrow> audio_host \<Rightarrow> (byte list \<times> audio_host) option" where
  "RenderAudio n s = map_option (\<lambda>(out, q). (out, s\<lparr>ah_queue := q\<rparr>)) (airtizen_audio_queue_render (ah_queue s) n)"

definition ShutdownAudio :: "audio_host \<Rightarrow> audio_host" where
  "ShutdownAudio s = s\<lparr>ah_closing := True, ah_pending := False, ah_posted := 0, ah_audio := None, ah_queue := airtizen_audio_queue_close (ah_queue s)\<rparr>"

text \<open>The steps of the threads. \<open>may_fail\<close> tells whether the device can refuse a configuration.\<close>

inductive audio_step :: "bool \<Rightarrow> audio_host \<Rightarrow> audio_host \<Rightarrow> bool" for may_fail where
  audio_open: "ah_waiting s = None \<Longrightarrow> audio_step may_fail s (snd (OpenAudio r chans bits s))"
| audio_resume: "audio_step may_fail s (snd (ResumeOpen s))"
| audio_configure: "0 < ah_posted s \<Longrightarrow> may_fail \<or> env = (True, True) \<Longrightarrow> audio_step may_fail s (ConfigureAudio env (s\<lparr>ah_posted := ah_posted s - 1\<rparr>))"
| audio_write: "WriteAudio pcm s = Some (rc, s') \<Longrightarrow> audio_step may_fail s s'"
| audio_close: "audio_step may_fail s (CloseAudio s)"
| audio_render: "RenderAudio n s = Some (out, s') \<Longrightarrow> audio_step may_fail s s'"
| audio_shutdown: "audio_step may_fail s (ShutdownAudio s)"

inductive audio_reachable :: "bool \<Rightarrow> audio_host \<Rightarrow> bool" for may_fail where
  audio_init: "audio_reachable may_fail audio_host_init"
| audio_next: "audio_reachable may_fail s \<Longrightarrow> audio_step may_fail s s' \<Longrightarrow> audio_reachable may_fail s'"

text \<open>\<open>Open\<close> with the main thread free to run.\<close>

definition nacl_audio_open :: "bool \<times> bool \<Rightarrow> int \<times> int \<times> int \<Rightarrow> audio_host \<Rightarrow> int \<times> audio_host" where
  "nacl_audio_open env fmt s =
     (case fmt of (r, chans, bits) \<Rightarrow>
        (case OpenAudio r chans bits s of
           (Some rc, s1) \<Rightarrow> (rc, s1)
         | (None, s1) \<Rightarrow>
             (case ResumeOpen (ConfigureAudio env (s1\<lparr>ah_posted := ah_posted s1 - 1\<rparr>)) of (rc, s2) \<Rightarrow> (the rc, s2))))"

section \<open>The contract\<close>

text \<open>What an output promises: a successful open opens it, a failed one does not, a close closes it, and a
  closed output refuses every write.\<close>

datatype ('e, 'w) audio_act = OpenAct 'e "int \<times> int \<times> int" | WriteAct 'w | CloseAct

locale audio_output =
  fixes init :: 's
    and inv :: "'s \<Rightarrow> bool"
    and is_open :: "'s \<Rightarrow> bool"
    and open_out :: "'e \<Rightarrow> int \<times> int \<times> int \<Rightarrow> 's \<Rightarrow> int \<times> 's"
    and write_out :: "'w \<Rightarrow> 's \<Rightarrow> int \<times> 's"
    and close_out :: "'s \<Rightarrow> 's"
  assumes init_ok: "inv init \<and> \<not> is_open init"
    and open_ok: "inv s \<Longrightarrow> open_out e fmt s = (rc, s') \<Longrightarrow> inv s' \<and> (rc = 0 \<longrightarrow> is_open s') \<and> (rc \<noteq> 0 \<longrightarrow> is_open s' \<longrightarrow> is_open s)"
    and write_ok: "inv s \<Longrightarrow> write_out w s = (rc, s') \<Longrightarrow> inv s' \<and> is_open s' = is_open s \<and> (\<not> is_open s \<longrightarrow> rc < 0)"
    and close_ok: "inv s \<Longrightarrow> inv (close_out s) \<and> \<not> is_open (close_out s)"
begin

fun act :: "('e, 'w) audio_act \<Rightarrow> 's \<Rightarrow> 's" where
  "act (OpenAct e fmt) s = snd (open_out e fmt s)"
| "act (WriteAct w) s = snd (write_out w s)"
| "act CloseAct s = close_out s"

lemma acts_inv: "inv (fold act acts init)"
proof (induction acts rule: rev_induct)
  case (snoc a acts)
  then show ?case
    by (cases a) (auto simp: close_ok dest: open_ok [OF _ prod.collapse [symmetric]] write_ok [OF _ prod.collapse [symmetric]])
qed (simp add: init_ok)

lemma act_opens:
  assumes "inv s" "is_open (act a s)"
  shows "is_open s \<and> a \<noteq> CloseAct \<or> (\<exists>e fmt. a = OpenAct e fmt \<and> fst (open_out e fmt s) = 0)"
proof (cases a)
  case (OpenAct e fmt)
  obtain rc s' where o: "open_out e fmt s = (rc, s')" by (cases "open_out e fmt s")
  from open_ok [OF assms(1) this] show ?thesis using assms(2) o OpenAct by auto
next
  case (WriteAct w)
  obtain rc s' where o: "write_out w s = (rc, s')" by (cases "write_out w s")
  from write_ok [OF assms(1) this] show ?thesis using assms(2) o WriteAct by auto
next
  case CloseAct
  then show ?thesis using close_ok [OF assms(1)] assms(2) by simp
qed

lemma open_since_close:
  "is_open (fold act acts init) \<Longrightarrow>
   \<exists>before e fmt since. acts = before @ OpenAct e fmt # since \<and> CloseAct \<notin> set since \<and> fst (open_out e fmt (fold act before init)) = 0"
proof (induction acts rule: rev_induct)
  case Nil
  then show ?case using init_ok by simp
next
  case (snoc a acts)
  from snoc.prems have "is_open (act a (fold act acts init))" by simp
  from act_opens [OF acts_inv this] show ?case
  proof
    assume o: "is_open (fold act acts init) \<and> a \<noteq> CloseAct"
    then obtain before e fmt since where "acts = before @ OpenAct e fmt # since" "CloseAct \<notin> set since"
      "fst (open_out e fmt (fold act before init)) = 0" using snoc.IH by blast
    then show ?thesis using o by (intro exI [of _ before] exI [of _ e] exI [of _ fmt] exI [of _ "since @ [a]"]) auto
  next
    assume "\<exists>e fmt. a = OpenAct e fmt \<and> fst (open_out e fmt (fold act acts init)) = 0"
    then obtain e fmt where "a = OpenAct e fmt" "fst (open_out e fmt (fold act acts init)) = 0" by blast
    then show ?thesis by (intro exI [of _ acts] exI [of _ e] exI [of _ fmt] exI [of _ "[]"]) simp
  qed
qed

lemma write_needs_open:
  assumes "0 \<le> fst (write_out w (fold act acts init))"
  shows "\<exists>before e fmt since. acts = before @ OpenAct e fmt # since \<and> CloseAct \<notin> set since \<and> fst (open_out e fmt (fold act before init)) = 0"
proof -
  obtain rc s' where "write_out w (fold act acts init) = (rc, s')" by (cases "write_out w (fold act acts init)")
  from write_ok [OF acts_inv this] this assms show ?thesis by (intro open_since_close) auto
qed

end

text \<open>The host build.\<close>

interpretation host_audio: audio_output False "\<lambda>s. True" "\<lambda>s. s" host_audio_open host_audio_write host_audio_close
  by unfold_locales (auto simp: host_audio_open_def host_audio_write_def host_audio_close_def split: if_splits option.splits prod.splits)

text \<open>The Tizen device: there is a handle exactly while the output is set.\<close>

definition tizen_inv :: "tizen_audio \<Rightarrow> bool" where
  "tizen_inv s \<longleftrightarrow> ta_handles s = (if g_output s then 1 else 0)"

interpretation tizen: audio_output tizen_audio_init tizen_inv g_output tizen_audio_open tizen_audio_write tizen_audio_close
  by unfold_locales (auto simp: tizen_inv_def tizen_audio_init_def tizen_audio_open_def tizen_audio_write_def tizen_audio_close_def Let_def
      split: if_splits prod.splits)

text \<open>The NaCl module. An \<open>Open\<close> that waits has been configured or has its call posted.\<close>

definition audio_inv :: "audio_host \<Rightarrow> bool" where
  "audio_inv s \<longleftrightarrow> queue_inv (ah_queue s) \<and>
     (ah_opened s \<and> \<not> ah_closing s \<longrightarrow> open_q (ah_queue s) \<and> channels (ah_queue s) = of_int (ah_channels s)) \<and>
     (\<forall>r chans. ah_waiting s = Some (r, chans) \<longrightarrow> (chans = 1 \<or> chans = 2) \<and> (ah_closing s \<or> \<not> ah_pending s \<or> 0 < ah_posted s))"

text \<open>While the device accepts every configuration it plays at the rate that was opened.\<close>

definition playing_inv :: "audio_host \<Rightarrow> bool" where
  "playing_inv s \<longleftrightarrow> \<not> ah_closing s \<longrightarrow>
     (case ah_audio s of None \<Rightarrow> ah_rate s = 0 \<and> \<not> ah_opened s | Some d \<Rightarrow> pa_playing d \<and> pa_rate d = ah_rate s) \<and>
     (\<forall>r chans. ah_waiting s = Some (r, chans) \<longrightarrow> ah_desired s = r \<and> (\<not> ah_pending s \<longrightarrow> ah_audio s \<noteq> None \<and> ah_rate s = r))"

lemma queue_open_inv: "queue_inv q \<Longrightarrow> queue_inv (airtizen_audio_queue_open q ch)" "queue_inv q \<Longrightarrow> queue_inv (airtizen_audio_queue_close q)"
  by (auto simp: queue_inv_def airtizen_audio_queue_open_def airtizen_audio_queue_close_def)

lemma queue_open_opens: "chans = 1 \<or> chans = 2 \<Longrightarrow> open_q (airtizen_audio_queue_open q (of_int chans)) \<and> channels (airtizen_audio_queue_open q (of_int chans)) = of_int chans"
  by (auto simp: airtizen_audio_queue_open_def)

text \<open>Writing and rendering neither open nor close the queue.\<close>

lemma write_keeps:
  assumes "queue_inv q" "airtizen_audio_queue_write q pcm = Some (rc, q')"
  shows "queue_inv q' \<and> open_q q' = open_q q \<and> channels q' = channels q \<and> (\<not> open_q q \<longrightarrow> rc = -1)"
  using write_total [OF assms(1), of pcm] assms(2)
  by (auto simp: airtizen_audio_queue_write_def Let_def bind_eq_Some_conv split: option.splits if_splits)

lemma render_keeps:
  assumes "queue_inv q" "airtizen_audio_queue_render q n = Some (out, q')"
  shows "queue_inv q' \<and> open_q q' = open_q q \<and> channels q' = channels q"
  using render_total [OF assms(1), of n] assms(2)
  by (auto simp: airtizen_audio_queue_render_def Let_def bind_eq_Some_conv split: if_splits)

lemma finish_open_inv:
  "audio_inv s \<Longrightarrow> chans = 1 \<or> chans = 2 \<Longrightarrow> audio_inv (snd (finish_open chans s))"
  by (auto simp: audio_inv_def finish_open_def queue_open_inv queue_open_opens)

lemma open_audio_inv: "audio_inv s \<Longrightarrow> audio_inv (snd (OpenAudio r chans bits s))"
  using finish_open_inv [of s chans] by (auto simp: OpenAudio_def) (auto simp: audio_inv_def)

lemma resume_audio_inv:
  assumes "audio_inv s"
  shows "audio_inv (snd (ResumeOpen s))"
proof (cases "ah_waiting s")
  case (Some w)
  obtain r chans where w: "w = (r, chans)" by (cases w)
  have "audio_inv (s\<lparr>ah_waiting := None\<rparr>)" "chans = 1 \<or> chans = 2" using assms Some w by (auto simp: audio_inv_def)
  then show ?thesis using assms Some w finish_open_inv by (simp add: ResumeOpen_def Let_def)
qed (use assms in \<open>simp add: ResumeOpen_def\<close>)

lemma audio_step_inv: "audio_step may_fail s s' \<Longrightarrow> audio_inv s \<Longrightarrow> audio_inv s'"
proof (induction rule: audio_step.induct)
  case (audio_configure s env)
  then show ?case by (auto simp: ConfigureAudio_def Let_def audio_inv_def)
next
  case (audio_write pcm s rc s')
  then show ?case using write_keeps by (auto simp: WriteAudio_def audio_inv_def)
next
  case (audio_render n s out s')
  then show ?case using render_keeps by (auto simp: RenderAudio_def audio_inv_def)
next
  case (audio_close s)
  then show ?case by (auto simp: CloseAudio_def audio_inv_def queue_open_inv)
next
  case (audio_shutdown s)
  then show ?case by (auto simp: ShutdownAudio_def audio_inv_def queue_open_inv)
qed (auto intro: open_audio_inv resume_audio_inv)

lemma audio_init_inv: "audio_inv audio_host_init"
  using queue.run_inv [of "[]"] by (simp add: audio_inv_def audio_host_init_def)

lemma audio_reachable_inv: "audio_reachable may_fail s \<Longrightarrow> audio_inv s"
  by (induction rule: audio_reachable.induct) (auto intro: audio_init_inv audio_step_inv)

lemma audio_step_playing: "audio_step False s s' \<Longrightarrow> audio_inv s \<Longrightarrow> playing_inv s \<Longrightarrow> playing_inv s'"
proof (induction rule: audio_step.induct)
  case (audio_open s r chans bits)
  then show ?case by (auto simp: OpenAudio_def finish_open_def playing_inv_def split: option.splits)
next
  case (audio_resume s)
  then show ?case by (auto simp: ResumeOpen_def finish_open_def playing_inv_def Let_def split: option.splits)
next
  case (audio_configure s env)
  then show ?case by (auto simp: ConfigureAudio_def Let_def playing_inv_def)
next
  case (audio_write pcm s rc s')
  then show ?case by (auto simp: WriteAudio_def playing_inv_def split: option.splits)
next
  case (audio_close s)
  then show ?case by (auto simp: CloseAudio_def playing_inv_def split: option.splits)
next
  case (audio_render n s out s')
  then show ?case by (auto simp: RenderAudio_def playing_inv_def split: option.splits)
next
  case (audio_shutdown s)
  then show ?case by (simp add: ShutdownAudio_def playing_inv_def)
qed

lemma audio_reachable_playing: "audio_reachable False s \<Longrightarrow> playing_inv s"
proof (induction rule: audio_reachable.induct)
  case audio_init
  show ?case by (simp add: playing_inv_def audio_host_init_def)
next
  case (audio_next s s')
  then show ?case using audio_step_playing audio_reachable_inv by blast
qed

definition nacl_audio_write :: "byte list option \<Rightarrow> audio_host \<Rightarrow> int \<times> audio_host" where
  "nacl_audio_write pcm s = the (WriteAudio pcm s)"

definition nacl_inv :: "audio_host \<Rightarrow> bool" where
  "nacl_inv s \<longleftrightarrow> audio_inv s \<and> ah_waiting s = None \<and> \<not> ah_closing s"

lemma nacl_open_spec:
  assumes "nacl_inv s" "nacl_audio_open env (r, chans, bits) s = (rc, s')"
  shows "nacl_inv s' \<and> (if rc = 0 then open_q (ah_queue s') else ah_queue s' = ah_queue s)"
proof -
  have a: "audio_inv s" "ah_waiting s = None" "\<not> ah_closing s" using assms(1) by (simp_all add: nacl_inv_def)
  obtain r1 s1 where o: "OpenAudio r chans bits s = (r1, s1)" by (cases "OpenAudio r chans bits s")
  have s1: "audio_inv s1" using open_audio_inv [OF a(1), of r chans bits] o by simp
  show ?thesis
  proof (cases r1)
    case (Some c)
    then have "rc = c" "s' = s1" using assms(2) o by (simp_all add: nacl_audio_open_def)
    then show ?thesis using o s1 a Some
      by (auto simp: OpenAudio_def finish_open_def nacl_inv_def audio_inv_def queue_open_opens split: if_splits)
  next
    case None
    then have w: "s1 = s\<lparr>ah_desired := r, ah_pending := True, ah_posted := ah_posted s + 1, ah_waiting := Some (r, chans)\<rparr>" "chans = 1 \<or> chans = 2"
      using o by (auto simp: OpenAudio_def finish_open_def split: if_splits)
    let ?c = "ConfigureAudio env (s1\<lparr>ah_posted := ah_posted s1 - 1\<rparr>)"
    have c: "ah_waiting ?c = Some (r, chans)" "\<not> ah_pending ?c" "\<not> ah_closing ?c" "ah_queue ?c = ah_queue s"
      using a(3) by (simp_all add: w ConfigureAudio_def Let_def)
    have "audio_inv ?c" by (rule audio_step_inv [OF audio_configure s1, of True]) (simp_all add: w)
    then have i: "audio_inv (snd (ResumeOpen ?c))" by (rule resume_audio_inv)
    have "(rc, s') = (case ResumeOpen ?c of (v, t) \<Rightarrow> (the v, t))" using assms(2) o None by (simp add: nacl_audio_open_def)
    then show ?thesis using c i w(2)
      by (auto simp: ResumeOpen_def Let_def finish_open_def nacl_inv_def queue_open_opens split: if_splits)
  qed
qed

lemma nacl_write_spec:
  assumes "nacl_inv s" "nacl_audio_write pcm s = (rc, s')"
  shows "nacl_inv s' \<and> open_q (ah_queue s') = open_q (ah_queue s) \<and> (\<not> open_q (ah_queue s) \<longrightarrow> rc = -1)"
proof -
  have q: "queue_inv (ah_queue s)" using assms(1) by (simp add: nacl_inv_def audio_inv_def)
  obtain c q' where w: "airtizen_audio_queue_write (ah_queue s) pcm = Some (c, q')" using write_total [OF q, of pcm] by blast
  then have "rc = c" "s' = s\<lparr>ah_queue := q'\<rparr>" using assms(2) by (simp_all add: nacl_audio_write_def WriteAudio_def)
  then show ?thesis using assms(1) write_keeps [OF q w] by (simp add: nacl_inv_def audio_inv_def)
qed

interpretation nacl: audio_output audio_host_init nacl_inv "\<lambda>s. open_q (ah_queue s)" nacl_audio_open nacl_audio_write CloseAudio
proof
  show "nacl_inv audio_host_init \<and> \<not> open_q (ah_queue audio_host_init)"
    using audio_init_inv by (simp add: nacl_inv_def audio_host_init_def airtizen_audio_queue_init_def)
  show "nacl_inv s' \<and> (rc = 0 \<longrightarrow> open_q (ah_queue s')) \<and> (rc \<noteq> 0 \<longrightarrow> open_q (ah_queue s') \<longrightarrow> open_q (ah_queue s))"
    if "nacl_inv s" "nacl_audio_open e fmt s = (rc, s')" for s e fmt rc s'
    using nacl_open_spec [OF that(1), of e "fst fmt" "fst (snd fmt)" "snd (snd fmt)"] that(2) by (auto split: if_splits)
  show "nacl_inv s' \<and> open_q (ah_queue s') = open_q (ah_queue s) \<and> (\<not> open_q (ah_queue s) \<longrightarrow> rc < 0)"
    if "nacl_inv s" "nacl_audio_write w s = (rc, s')" for s w rc s'
    using nacl_write_spec [OF that] by auto
  show "nacl_inv (CloseAudio s) \<and> \<not> open_q (ah_queue (CloseAudio s))" if "nacl_inv s" for s
    using that audio_step_inv [OF audio_close [of True s]]
    by (simp add: nacl_inv_def) (simp add: CloseAudio_def airtizen_audio_queue_close_def)
qed

section \<open>Properties\<close>

text \<open>C35: over every history of opens, writes and closes, whatever the platform answers, a
  write succeeds only after an open that succeeded and was not closed since; on the Tizen device and in the
  NaCl module alike. The Tizen output holds exactly one device handle while it is open and none otherwise,
  so no failed or repeated open loses one.\<close>

theorem audio_write_needs_open:
  shows "ta_handles (fold tizen.act acts tizen_audio_init) = (if g_output (fold tizen.act acts tizen_audio_init) then 1 else 0) \<and>
    (0 \<le> fst (tizen_audio_write w (fold tizen.act acts tizen_audio_init)) \<longrightarrow>
       (\<exists>before e fmt since. acts = before @ OpenAct e fmt # since \<and> CloseAct \<notin> set since \<and>
          fst (tizen_audio_open e fmt (fold tizen.act before tizen_audio_init)) = 0)) \<and>
    (0 \<le> fst (nacl_audio_write pcm (fold nacl.act acts' audio_host_init)) \<longrightarrow>
       (\<exists>before e fmt since. acts' = before @ OpenAct e fmt # since \<and> CloseAct \<notin> set since \<and>
          fst (nacl_audio_open e fmt (fold nacl.act before audio_host_init)) = 0))"
  using tizen.acts_inv [of acts] tizen.write_needs_open [of w acts] nacl.write_needs_open [of pcm acts'] unfolding tizen_inv_def by blast

theorem audio_write_needs_open_witness:
  "ta_handles (fold tizen.act [OpenAct (0, 0) (44100, 2, 16), OpenAct (0, -5) (48000, 2, 16)] tizen_audio_init) = 0 \<and>
   fst (tizen_audio_write (Some [1, 2, 3, 4], 4) (fold tizen.act [OpenAct (0, 0) (44100, 2, 16)] tizen_audio_init)) = 4"
  using audio_write_needs_open [where acts = "[OpenAct (0, 0) (44100, 2, 16), OpenAct (0, -5) (48000, 2, 16)]" and acts' = "[]"]
  by (simp add: tizen_audio_init_def tizen_audio_open_def tizen_audio_close_def tizen_audio_write_def Let_def)


definition host_waiting :: audio_host where
  "host_waiting = snd (OpenAudio 44100 2 16 audio_host_init)"

lemma host_waiting_reachable: "audio_reachable may_fail host_waiting"
  unfolding host_waiting_def by (rule audio_next [OF audio_init audio_open]) (simp add: audio_host_init_def)


text \<open>While the device accepts every configuration, the output that is open plays at the rate
  of its open, with a queue for its channels.\<close>

theorem nacl_audio_plays:
  assumes "audio_reachable False s" "ah_opened s" "\<not> ah_closing s"
  shows "ah_audio s = Some \<lparr>pa_rate = ah_rate s, pa_playing = True\<rparr> \<and> open_q (ah_queue s) \<and> channels (ah_queue s) = of_int (ah_channels s)"
  using audio_reachable_playing [OF assms(1)] audio_reachable_inv [OF assms(1)] assms(2,3)
  by (auto simp: playing_inv_def audio_inv_def split: option.splits)

definition host_playing :: audio_host where
  "host_playing = snd (ResumeOpen (ConfigureAudio (True, True) (host_waiting\<lparr>ah_posted := ah_posted host_waiting - 1\<rparr>)))"

lemma host_playing_reachable: "audio_reachable may_fail host_playing"
  unfolding host_playing_def
  by (rule audio_next [OF audio_next [OF host_waiting_reachable audio_configure] audio_resume]) (simp_all add: host_waiting_def OpenAudio_def audio_host_init_def)

lemmas audio_run_defs = host_playing_def host_waiting_def OpenAudio_def audio_host_init_def ConfigureAudio_def ResumeOpen_def finish_open_def Let_def

theorem nacl_audio_plays_witness: "ah_audio host_playing = Some \<lparr>pa_rate = 44100, pa_playing = True\<rparr>"
  using nacl_audio_plays [OF host_playing_reachable] by (simp add: audio_run_defs)

text \<open>C37: once the device has refused a configuration this is lost: there is a run after which
  an \<open>Open\<close> at the earlier rate succeeds at once, and the samples written are accepted, although the device was
  last configured for the other rate and does not play.\<close>

theorem nacl_audio_stale:
  "\<exists>s s'. audio_reachable True s \<and> \<not> ah_closing s \<and> OpenAudio 44100 2 16 s = (Some 0, s') \<and>
     ah_audio s' = Some \<lparr>pa_rate = 48000, pa_playing = False\<rparr> \<and> open_q (ah_queue s')"
proof -
  define closed where "closed = CloseAudio host_playing"
  define asked where "asked = snd (OpenAudio 48000 2 16 closed)"
  define refused where "refused = ConfigureAudio (True, False) (asked\<lparr>ah_posted := ah_posted asked - 1\<rparr>)"
  define s where "s = snd (ResumeOpen refused)"
  note defs = closed_def asked_def refused_def s_def audio_run_defs CloseAudio_def
  have "audio_reachable True asked" unfolding asked_def closed_def
    by (rule audio_next [OF audio_next [OF host_playing_reachable audio_close] audio_open]) (simp add: audio_run_defs CloseAudio_def)
  then have "audio_reachable True refused" unfolding refused_def by (rule audio_next [OF _ audio_configure]) (simp_all add: defs)
  then have "audio_reachable True s" unfolding s_def by (rule audio_next [OF _ audio_resume])
  moreover define t where "t = s\<lparr>ah_channels := 2, ah_opened := True, ah_queue := airtizen_audio_queue_open (ah_queue s) 2\<rparr>"
  moreover have "OpenAudio 44100 2 16 s = (Some 0, s\<lparr>ah_channels := 2, ah_opened := True, ah_queue := airtizen_audio_queue_open (ah_queue s) 2\<rparr>)"
    "ah_audio s = Some \<lparr>pa_rate = 48000, pa_playing = False\<rparr>" "\<not> ah_closing s"
    by (simp_all add: defs)
  ultimately show ?thesis by (intro exI [of _ s] exI [of _ t]) (simp add: airtizen_audio_queue_open_def)
qed

end
