(* ===== verification/Service.thy ===== *)
theory Service
  imports Control Video_Host Audio_Output
begin

text \<open>
  The two programs around the receiver on a television: the Tizen service
  (\<open>native/src/airtizen_tizen_service.c\<close>) and the instance of the NaCl module
  (\<open>native/nacl/receiver_module.cc\<close>), which owns the audio and the video output. The frameworks that call
  them are sequences of events; the outcomes of their calls are parameters.

  The theory shows that both leave nothing running behind, and that the module never serves the control
  port without the token of the page that embeds it.
\<close>

section \<open>The Tizen service\<close>

definition service_name :: cstring where
  "service_name = str ''AirTizen TV''"

text \<open>Whether the socket of the control server is made and bound and its thread starts.\<close>

type_synonym server_env = "bool \<times> bool \<times> bool"

definition http_start :: "server_env \<Rightarrow> control_module \<Rightarrow> int \<times> control_module" where
  "http_start sv c = airtizen_control_http_start (fst sv) (fst (snd sv)) (snd (snd sv)) 45110 c"

definition on_create :: "'m surroundings \<Rightarrow> server_env \<Rightarrow> control_module \<Rightarrow> 'm runtime \<Rightarrow> (bool \<times> control_module \<times> 'm runtime) option" where
  "on_create su sv c rt =
     (case http_start sv c of
        (rc, c1) \<Rightarrow>
          if rc \<noteq> 0 then Some (False, c1, rt)
          else do { (rc1, rt1) \<leftarrow> airtizen_runtime_start su (Some service_name) rt; Some (rc1 = 0, c1, rt1) })"

definition on_control :: "'m surroundings \<Rightarrow> 'm runtime \<Rightarrow> 'm runtime option" where
  "on_control su rt = map_option snd (airtizen_runtime_start su (Some service_name) rt)"

definition on_terminate :: "'m surroundings \<Rightarrow> control_module \<Rightarrow> 'm runtime \<Rightarrow> (control_module \<times> 'm runtime) option" where
  "on_terminate su c rt = do { rt1 \<leftarrow> airtizen_runtime_stop su rt; Some (airtizen_control_http_stop c, rt1) }"

text \<open>What happens between: the callback of an app control, and what the receiver does.\<close>

datatype 'm service_event = AppControl "'m surroundings" | Receiver "'m runtime_op"

fun service_events :: "'m service_event list \<Rightarrow> 'm runtime \<Rightarrow> 'm runtime option" where
  "service_events [] rt = Some rt"
| "service_events (AppControl su # es) rt = do { rt1 \<leftarrow> on_control su rt; service_events es rt1 }"
| "service_events (Receiver op # es) rt = service_events es (runtime_step op rt)"

text \<open>The framework calls \<open>create\<close>, and when it succeeds the events and \<open>terminate\<close>.\<close>

definition service_app_main ::
  "'m surroundings \<Rightarrow> server_env \<Rightarrow> 'm service_event list \<Rightarrow> control_module \<Rightarrow> 'm runtime \<Rightarrow> (bool \<times> control_module \<times> 'm runtime) option" where
  "service_app_main su sv es c rt = do {
     (ok, c1, rt1) \<leftarrow> on_create su sv c rt;
     if \<not> ok then Some (False, c1, rt1)
     else do { rt2 \<leftarrow> service_events es rt1; (c3, rt3) \<leftarrow> on_terminate su c1 rt2; Some (True, c3, rt3) }
   }"

section \<open>The NaCl instance\<close>

text \<open>The global pointers, the outputs of the instance, its members and the receiver.\<close>

record 'm nacl_module =
  nm_audio_set :: bool
  nm_video_set :: bool
  nm_audio :: audio_host
  nm_video :: video_host
  nm_started :: bool
  nm_name :: cstring
  nm_control :: control_module
  nm_runtime :: "'m runtime"

definition nacl_module_init :: "'m nacl_module" where
  "nacl_module_init = \<lparr>nm_audio_set = False, nm_video_set = False, nm_audio = audio_host_init, nm_video = video_host_init,
     nm_started = False, nm_name = service_name, nm_control = control_init, nm_runtime = runtime_init\<rparr>"

text \<open>The attributes of the embedding element; the last value of a name counts.\<close>

definition attribute :: "cstring \<Rightarrow> cstring \<Rightarrow> (cstring \<times> cstring) list \<Rightarrow> cstring" where
  "attribute name absent args = fold (\<lambda>(n, v) x. if n = name then v else x) args absent"

text \<open>\<open>Init\<close>, with whether the sockets of nacl_io come up and the worker thread starts.\<close>

definition InitInstance :: "(cstring \<times> cstring) list \<Rightarrow> bool \<Rightarrow> bool \<Rightarrow> 'm nacl_module \<Rightarrow> bool \<times> 'm nacl_module" where
  "InitInstance args io_ok thread_ok m =
     (if nm_audio_set m then (False, m)
      else
        let m0 = m\<lparr>nm_name := attribute (str ''receiver-name'') service_name args\<rparr> in
        case airtizen_control_http_set_token (Some (attribute (str ''receiver-token'') [] args)) (nm_control m0) of
          (rc, c) \<Rightarrow>
            let m1 = m0\<lparr>nm_control := c\<rparr> in
            if rc \<noteq> 0 then (False, m1)
            else
              case on_mdns (airtizen_mdns_set_network (Some (attribute (str ''receiver-ip'') [] args)) (Some (attribute (str ''receiver-id'') [] args))) (nm_runtime m1) of
                (rc1, rt1) \<Rightarrow>
                  let m2 = m1\<lparr>nm_runtime := rt1\<rparr> in
                  if rc1 \<noteq> 0 then (False, m2)
                  else
                    case on_mdns (airtizen_discovery_set_profile (Some (str ''native''))) rt1 of
                      (rc2, rt2) \<Rightarrow>
                        let m3 = m2\<lparr>nm_runtime := rt2\<rparr> in
                        if rc2 \<noteq> 0 \<or> \<not> io_ok then (False, m3)
                        else if \<not> thread_ok then (False, m3\<lparr>nm_audio_set := False, nm_video_set := True\<rparr>)
                        else (True, m3\<lparr>nm_audio_set := True, nm_video_set := True, nm_started := True\<rparr>))"

text \<open>The worker.\<close>

definition StartWorker :: "'m surroundings \<Rightarrow> server_env \<Rightarrow> 'm nacl_module \<Rightarrow> 'm nacl_module option" where
  "StartWorker su sv m =
     (case http_start sv (nm_control m) of
        (rc, c) \<Rightarrow>
          if rc \<noteq> 0 then Some (m\<lparr>nm_control := c\<rparr>)
          else do { (_, rt) \<leftarrow> airtizen_runtime_start su (Some (nm_name m)) (nm_runtime m); Some (m\<lparr>nm_control := c, nm_runtime := rt\<rparr>) })"

text \<open>The messages of the page: the switch of the video, and a probe of the hardware decoder, whose answer is
  the second component (none while its callback is outstanding).\<close>

definition HandleMessage :: "cstring \<Rightarrow> bool \<Rightarrow> bool \<Rightarrow> 'm nacl_module \<Rightarrow> cstring option \<times> 'm nacl_module" where
  "HandleMessage message interface resources m =
     (if message = str ''airtizen-video-on'' then (None, m\<lparr>nm_video := locked (Enable True) (nm_video m)\<rparr>)
      else if message = str ''airtizen-video-off'' then (None, m\<lparr>nm_video := locked (Enable False) (nm_video m)\<rparr>)
      else if message \<noteq> str ''airtizen-probe-video'' then (None, m)
      else if \<not> interface then (Some (str ''airtizen-video-probe:interface-unavailable''), m)
      else if \<not> resources then (Some (str ''airtizen-video-probe:resource-unavailable''), m)
      else (None, m))"

text \<open>The functions the receiver calls.\<close>

definition nacl_video :: "worker_op \<Rightarrow> 'm nacl_module \<Rightarrow> 'm nacl_module" where
  "nacl_video w m = (if nm_video_set m then m\<lparr>nm_video := locked (work w) (nm_video m)\<rparr> else m)"

definition nacl_open :: "int \<Rightarrow> int \<Rightarrow> int \<Rightarrow> 'm nacl_module \<Rightarrow> int option \<times> 'm nacl_module" where
  "nacl_open r chans bits m =
     (if nm_audio_set m then (case OpenAudio r chans bits (nm_audio m) of (rc, a) \<Rightarrow> (rc, m\<lparr>nm_audio := a\<rparr>)) else (Some (-1), m))"

definition nacl_write :: "byte list option \<Rightarrow> 'm nacl_module \<Rightarrow> (int \<times> 'm nacl_module) option" where
  "nacl_write pcm m =
     (if nm_audio_set m then map_option (\<lambda>(rc, a). (rc, m\<lparr>nm_audio := a\<rparr>)) (WriteAudio pcm (nm_audio m)) else Some (-1, m))"

definition nacl_close :: "'m nacl_module \<Rightarrow> 'm nacl_module" where
  "nacl_close m = (if nm_audio_set m then m\<lparr>nm_audio := CloseAudio (nm_audio m)\<rparr> else m)"

text \<open>The destructor. The worker is joined: when it has not run before, it does so then (\<open>late\<close>).\<close>

definition DestroyInstance :: "'m surroundings \<Rightarrow> ('m surroundings \<times> server_env) option \<Rightarrow> 'm nacl_module \<Rightarrow> 'm nacl_module option" where
  "DestroyInstance su late m =
     (let m1 = m\<lparr>nm_video := ShutdownVideo (nm_video m), nm_video_set := False, nm_audio := ShutdownAudio (nm_audio m)\<rparr> in
      if nm_started m1 then do {
        m2 \<leftarrow> (case late of None \<Rightarrow> Some m1 | Some (su', sv) \<Rightarrow> StartWorker su' sv m1);
        rt \<leftarrow> airtizen_runtime_stop su (nm_runtime m2);
        Some (m2\<lparr>nm_runtime := rt, nm_control := airtizen_control_http_stop (nm_control m2), nm_audio_set := False\<rparr>)
      } else Some (m1\<lparr>nm_audio_set := False\<rparr>))"

text \<open>An instance that was initialised, and what can happen to it until it is destroyed.\<close>

inductive instance_step :: "'m nacl_module \<Rightarrow> 'm nacl_module \<Rightarrow> bool" where
  step_start: "StartWorker su sv m = Some m' \<Longrightarrow> instance_step m m'"
| step_message: "instance_step m (snd (HandleMessage t a b m))"
| step_video: "host_step (nm_video m) v \<Longrightarrow> instance_step m (m\<lparr>nm_video := v\<rparr>)"
| step_audio: "audio_step True (nm_audio m) a \<Longrightarrow> instance_step m (m\<lparr>nm_audio := a\<rparr>)"
| step_receiver: "instance_step m (m\<lparr>nm_runtime := runtime_step op (nm_runtime m)\<rparr>)"

inductive instance_reachable :: "(cstring \<times> cstring) list \<Rightarrow> 'm nacl_module \<Rightarrow> bool" for args where
  instance_init: "InitInstance args io_ok thread_ok nacl_module_init = (True, m) \<Longrightarrow> instance_reachable args m"
| instance_next: "instance_reachable args m \<Longrightarrow> instance_step m m' \<Longrightarrow> instance_reachable args m'"

section \<open>Lemmas\<close>

lemma http_start_result: "http_start sv c = (rc, c') \<Longrightarrow> ct_token c' = ct_token c \<and> (rc = 0 \<longrightarrow> ct_started c') \<and> (rc \<noteq> 0 \<longrightarrow> ct_started c' = ct_started c)"
  by (auto simp: http_start_def airtizen_control_http_start_def split: if_splits)

lemma http_stop_off [simp]: "\<not> ct_started (airtizen_control_http_stop c)"
  by (simp add: airtizen_control_http_stop_def)

lemma service_name_ok: "length (chosen_name (Some service_name)) \<le> 48" "list_all name_char (chosen_name (Some service_name))"
  by (simp_all add: chosen_name_def service_name_def str_def name_char_def)

lemma on_control_inv: "runtime_inv rt \<Longrightarrow> \<exists>rt'. on_control su rt = Some rt' \<and> runtime_inv rt'"
  using runtime_start_cases [of rt su "Some service_name"] by (auto simp: on_control_def)

lemma service_events_inv: "runtime_inv rt \<Longrightarrow> \<exists>rt'. service_events es rt = Some rt' \<and> runtime_inv rt'"
proof (induction es arbitrary: rt)
  case (Cons e es)
  show ?case
  proof (cases e)
    case (AppControl su)
    then show ?thesis using on_control_inv [OF Cons.prems, of su] Cons.IH by auto
  next
    case (Receiver op)
    then show ?thesis using Cons.IH [OF runtime_step_inv [OF Cons.prems]] by simp
  qed
qed simp

text \<open>Everything of the receiver is off.\<close>

definition receiver_off :: "'m runtime \<Rightarrow> bool" where
  "receiver_off rt \<longleftrightarrow> \<not> rt_started rt \<and> \<not> g_raop (rc_core (rt_receiver rt)) \<and> \<not> g_running (rc_mdns (rt_receiver rt))"

lemma runtime_stop_off: "runtime_inv rt \<Longrightarrow> \<exists>rt'. airtizen_runtime_stop su rt = Some rt' \<and> runtime_inv rt' \<and> receiver_off rt'"
  using stop_locked_cases [of rt su] by (auto simp: airtizen_runtime_stop_def receiver_off_def runtime_inv_def)

lemma on_create_result:
  assumes "runtime_inv rt" "\<not> rt_started rt"
  shows "\<exists>ok c1 rt1. on_create su sv c rt = Some (ok, c1, rt1) \<and> runtime_inv rt1 \<and> (ok \<longrightarrow> rt_started rt1 \<and> ct_started c1) \<and> (\<not> ok \<longrightarrow> receiver_off rt1)"
proof -
  obtain rc c1 where h: "http_start sv c = (rc, c1)" by fastforce
  obtain rc1 rt1 where r: "airtizen_runtime_start su (Some service_name) rt = Some (rc1, rt1)" "runtime_inv rt1" "rt_started rt1 = (rc1 = 0)"
    using runtime_start_cases [OF assms(1), of su "Some service_name"] service_name_ok assms(2) by auto
  show ?thesis using h r assms http_start_result [OF h]
    by (cases "rc = 0") (auto simp: on_create_def receiver_off_def runtime_inv_def)
qed

lemma start_worker_inv:
  assumes "runtime_inv (nm_runtime m)"
  shows "\<exists>m'. StartWorker su sv m = Some m' \<and> runtime_inv (nm_runtime m') \<and> nm_started m' = nm_started m \<and>
    nm_audio m' = nm_audio m \<and> nm_video m' = nm_video m \<and> nm_video_set m' = nm_video_set m \<and> ct_token (nm_control m') = ct_token (nm_control m)"
proof -
  obtain rc c where h: "http_start sv (nm_control m) = (rc, c)" by fastforce
  obtain rc1 rt1 where "airtizen_runtime_start su (Some (nm_name m)) (nm_runtime m) = Some (rc1, rt1)" "runtime_inv rt1"
    using runtime_start_cases [OF assms, of su "Some (nm_name m)"] by blast
  then show ?thesis using h assms http_start_result [OF h] by (auto simp: StartWorker_def)
qed

text \<open>What an initialised instance keeps: the token of the page, and the invariants of all its parts.\<close>

definition instance_inv :: "(cstring \<times> cstring) list \<Rightarrow> 'm nacl_module \<Rightarrow> bool" where
  "instance_inv args m \<longleftrightarrow> ct_token (nm_control m) = attribute (str ''receiver-token'') [] args \<and>
     length (ct_token (nm_control m)) = 64 \<and> list_all token_char (ct_token (nm_control m)) \<and> nm_started m \<and>
     runtime_inv (nm_runtime m) \<and> video_reachable (nm_video m) \<and> audio_reachable True (nm_audio m)"

lemma on_mdns_network: "runtime_inv rt \<Longrightarrow> on_mdns (airtizen_mdns_set_network ip i) rt = (rc, rt') \<Longrightarrow> runtime_inv rt'"
  using runtime_step_inv [of rt "RtNetwork ip i"] by (simp add: runtime_step_def)

lemma on_mdns_native:
  assumes "runtime_inv rt" "on_mdns (airtizen_discovery_set_profile (Some (str ''native''))) rt = (rc, rt')"
  shows "runtime_inv rt'"
proof -
  obtain rc1 md where md: "airtizen_discovery_set_profile (Some (str ''native'')) (rc_mdns (rt_receiver rt)) = (rc1, md)" by fastforce
  have "mdns_inv md" using assms(1) mdns.step_inv [of "rc_mdns (rt_receiver rt)" "SetProfile (Some (str ''native''))"] md
    by (auto simp: runtime_inv_def receiver_inv_def mdns_step_def)
  moreover have "g_running md = g_running (rc_mdns (rt_receiver rt))"
    using md by (auto simp: airtizen_discovery_set_profile_def Let_def split: if_splits)
  ultimately show ?thesis using assms md by (auto simp: on_mdns_def runtime_inv_def receiver_inv_def)
qed

lemma init_instance_inv:
  assumes "InitInstance args io_ok thread_ok nacl_module_init = (True, m)"
  shows "instance_inv args m"
proof -
  let ?t = "attribute (str ''receiver-token'') [] args"
  obtain rc c where c: "airtizen_control_http_set_token (Some ?t) control_init = (rc, c)" by fastforce
  obtain rc1 rt1 where n: "on_mdns (airtizen_mdns_set_network (Some (attribute (str ''receiver-ip'') [] args)) (Some (attribute (str ''receiver-id'') [] args)))
      (runtime_init :: 'a runtime) = (rc1, rt1)" by fastforce
  obtain rc2 rt2 where p: "on_mdns (airtizen_discovery_set_profile (Some (str ''native''))) rt1 = (rc2, rt2)" by fastforce
  have inv: "runtime_inv rt2" using on_mdns_native [OF on_mdns_network [OF runtime_init_inv n] p] .
  have m: "rc = 0" "nm_control m = c" "nm_runtime m = rt2" "nm_started m" "nm_video m = video_host_init" "nm_audio m = audio_host_init"
    using assms c n p by (auto simp: InitInstance_def nacl_module_init_def Let_def split: if_splits)
  then have "c = control_init\<lparr>ct_token := ?t\<rparr>" "length ?t = 64 \<and> list_all token_char ?t"
    using c by (auto simp: airtizen_control_http_set_token_def split: if_splits)
  then show ?thesis using m inv reach_init audio_init by (simp add: instance_inv_def)
qed

lemma message_cases:
  "snd (HandleMessage t a b m) = m \<or> (\<exists>on. snd (HandleMessage t a b m) = m\<lparr>nm_video := locked (Enable on) (nm_video m)\<rparr>)"
  by (auto simp: HandleMessage_def)

lemma instance_step_inv: "instance_step m m' \<Longrightarrow> instance_inv args m \<Longrightarrow> instance_inv args m'"
proof (induction rule: instance_step.induct)
  case (step_start su sv m m')
  then show ?case using start_worker_inv [of m su sv] by (auto simp: instance_inv_def)
next
  case (step_message m t a b)
  then show ?case using message_cases [of t a b m] reach_step [OF _ step_enable] by (auto simp: instance_inv_def)
next
  case (step_video m v)
  then show ?case using reach_step by (auto simp: instance_inv_def)
next
  case (step_audio m a)
  then show ?case using audio_next by (auto simp: instance_inv_def)
next
  case (step_receiver m op)
  then show ?case using runtime_step_inv by (auto simp: instance_inv_def)
qed

lemma instance_reachable_inv: "instance_reachable args m \<Longrightarrow> instance_inv args m"
  by (induction rule: instance_reachable.induct) (auto intro: init_instance_inv instance_step_inv)

text \<open>The outputs after the shutdown.\<close>

lemma shutdown_outputs:
  "\<not> vh_ready (ShutdownVideo v)" "vl_closing (vh_locked (ShutdownVideo v))" "vl_queue (vh_locked (ShutdownVideo v)) = []"
  "\<not> pp_decoder (ShutdownVideo v)" "pp_pictures (ShutdownVideo v) = []" "pp_pumps (vh_locked (ShutdownVideo v)) = 0"
  "ah_closing (ShutdownAudio a)" "ah_audio (ShutdownAudio a) = None" "\<not> open_q (ah_queue (ShutdownAudio a))"
  by (simp_all add: ShutdownVideo_def locked_def ShutdownAudio_def airtizen_audio_queue_close_def, simp_all add: CloseDecoder_def)

section \<open>Properties\<close>


text \<open>C39: an instance of the module that initialises has the token of its page, 64
  characters long, and keeps it: over everything that happens to the instance its control server, when it
  runs, asks for exactly this token; and the invariants of the receiver and of both outputs hold together.\<close>

theorem nacl_instance_guarded:
  assumes "instance_reachable args m"
  shows "ct_token (nm_control m) = attribute (str ''receiver-token'') [] args \<and> length (ct_token (nm_control m)) = 64 \<and>
    (token_equal (ct_token (nm_control m)) v \<longleftrightarrow> v = attribute (str ''receiver-token'') [] args) \<and>
    runtime_inv (nm_runtime m) \<and> host_inv (nm_video m) \<and> audio_inv (nm_audio m)"
proof -
  have i: "instance_inv args m" by (rule instance_reachable_inv [OF assms])
  then have "token_ok (ct_token (nm_control m))" "ct_token (nm_control m) \<noteq> []" by (auto simp: instance_inv_def token_ok_def)
  then show ?thesis using i token_equal_iff reachable_inv audio_reachable_inv by (auto simp: instance_inv_def)
qed


text \<open>An instance of a page with a token, an address and an id.\<close>

definition page_args :: "(cstring \<times> cstring) list" where
  "page_args = [(str ''receiver-ip'', str ''192.168.1.7''), (str ''receiver-token'', replicate 64 97), (str ''receiver-id'', str ''AABBCCDDEEFF'')]"

lemma page_instance: "\<exists>m. instance_reachable page_args (m :: unit nacl_module)"
proof -
  have a: "attribute (str ''receiver-token'') [] page_args = replicate 64 97" "attribute (str ''receiver-ip'') [] page_args = str ''192.168.1.7''"
    "attribute (str ''receiver-id'') [] page_args = str ''AABBCCDDEEFF''" by code_simp+
  have t: "airtizen_control_http_set_token (Some (replicate 64 97)) control_init = (0, control_init\<lparr>ct_token := replicate 64 97\<rparr>)" by code_simp
  have n: "inet_pton (str ''192.168.1.7'') = Some [192, 168, 1, 7]" by code_simp
  have h: "list_all hex_upper (str ''AABBCCDDEEFF'')" "length (str ''AABBCCDDEEFF'') = 12" by code_simp+
  have s: "fst (airtizen_mdns_set_network (Some (str ''192.168.1.7'')) (Some (str ''AABBCCDDEEFF'')) (rc_mdns (rt_receiver (runtime_init :: unit runtime)))) = 0"
    using n h by (simp add: airtizen_mdns_set_network_def Let_def be32_def runtime_init_def receiver_init_def mdns_init_def)
  let ?rt = "runtime_init :: unit runtime"
  obtain rc md where e: "airtizen_mdns_set_network (Some (str ''192.168.1.7'')) (Some (str ''AABBCCDDEEFF'')) (rc_mdns (rt_receiver ?rt)) = (rc, md)"
    by (cases "airtizen_mdns_set_network (Some (str ''192.168.1.7'')) (Some (str ''AABBCCDDEEFF'')) (rc_mdns (rt_receiver ?rt))")
  have "\<not> g_running md" using set_network_running [OF e] by (simp add: runtime_init_def receiver_init_def mdns_init_def)
  moreover define rt1 where "rt1 = ?rt\<lparr>rt_receiver := (rt_receiver ?rt)\<lparr>rc_mdns := md\<rparr>\<rparr>"
  ultimately have n1: "on_mdns (airtizen_mdns_set_network (Some (str ''192.168.1.7'')) (Some (str ''AABBCCDDEEFF''))) ?rt = (0, rt1)"
      "\<not> g_running (rc_mdns (rt_receiver rt1))"
    using s e by (simp_all add: on_mdns_def)
  obtain rt2 where n2: "on_mdns (airtizen_discovery_set_profile (Some (str ''native''))) rt1 = (0, rt2)"
    using n1(2) by (auto simp: on_mdns_def airtizen_discovery_set_profile_def Let_def)
  have "\<exists>m. InitInstance page_args True True (nacl_module_init :: unit nacl_module) = (True, m)"
    using a t n1(1) n2 by (simp add: InitInstance_def nacl_module_init_def Let_def)
  then show ?thesis using instance_init by blast
qed

theorem nacl_instance_guarded_witness:
  "\<exists>m. instance_reachable page_args (m :: unit nacl_module) \<and> ct_token (nm_control m) = replicate 64 97 \<and> host_inv (nm_video m)"
proof -
  have "attribute (str ''receiver-token'') [] page_args = replicate 64 97" by code_simp
  then show ?thesis using page_instance nacl_instance_guarded by metis
qed


end
